(* ===== verification/Prelude.thy ===== *)
theory Prelude
  imports Main "HOL-Library.Word" "HOL-Library.AList" "HOL-Library.Sublist"
begin

unbundle bit_operations_syntax

text \<open>
  Shared vocabulary of the development: bytes and byte strings, Go's
  \<open>encoding/binary\<close> fixed-width integers, CRC-32C (\<open>hash/crc32\<close> with the Castagnoli table),
  64-bit FNV-1a (\<open>hash/fnv\<close>), and the list lemmas the components share.

  Collections:
  \<^item> \<open>codec\<close> holds the length and round-trip equations of the byte encoders;
  \<^item> \<open>frame\<close> holds the equations saying which state fields an operation leaves alone.
\<close>

named_theorems codec \<open>length and round-trip equations of byte encoders\<close>
named_theorems frame \<open>fields an operation leaves unchanged\<close>
named_theorems logframe \<open>operations that leave the log alone\<close>

section \<open>Bytes\<close>

type_synonym byte = "8 word"
type_synonym bytes = "byte list"
type_synonym u32 = "32 word"
type_synonym u64 = "64 word"

text \<open>
  A Go string is a byte sequence. The model uses HOL's \<open>string\<close> (a list of 8-bit characters)
  for identifiers and keys, and converts where the code converts (\<open>[]byte(s)\<close>, \<open>string(b)\<close>).
\<close>

definition bytes_of_string :: "string \<Rightarrow> bytes" where
  "bytes_of_string s = map (\<lambda>c. of_nat (of_char c)) s"

definition string_of_bytes :: "bytes \<Rightarrow> string" where
  "string_of_bytes bs = map (\<lambda>b. char_of (unat b)) bs"

lemma length_bytes_of_string [simp, codec]: "length (bytes_of_string s) = length s"
  by (simp add: bytes_of_string_def)

lemma length_string_of_bytes [simp, codec]: "length (string_of_bytes bs) = length bs"
  by (simp add: string_of_bytes_def)

lemma unat_of_char [simp]: "unat (of_nat (of_char c) :: byte) = of_char c"
proof -
  have "(of_char c :: nat) < 256"
    by simp
  then show ?thesis
    by (simp add: unat_of_nat take_bit_nat_eq_self_iff)
qed

lemma string_of_bytes_of_string [simp, codec]: "string_of_bytes (bytes_of_string s) = s"
  by (induction s) (simp_all add: string_of_bytes_def bytes_of_string_def)

lemma bytes_of_string_of_bytes [simp, codec]: "bytes_of_string (string_of_bytes bs) = bs"
proof (induction bs)
  case Nil
  then show ?case
    by (simp add: string_of_bytes_def bytes_of_string_def)
next
  case (Cons b bs)
  have "unat b < 256"
    using unsigned_less [of b] by simp
  with Cons show ?case
    by (simp add: string_of_bytes_def bytes_of_string_def of_char_of unsigned_of_nat)
qed

lemma bytes_of_string_append [simp]:
  "bytes_of_string (s @ t) = bytes_of_string s @ bytes_of_string t"
  by (simp add: bytes_of_string_def)

lemma inj_bytes_of_string: "bytes_of_string s = bytes_of_string t \<longleftrightarrow> s = t"
  by (metis string_of_bytes_of_string)

section \<open>Fixed-width integers: \<open>encoding/binary\<close>\<close>

text \<open>
  \<open>le w n\<close> is what \<open>binary.LittleEndian.PutUint\<dots>\<close> stores for an integer of \<open>w\<close> bytes: the
  value modulo \<open>256 ^ w\<close>, least significant byte first; \<open>unle\<close> is the matching \<open>Uint\<dots>\<close> read.
  \<open>be\<close> and \<open>unbe\<close> are the big-endian pair.
\<close>

fun le :: "nat \<Rightarrow> nat \<Rightarrow> bytes" where
  "le 0 n = []"
| "le (Suc w) n = of_nat (n mod 256) # le w (n div 256)"

fun unle :: "bytes \<Rightarrow> nat" where
  "unle [] = 0"
| "unle (b # bs) = unat b + 256 * unle bs"

definition be :: "nat \<Rightarrow> nat \<Rightarrow> bytes" where
  "be w n = rev (le w n)"

definition unbe :: "bytes \<Rightarrow> nat" where
  "unbe bs = unle (rev bs)"

lemma length_le [simp, codec]: "length (le w n) = w"
  by (induction w n rule: le.induct) simp_all

lemma unat_byte_mod [simp]: "unat (of_nat (n mod 256) :: byte) = n mod 256"
  by (simp add: unat_of_nat take_bit_nat_eq_self_iff)

lemma unle_le: "unle (le w n) = n mod 256 ^ w"
proof (induction w arbitrary: n)
  case 0
  then show ?case by simp
next
  case (Suc w)
  have "unle (le (Suc w) n) = n mod 256 + 256 * (n div 256 mod 256 ^ w)"
    using Suc.IH by simp
  also have "\<dots> = n mod 256 ^ Suc w"
    by (simp add: mod_mult2_eq add.commute)
  finally show ?case .
qed

lemma unle_le_id [simp, codec]: "n < 256 ^ w \<Longrightarrow> unle (le w n) = n"
  by (simp add: unle_le)

lemma unle_less: "unle bs < 256 ^ length bs"
proof (induction bs)
  case Nil
  then show ?case by simp
next
  case (Cons b bs)
  have "unat b < 256"
    using unsigned_less [of b] by simp
  moreover have "256 * unle bs + 256 \<le> 256 * 256 ^ length bs"
    using Cons.IH by simp
  ultimately show ?case by simp
qed

lemma le_unle: "le (length bs) (unle bs) = bs"
proof (induction bs)
  case Nil
  then show ?case by simp
next
  case (Cons b bs)
  have b: "unat b < 256"
    using unsigned_less [of b] by simp
  then have "(unat b + 256 * unle bs) mod 256 = unat b"
    and "(unat b + 256 * unle bs) div 256 = unle bs"
    by simp_all
  with Cons show ?case by simp
qed

lemma length_be [simp, codec]: "length (be w n) = w"
  by (simp add: be_def)

lemma unbe_be_id [simp, codec]: "n < 256 ^ w \<Longrightarrow> unbe (be w n) = n"
  by (simp add: be_def unbe_def)

lemma le_inject: "\<lbrakk>m < 256 ^ w; n < 256 ^ w; le w m = le w n\<rbrakk> \<Longrightarrow> m = n"
  by (metis unle_le_id)

section \<open>CRC-32C and FNV-1a\<close>

text \<open>
  \<open>crc32.Checksum(p, crc32.MakeTable(crc32.Castagnoli))\<close>: the bit-reversed polynomial is
  \<open>0x82F63B78\<close>, the register starts at all ones and is complemented at the end. The table
  the Go library builds is the eight-fold iteration of the one-bit step.
\<close>

definition crc_bit :: "u32 \<Rightarrow> u32" where
  "crc_bit x = (if x AND 1 \<noteq> 0 then drop_bit 1 x XOR 0x82F63B78 else drop_bit 1 x)"

definition crc_byte :: "u32 \<Rightarrow> byte \<Rightarrow> u32" where
  "crc_byte r b = crc_bit (crc_bit (crc_bit (crc_bit
     (crc_bit (crc_bit (crc_bit (crc_bit (r XOR ucast b))))))))"

definition crc32c :: "bytes \<Rightarrow> nat" where
  "crc32c bs = unat (NOT (fold (\<lambda>b r. crc_byte r b) bs (0xFFFFFFFF :: u32)))"

lemma crc32c_less [codec]: "crc32c bs < 256 ^ 4"
  using unsigned_less [of "NOT (fold (\<lambda>b r. crc_byte r b) bs (0xFFFFFFFF :: u32))"]
  by (simp add: crc32c_def)

lemma crc32c_less32 [simp]: "crc32c bs < 4294967296"
  using crc32c_less [of bs] by simp

text \<open>\<open>crc32.Update\<close>: continue a checksum with more bytes.\<close>

definition crcUpdate :: "u32 \<Rightarrow> bytes \<Rightarrow> u32" where
  "crcUpdate c bs = NOT (fold (\<lambda>b r. crc_byte r b) bs (NOT c))"

lemma crcUpdate_Nil [simp]: "crcUpdate c [] = c"
  by (simp add: crcUpdate_def)

lemma crcUpdate_append [simp]: "crcUpdate (crcUpdate c xs) ys = crcUpdate c (xs @ ys)"
  by (simp add: crcUpdate_def)

lemma crc32c_update: "crc32c bs = unat (crcUpdate 0 bs)"
proof -
  have "(0xFFFFFFFF :: u32) = - 1" by simp
  then show ?thesis by (simp only: crcUpdate_def crc32c_def bit.compl_zero)
qed

text \<open>The published check value of CRC-32C.\<close>

lemma crc32c_check_value: "crc32c (bytes_of_string ''123456789'') = 0xE3069283"
  unfolding crc32c_def bytes_of_string_def crc_byte_def
  by simp (simp add: crc_bit_def)

text \<open>\<open>fnv.New64a\<close>: xor the byte in, multiply by the 64-bit FNV prime (mod 2^64).\<close>

definition fnv64a_step :: "u64 \<Rightarrow> byte \<Rightarrow> u64" where
  "fnv64a_step h b = (h XOR ucast b) * 1099511628211"

definition fnv1a64 :: "bytes \<Rightarrow> u64" where
  "fnv1a64 bs = fold (\<lambda>b h. fnv64a_step h b) bs 14695981039346656037"

section \<open>Lists\<close>

lemma take_append_exact [simp]: "length xs = n \<Longrightarrow> take n (xs @ ys) = xs"
  by simp

lemma drop_append_exact [simp]: "length xs = n \<Longrightarrow> drop n (xs @ ys) = ys"
  by simp

lemma filter_neq_id: "x \<notin> set xs \<Longrightarrow> filter (\<lambda>y. y \<noteq> x) xs = xs"
  by (induction xs) auto

lemma card_filter_le: "distinct xs \<Longrightarrow> card {x \<in> set xs. P x} = length (filter P xs)"
proof -
  assume "distinct xs"
  then have "distinct (filter P xs)" by simp
  then have "card (set (filter P xs)) = length (filter P xs)"
    by (rule distinct_card)
  then show ?thesis by (simp add: set_filter)
qed

text \<open>Two sets that each hold more than half of a finite universe meet.\<close>

lemma majorities_meet:
  assumes "finite U" and "A \<subseteq> U" and "B \<subseteq> U"
    and "card A \<ge> card U div 2 + 1" and "card B \<ge> card U div 2 + 1"
  shows "A \<inter> B \<noteq> {}"
proof
  assume "A \<inter> B = {}"
  moreover have "finite A" and "finite B"
    using assms(1-3) finite_subset by blast+
  ultimately have "card (A \<union> B) = card A + card B"
    by (simp add: card_Un_disjoint)
  moreover have "card (A \<union> B) \<le> card U"
    using assms(1-3) by (intro card_mono) auto
  ultimately show False
    using assms(4,5) by linarith
qed

end
