(* ===== verification/RaftTypes.thy ===== *)
theory RaftTypes
  imports Prelude
begin

text \<open>
  The data of package \<open>consensus\<close> (\<open>src/consensus/raft.go\<close>, \<open>membership.go\<close>): roles, log
  entries, the persistent state, the cluster configuration, the RPC messages and the error
  values. Terms and log indices are Go \<open>uint64\<close>; the model uses \<open>nat\<close> (no run reaches
  \<open>2 ^ 64\<close> terms or entries) and the on-disk encoders write them modulo \<open>2 ^ 64\<close>.
\<close>

section \<open>Roles and log entries\<close>

datatype RaftRole = RoleFollower | RoleCandidate | RoleLeader

fun RaftRole_String :: "RaftRole \<Rightarrow> string" where
  "RaftRole_String RoleFollower = ''follower''"
| "RaftRole_String RoleCandidate = ''candidate''"
| "RaftRole_String RoleLeader = ''leader''"

type_synonym EntryType = byte

definition EntryNormal :: EntryType where
  "EntryNormal = 0"

definition EntryConfig :: EntryType where
  "EntryConfig = 1"

lemma EntryConfig_neq_Normal [simp]: "EntryConfig \<noteq> EntryNormal" "EntryNormal \<noteq> EntryConfig"
  by (simp_all add: EntryConfig_def EntryNormal_def)

record LogEntry =
  eTerm :: nat
  eIndex :: nat
  eType :: EntryType
  eCommand :: bytes

text \<open>\<open>votedFor\<close> is the empty string when no vote was cast in the term.\<close>

record persistentState =
  CurrentTerm :: nat
  VotedFor :: string
  Log :: "LogEntry list"

text \<open>The pair kept in \<open>raft_meta.dat\<close>.\<close>

record raftMeta =
  mTerm :: nat
  mVote :: string

section \<open>Cluster configuration\<close>

text \<open>\<open>Addrs\<close> is a Go map; it is an association list with distinct keys here.\<close>

record Configuration =
  Servers :: "string list"
  Learners :: "string list"
  Addrs :: "(string \<times> string) list"

definition emptyConfiguration :: Configuration where
  "emptyConfiguration = \<lparr>Servers = [], Learners = [], Addrs = []\<rparr>"

section \<open>Messages\<close>

record RequestVoteArgs =
  rvTerm :: nat
  rvCandidateID :: string
  rvLastLogIndex :: nat
  rvLastLogTerm :: nat
  rvPreVote :: bool

record RequestVoteReply =
  rvrTerm :: nat
  rvrVoteGranted :: bool

record AppendEntriesArgs =
  aeTerm :: nat
  aeLeaderID :: string
  aePrevLogIndex :: nat
  aePrevLogTerm :: nat
  aeEntries :: "LogEntry list"
  aeLeaderCommit :: nat
  aeWantMatch :: bool

record AppendEntriesReply =
  aerTerm :: nat
  aerSuccess :: bool
  aerConflictIndex :: nat
  aerConflictTerm :: nat
  aerHasMatch :: bool
  aerMatchIndex :: nat
  aerCaps :: nat

section \<open>Errors\<close>

text \<open>The sentinel errors of the package, and one value per \<open>fmt.Errorf\<close> the code returns.\<close>

datatype raft_err =
    ErrNotLeader
  | ErrStopped
  | ErrTimeout
  | ErrLogStoreClosed
  | ErrWrite
  | ErrWriteRollback
  | ErrFsync
  | ErrRewrite
  | ErrReopen
  | ErrMetaWrite
  | ErrVoteTooLong
  | ErrPersistLog raft_err
  | ErrConfigChangeInProgress
  | ErrMemberExists
  | ErrMemberNotFound
  | ErrNoQuorum
  | ErrLastVoter
  | ErrPromotionPending
  | ErrConfigTooLarge
  | ErrEmptyMemberID
  | ErrRemovedWhileCatchingUp
  | ErrLeadershipUnconfirmed
  | ErrReadIndexTimeout
  | ErrEncodeConfiguration
  | ErrSnapVersion
  | ErrCorrupt string
  | ErrIO string

section \<open>Codecs outside the package\<close>

text \<open>\<open>encoding/gob\<close>, a Go library codec, is a parameter of the model: the encoding of a
  configuration and the decoding of the old whole-state file \<open>raft_state.gob\<close>.\<close>

record gob =
  gobEncode :: "Configuration \<Rightarrow> bytes option"
  gobDecode :: "bytes \<Rightarrow> Configuration option"
  gobDecodeState :: "bytes \<Rightarrow> persistentState option"

section \<open>Contiguous logs\<close>

text \<open>
  The log the code keeps is a contiguous run of entries: each index is one more than the one
  before. \<open>contig i es\<close> says that \<open>es\<close> starts at index \<open>i\<close>.
\<close>

fun contig :: "nat \<Rightarrow> LogEntry list \<Rightarrow> bool" where
  "contig i [] = True"
| "contig i (e # es) = (eIndex e = i \<and> contig (Suc i) es)"

lemma contig_append [simp]:
  "contig i (xs @ ys) \<longleftrightarrow> contig i xs \<and> contig (i + length xs) ys"
  by (induction xs arbitrary: i) simp_all

lemma contig_nth: "contig i es \<Longrightarrow> k < length es \<Longrightarrow> eIndex (es ! k) = i + k"
proof (induction es arbitrary: i k)
  case Nil
  then show ?case by simp
next
  case (Cons e es)
  then show ?case by (cases k) fastforce+
qed

lemma contig_iff_nth: "contig i es \<longleftrightarrow> (\<forall>k < length es. eIndex (es ! k) = i + k)"
proof
  assume "contig i es"
  then show "\<forall>k < length es. eIndex (es ! k) = i + k"
    by (simp add: contig_nth)
next
  assume "\<forall>k < length es. eIndex (es ! k) = i + k"
  then show "contig i es"
  proof (induction es arbitrary: i)
    case Nil
    then show ?case by simp
  next
    case (Cons e es)
    have "eIndex e = i"
      using Cons.prems [rule_format, of 0] by simp
    moreover have "contig (Suc i) es"
    proof (rule Cons.IH, intro allI impI)
      fix k
      assume "k < length es"
      then show "eIndex (es ! k) = Suc i + k"
        using Cons.prems [rule_format, of "Suc k"] by simp
    qed
    ultimately show ?case by simp
  qed
qed

lemma contig_take: "contig i es \<Longrightarrow> contig i (take n es)"
  by (simp add: contig_iff_nth)

lemma contig_drop: "contig i es \<Longrightarrow> contig (i + n) (drop n es)"
  by (simp add: contig_iff_nth add.assoc)

lemma contig_hd: "contig i es \<Longrightarrow> es \<noteq> [] \<Longrightarrow> eIndex (hd es) = i"
  by (cases es) simp_all

lemma contig_last: "contig i es \<Longrightarrow> es \<noteq> [] \<Longrightarrow> eIndex (last es) = i + length es - 1"
  by (cases es rule: rev_cases) simp_all

lemma contig_mem_bounds:
  "contig i es \<Longrightarrow> e \<in> set es \<Longrightarrow> i \<le> eIndex e \<and> eIndex e < i + length es"
  by (auto simp: in_set_conv_nth contig_nth)

end
