(* ===== verification/RaftStorage.thy ===== *)
theory RaftStorage
  imports RaftTypes
begin

text \<open>
  \<open>src/consensus/raft_storage.go\<close>: the record format of \<open>raft_log.dat\<close>, its replay after a
  crash, the checksummed \<open>raft_meta.dat\<close>, and the \<open>logStore\<close> that owns both files.

  Every system call that can fail is an argument of the operation that makes it (its
  outcome), so each error branch of the code is a branch of the model. Two files matter for
  the log: the one the store holds open (\<open>sHandle\<close>, of which the first \<open>sSynced\<close> bytes have
  been fsynced) and the one the path names; they differ only after a rename that was not
  followed by a reopen (\<open>sDetached\<close>). \<open>sMetaMay\<close> holds the older versions of the meta file a
  crash can bring back, because a rename was not followed by a directory fsync.
\<close>

section \<open>Record format\<close>

definition recHdrLen :: nat where "recHdrLen = 8"
definition recFixedLen :: nat where "recFixedLen = 17"
definition maxRecPayload :: nat where "maxRecPayload = 2 ^ 30"
definition raftLogHdrLen :: nat where "raftLogHdrLen = 8"
definition raftLogVersion :: nat where "raftLogVersion = 1"
definition raftLogMagic :: bytes where "raftLogMagic = bytes_of_string ''VXRL''"
definition raftMetaVersion :: nat where "raftMetaVersion = 1"
definition raftMetaMagic :: bytes where "raftMetaMagic = bytes_of_string ''VXRM''"

lemmas raft_storage_consts =
  recHdrLen_def recFixedLen_def maxRecPayload_def raftLogHdrLen_def raftLogVersion_def
  raftMetaVersion_def

lemma length_raftLogMagic [simp]: "length raftLogMagic = 4"
  by (simp add: raftLogMagic_def)

lemma length_raftMetaMagic [simp]: "length raftMetaMagic = 4"
  by (simp add: raftMetaMagic_def)

definition recordPayload :: "LogEntry \<Rightarrow> bytes" where
  "recordPayload e = le 8 (eTerm e) @ le 8 (eIndex e) @ [eType e] @ eCommand e"

definition encodeRecord :: "LogEntry \<Rightarrow> bytes" where
  "encodeRecord e =
     (let n = recFixedLen + length (eCommand e); p = recordPayload e
      in le 4 n @ le 4 (crc32c p) @ p)"

fun encodeRecords :: "bytes \<Rightarrow> LogEntry list \<Rightarrow> bytes" where
  "encodeRecords dst [] = dst"
| "encodeRecords dst (e # es) = encodeRecords (dst @ encodeRecord e) es"

text \<open>
  One turn of the replay loop: read a record header, check its length against the bound and
  against the bytes that are left, check the CRC, decode the payload. \<open>None\<close> is every
  \<open>break\<close> of the loop.
\<close>

definition decodePayload :: "bytes \<Rightarrow> LogEntry" where
  "decodePayload p =
     \<lparr>eTerm = unle (take 8 p), eIndex = unle (take 8 (drop 8 p)), eType = p ! 16,
      eCommand = drop recFixedLen p\<rparr>"

definition readRecord :: "bytes \<Rightarrow> (LogEntry \<times> bytes) option" where
  "readRecord bs =
     (if length bs < recHdrLen then None
      else let n = unle (take 4 bs); sum = unle (take 4 (drop 4 bs)); rest = drop recHdrLen bs
        in if n < recFixedLen \<or> n > maxRecPayload \<or> length rest < n then None
           else let p = take n rest
             in if crc32c p \<noteq> sum then None else Some (decodePayload p, drop n rest))"

text \<open>What replay does with one more record: append, overwrite a suffix, or start over.\<close>

definition replayRecord :: "LogEntry list \<times> nat \<Rightarrow> LogEntry \<Rightarrow> LogEntry list \<times> nat" where
  "replayRecord acc e = (case acc of (entries, gapFrom) \<Rightarrow>
     if entries = [] then ([e], gapFrom)
     else let first = eIndex (hd entries); lst = eIndex (last entries)
       in if eIndex e \<le> first then ([e], gapFrom)
          else if eIndex e \<le> lst then (take (eIndex e - first) entries @ [e], gapFrom)
          else if eIndex e > lst + 1 then ([e], lst)
          else (entries @ [e], gapFrom))"

lemma readRecord_shorter: "readRecord bs = Some (e, rest) \<Longrightarrow> length rest < length bs"
  by (auto simp: readRecord_def Let_def raft_storage_consts split: if_splits)

function replayLoop ::
  "bytes \<Rightarrow> LogEntry list \<Rightarrow> nat \<Rightarrow> nat \<Rightarrow> LogEntry list \<times> nat \<times> nat" where
  "replayLoop bs entries good gapFrom =
     (case readRecord bs of
        None \<Rightarrow> (entries, good, gapFrom)
      | Some (e, rest) \<Rightarrow>
          (case replayRecord (entries, gapFrom) e of (entries', gapFrom') \<Rightarrow>
             replayLoop rest entries' (good + (length bs - length rest)) gapFrom'))"
  by pat_completeness auto
termination
  by (relation "measure (\<lambda>(bs, _). length bs)") (auto dest: readRecord_shorter)

declare replayLoop.simps [simp del]

text \<open>
  \<open>replay\<close>: \<open>None\<close> for a missing file (an empty one is created), else the header is checked
  and the records are folded. The result is the log, the offset after the last good record
  and the highest index dropped by an index gap.
\<close>

definition raftLogHeader :: bytes where
  "raftLogHeader = raftLogMagic @ le 4 raftLogVersion"

lemma length_raftLogHeader [simp]: "length raftLogHeader = raftLogHdrLen"
  by (simp add: raftLogHeader_def raftLogHdrLen_def)

definition replayBytes :: "bytes \<Rightarrow> raft_err + (LogEntry list \<times> nat \<times> nat)" where
  "replayBytes file =
     (if length file < raftLogHdrLen then Inl (ErrCorrupt ''short header'')
      else if take 4 file \<noteq> raftLogMagic then Inl (ErrCorrupt ''bad magic'')
      else if unle (take 4 (drop 4 file)) \<noteq> raftLogVersion
        then Inl (ErrCorrupt ''unsupported version'')
      else Inr (replayLoop (drop raftLogHdrLen file) [] raftLogHdrLen 0))"

section \<open>Replay inverts the encoder\<close>

text \<open>The entries the format can carry: 64-bit term and index, payload within the bound.\<close>

definition storable :: "LogEntry \<Rightarrow> bool" where
  "storable e \<longleftrightarrow> eTerm e < 2 ^ 64 \<and> eIndex e < 2 ^ 64 \<and>
     recFixedLen + length (eCommand e) \<le> maxRecPayload"

lemma pow64: "(2 :: nat) ^ 64 = 256 ^ 8" and pow32: "(2 :: nat) ^ 32 = 256 ^ 4"
  by simp_all

lemma length_recordPayload [simp, codec]:
  "length (recordPayload e) = recFixedLen + length (eCommand e)"
  by (simp add: recordPayload_def recFixedLen_def)

lemma length_encodeRecord [simp, codec]:
  "length (encodeRecord e) = recHdrLen + recFixedLen + length (eCommand e)"
  by (simp add: encodeRecord_def Let_def recHdrLen_def)

lemma encodeRecord_neq_Nil [simp]: "encodeRecord e \<noteq> []"
proof
  assume "encodeRecord e = []"
  then have "length (encodeRecord e) = 0" by simp
  then show False by (simp add: recHdrLen_def)
qed

lemma decode_recordPayload [codec]: "storable e \<Longrightarrow> decodePayload (recordPayload e) = e"
  by (simp add: decodePayload_def recordPayload_def storable_def recFixedLen_def pow64
      nth_append)

lemma encodeRecords_eq: "encodeRecords dst es = dst @ concat (map encodeRecord es)"
  by (induction es arbitrary: dst) simp_all

lemma readRecord_encode [codec]:
  assumes "storable e"
  shows "readRecord (encodeRecord e @ rest) = Some (e, rest)"
proof -
  let ?p = "recordPayload e" and ?n = "recFixedLen + length (eCommand e)"
  have n: "?n \<le> maxRecPayload" "?n < 256 ^ 4"
    using assms by (simp_all add: storable_def maxRecPayload_def)
  have eq: "encodeRecord e @ rest = le 4 ?n @ le 4 (crc32c ?p) @ ?p @ rest"
    by (simp add: encodeRecord_def Let_def)
  have "unle (take 4 (encodeRecord e @ rest)) = ?n"
    using n(2) by (simp add: eq)
  moreover have "unle (take 4 (drop 4 (encodeRecord e @ rest))) = crc32c ?p"
    using crc32c_less [of ?p] by (simp add: eq)
  moreover have "drop recHdrLen (encodeRecord e @ rest) = ?p @ rest"
    by (simp add: eq recHdrLen_def)
  ultimately show ?thesis
    using n(1) decode_recordPayload [OF assms]
    by (simp add: readRecord_def Let_def)
qed

text \<open>A record cut short is not read: this is the torn tail of a crash mid-append.\<close>

lemma readRecord_torn:
  assumes "storable e" and "strict_prefix t (encodeRecord e)"
  shows "readRecord t = None"
proof (cases "length t < recHdrLen")
  case True
  then show ?thesis by (simp add: readRecord_def)
next
  case False
  obtain u where u: "encodeRecord e = t @ u" "u \<noteq> []"
    using assms(2) by (auto simp: strict_prefix_def prefix_def)
  let ?n = "recFixedLen + length (eCommand e)"
  have n: "?n < 256 ^ 4"
    using assms(1) by (simp add: storable_def maxRecPayload_def)
  have "take 4 t = take 4 (encodeRecord e)"
    using False u by (simp add: recHdrLen_def)
  then have "unle (take 4 t) = ?n"
    using n by (simp add: encodeRecord_def Let_def)
  moreover have "length (drop recHdrLen t) < ?n"
  proof -
    have "length t < length (encodeRecord e)"
      using u by simp
    then show ?thesis
      using False by simp
  qed
  ultimately show ?thesis
    using False by (simp add: readRecord_def Let_def)
qed

lemma replayLoop_encode:
  assumes "\<forall>e \<in> set rs. storable e"
  shows "replayLoop (concat (map encodeRecord rs) @ rest) entries good gapFrom =
    (case foldl replayRecord (entries, gapFrom) rs of (entries', gapFrom') \<Rightarrow>
       replayLoop rest entries' (good + length (concat (map encodeRecord rs))) gapFrom')"
  using assms
proof (induction rs arbitrary: entries good gapFrom)
  case Nil
  then show ?case by simp
next
  case (Cons r rs)
  obtain es g where acc: "replayRecord (entries, gapFrom) r = (es, g)"
    by fastforce
  have "readRecord (encodeRecord r @ (concat (map encodeRecord rs) @ rest))
      = Some (r, concat (map encodeRecord rs) @ rest)"
    using Cons.prems by (intro readRecord_encode) simp
  then have "replayLoop (concat (map encodeRecord (r # rs)) @ rest) entries good gapFrom
      = replayLoop (concat (map encodeRecord rs) @ rest) es (good + length (encodeRecord r)) g"
    by (subst replayLoop.simps) (simp add: acc)
  also have "\<dots> = (case foldl replayRecord (es, g) rs of (entries', gapFrom') \<Rightarrow>
       replayLoop rest entries'
         (good + length (encodeRecord r) + length (concat (map encodeRecord rs))) gapFrom')"
    using Cons.prems by (intro Cons.IH) simp
  finally show ?case
    by (simp add: acc add.assoc)
qed

lemma replayLoop_stop:
  "readRecord bs = None \<Longrightarrow> replayLoop bs entries good gapFrom = (entries, good, gapFrom)"
  by (subst replayLoop.simps) simp

lemma readRecord_Nil [simp]: "readRecord [] = None"
  by (simp add: readRecord_def recHdrLen_def)

lemma replayBytes_header:
  "replayBytes (raftLogHeader @ bs) = Inr (replayLoop bs [] raftLogHdrLen 0)"
  by (simp add: replayBytes_def raftLogHeader_def raft_storage_consts)

text \<open>
  The records in a file, folded: what the in-memory log is after a restart. A complete
  record stream followed by a torn record replays to exactly the complete records.
\<close>

definition replayed :: "LogEntry list \<Rightarrow> LogEntry list" where
  "replayed rs = fst (foldl replayRecord ([], 0) rs)"

lemma replayBytes_records:
  assumes "\<forall>r \<in> set rs. storable r" and "readRecord t = None"
  shows "replayBytes (encodeRecords raftLogHeader rs @ t) =
    Inr (replayed rs, length (encodeRecords raftLogHeader rs),
         snd (foldl replayRecord ([], 0) rs))"
proof -
  obtain es g where acc: "foldl replayRecord ([], 0) rs = (es, g)"
    by fastforce
  have "replayBytes (encodeRecords raftLogHeader rs @ t)
      = Inr (replayLoop (concat (map encodeRecord rs) @ t) [] raftLogHdrLen 0)"
    by (simp add: encodeRecords_eq replayBytes_header)
  also have "\<dots> = Inr (replayLoop t es (raftLogHdrLen + length (concat (map encodeRecord rs))) g)"
    using assms(1) by (simp add: replayLoop_encode acc)
  finally show ?thesis
    using assms(2) by (simp add: replayLoop_stop replayed_def acc encodeRecords_eq)
qed

section \<open>Overwriting a suffix\<close>

text \<open>
  The abstract effect of appending a contiguous batch to a log that is a function of the
  index: everything from the batch's first index on is replaced by the batch.
\<close>

definition overwrite :: "LogEntry list \<Rightarrow> LogEntry list \<Rightarrow> LogEntry list" where
  "overwrite log es =
     (if es = [] then log
      else if log = [] then es
      else take (eIndex (hd es) - eIndex (hd log)) log @ es)"

lemma replayRecord_contig:
  assumes "contig f log" and "log \<noteq> []" and "f \<le> eIndex e" and "eIndex e \<le> f + length log"
  shows "replayRecord (log, g) e = (take (eIndex e - f) log @ [e], g)"
  using assms contig_hd [of f log] contig_last [of f log]
  by (auto simp: replayRecord_def Let_def)

lemma foldl_replay_extend:
  "contig f log \<Longrightarrow> log \<noteq> [] \<Longrightarrow> contig (f + length log) es \<Longrightarrow>
   foldl replayRecord (log, g) es = (log @ es, g)"
proof (induction es arbitrary: log)
  case Nil
  then show ?case by simp
next
  case (Cons e es)
  have "replayRecord (log, g) e = (log @ [e], g)"
    using Cons.prems by (subst replayRecord_contig [of f]) simp_all
  moreover have "foldl replayRecord (log @ [e], g) es = ((log @ [e]) @ es, g)"
    using Cons.prems by (intro Cons.IH) simp_all
  ultimately show ?case by simp
qed

lemma foldl_replay_overwrite:
  assumes "contig f log" and "log \<noteq> []" and "contig i es" and "f \<le> i" and "i \<le> f + length log"
  shows "foldl replayRecord (log, g) es = (overwrite log es, g)"
proof (cases es)
  case Nil
  then show ?thesis by (simp add: overwrite_def)
next
  case (Cons e es')
  have i: "eIndex e = i" and es': "contig (Suc i) es'"
    using assms(3) Cons by simp_all
  have step: "replayRecord (log, g) e = (take (i - f) log @ [e], g)"
    using assms i by (simp add: replayRecord_contig)
  have len: "length (take (i - f) log) = i - f"
    using assms(4,5) by simp
  have "contig f (take (i - f) log @ [e])"
    using assms i len by (simp add: contig_take)
  moreover have "contig (f + length (take (i - f) log @ [e])) es'"
    using assms es' len by simp
  ultimately have "foldl replayRecord (take (i - f) log @ [e], g) es'
      = ((take (i - f) log @ [e]) @ es', g)"
    by (intro foldl_replay_extend) simp_all
  then show ?thesis
    using Cons step i assms contig_hd [OF assms(1,2)] by (simp add: overwrite_def)
qed

section \<open>The term/vote file\<close>

definition metaBody :: "raftMeta \<Rightarrow> bytes" where
  "metaBody m = raftMetaMagic @ le 4 raftMetaVersion @ le 8 (mTerm m) @
     le 2 (length (mVote m)) @ bytes_of_string (mVote m)"

definition encodeMeta :: "raftMeta \<Rightarrow> bytes" where
  "encodeMeta m = metaBody m @ le 4 (crc32c (metaBody m))"

text \<open>\<open>readMeta\<close> on the contents of \<open>raft_meta.dat\<close>; \<open>None\<close> is a missing file.\<close>

definition readMeta :: "bytes option \<Rightarrow> raft_err + raftMeta option" where
  "readMeta file = (case file of None \<Rightarrow> Inr None | Some b \<Rightarrow>
     if length b < 22 \<or> take 4 b \<noteq> raftMetaMagic then Inl (ErrCorrupt ''bad header'')
     else let body = take (length b - 4) b; sum = unle (drop (length b - 4) b)
       in if crc32c body \<noteq> sum then Inl (ErrCorrupt ''checksum mismatch'')
          else if unle (take 4 (drop 4 b)) \<noteq> raftMetaVersion
            then Inl (ErrCorrupt ''unsupported version'')
          else let vl = unle (take 2 (drop 16 b))
            in if 18 + vl \<noteq> length body then Inl (ErrCorrupt ''bad votedFor length'')
               else Inr (Some \<lparr>mTerm = unle (take 8 (drop 8 b)),
                               mVote = string_of_bytes (take vl (drop 18 b))\<rparr>))"

definition storableMeta :: "raftMeta \<Rightarrow> bool" where
  "storableMeta m \<longleftrightarrow> mTerm m < 2 ^ 64 \<and> length (mVote m) \<le> 65535"

lemma length_metaBody [simp, codec]: "length (metaBody m) = 18 + length (mVote m)"
  by (simp add: metaBody_def)

lemma readMeta_encodeMeta [codec]:
  assumes "storableMeta m"
  shows "readMeta (Some (encodeMeta m)) = Inr (Some m)"
proof -
  have t: "mTerm m < 256 ^ 8" and v: "length (mVote m) < 256 ^ 2"
    using assms by (simp_all add: storableMeta_def)
  have body: "take (length (encodeMeta m) - 4) (encodeMeta m) = metaBody m"
    and crc: "unle (drop (length (encodeMeta m) - 4) (encodeMeta m)) = crc32c (metaBody m)"
    using crc32c_less [of "metaBody m"] by (simp_all add: encodeMeta_def)
  have fields: "take 4 (encodeMeta m) = raftMetaMagic"
    "unle (take 4 (drop 4 (encodeMeta m))) = raftMetaVersion"
    "unle (take 8 (drop 8 (encodeMeta m))) = mTerm m"
    "unle (take 2 (drop 16 (encodeMeta m))) = length (mVote m)"
    "take (length (mVote m)) (drop 18 (encodeMeta m)) = bytes_of_string (mVote m)"
    using t v by (simp_all add: encodeMeta_def metaBody_def raftMetaVersion_def)
  have "length (encodeMeta m) = 22 + length (mVote m)"
    by (simp add: encodeMeta_def)
  then show ?thesis
    using body crc fields by (simp add: readMeta_def Let_def)
qed

section \<open>The store\<close>

text \<open>
  Outcome of \<open>atomicWrite\<close> (temp file, write, fsync, rename, directory fsync): it succeeded,
  it failed with the old file still in place, or the rename happened and only the directory
  fsync failed (an error is returned although the path already names the new file).
\<close>

datatype atomic_outcome = AtomicOk | AtomicFail | AtomicDirSyncFail

text \<open>Outcome of the one \<open>write(2)\<close> of a flush: on an error \<open>n\<close> bytes landed and the
  truncation back to the good size either worked or not.\<close>

datatype write_outcome = WriteOk | WriteErr nat bool

record logStore =
  sHandle :: bytes
  sSynced :: nat
  sDetached :: "bytes option"
  sMetaFile :: "bytes option"
  sMetaMay :: "bytes option list"
  sSize :: nat
  sGen :: nat
  sFailed :: "raft_err option"
  sClosed :: bool
  sDirty :: bool
  sMeta :: raftMeta
  sHasMeta :: bool
  sPend :: bytes
  sQFailed :: "raft_err option"
  sQClosed :: bool

definition enqueue :: "LogEntry list \<Rightarrow> logStore \<Rightarrow> raft_err option \<times> logStore" where
  "enqueue entries s =
     (if entries = [] then (None, s)
      else if sQClosed s then (Some ErrLogStoreClosed, s)
      else if sQFailed s \<noteq> None then (sQFailed s, s)
      else (None, s\<lparr>sPend := encodeRecords (sPend s) entries\<rparr>))"

definition setFailedLocked :: "raft_err \<Rightarrow> logStore \<Rightarrow> logStore" where
  "setFailedLocked err s = s\<lparr>sFailed := Some err, sQFailed := Some err, sPend := []\<rparr>"

text \<open>
  \<open>flush\<close> runs its fsync outside the store's lock, so it is two steps: \<open>flushWrite\<close> up to the
  unlock, then \<open>flushSync\<close> with the generation captured before it.
\<close>

datatype flush_step = FlushDone "raft_err option" | FlushSync nat

definition flushWrite :: "write_outcome \<Rightarrow> logStore \<Rightarrow> flush_step \<times> logStore" where
  "flushWrite wr s =
     (if sClosed s then (FlushDone (Some ErrLogStoreClosed), s)
      else if sFailed s \<noteq> None then (FlushDone (sFailed s), s)
      else let buf = sPend s; s1 = s\<lparr>sPend := []\<rparr>
        in case (buf \<noteq> [], wr) of
             (True, WriteErr n truncOk) \<Rightarrow>
               if truncOk
               then (FlushDone (Some ErrWrite),
                     setFailedLocked ErrWrite
                       (s1\<lparr>sHandle := take (sSize s) (sHandle s @ take n buf)\<rparr>))
               else (FlushDone (Some ErrWriteRollback),
                     setFailedLocked ErrWriteRollback
                       (s1\<lparr>sHandle := sHandle s @ take n buf\<rparr>))
           | _ \<Rightarrow>
               let s2 = (if buf \<noteq> []
                         then s1\<lparr>sHandle := sHandle s @ buf, sSize := sSize s + length buf,
                                 sDirty := True\<rparr>
                         else s1);
                   s3 = s2\<lparr>sDirty := False\<rparr>
               in if sDirty s2 then (FlushSync (sGen s), s3) else (FlushDone None, s3))"

definition flushSync :: "bool \<Rightarrow> nat \<Rightarrow> logStore \<Rightarrow> raft_err option \<times> logStore" where
  "flushSync ok gen s =
     (if ok then (None, if sGen s = gen then s\<lparr>sSynced := length (sHandle s)\<rparr> else s)
      else if sGen s \<noteq> gen then (None, s)
      else (Some ErrFsync, setFailedLocked ErrFsync s))"

definition flush :: "write_outcome \<Rightarrow> bool \<Rightarrow> logStore \<Rightarrow> raft_err option \<times> logStore" where
  "flush wr ok s = (case flushWrite wr s of
     (FlushDone r, s') \<Rightarrow> (r, s')
   | (FlushSync gen, s') \<Rightarrow> flushSync ok gen s')"

definition logFileBytes :: "LogEntry list \<Rightarrow> bytes" where
  "logFileBytes entries = encodeRecords raftLogHeader entries"

definition rewriteFile ::
  "atomic_outcome \<Rightarrow> LogEntry list \<Rightarrow> logStore \<Rightarrow> raft_err option \<times> logStore" where
  "rewriteFile out entries s = (case out of
     AtomicOk \<Rightarrow> (None, s\<lparr>sDetached := Some (logFileBytes entries)\<rparr>)
   | AtomicFail \<Rightarrow> (Some ErrRewrite, s)
   | AtomicDirSyncFail \<Rightarrow> (Some ErrRewrite, s\<lparr>sDetached := Some (logFileBytes entries)\<rparr>))"

definition rewrite ::
  "atomic_outcome \<Rightarrow> bool \<Rightarrow> LogEntry list \<Rightarrow> logStore \<Rightarrow> raft_err option \<times> logStore" where
  "rewrite out reopenOk entries s =
     (if sClosed s then (Some ErrLogStoreClosed, s)
      else case rewriteFile out entries s of
        (Some err, s1) \<Rightarrow> (Some err, s1)
      | (None, s1) \<Rightarrow>
          if \<not> reopenOk then (Some ErrReopen, setFailedLocked ErrReopen s1)
          else let b = logFileBytes entries in
            (None, s1\<lparr>sHandle := b, sSynced := length b, sDetached := None, sSize := length b,
                      sGen := sGen s + 1, sDirty := False, sFailed := None, sQFailed := None,
                      sPend := []\<rparr>))"

definition writeMeta :: "atomic_outcome \<Rightarrow> raftMeta \<Rightarrow> logStore \<Rightarrow> raft_err option \<times> logStore" where
  "writeMeta out m s =
     (if length (mVote m) > 65535 then (Some ErrVoteTooLong, s)
      else case out of
        AtomicOk \<Rightarrow> (None, s\<lparr>sMetaFile := Some (encodeMeta m), sMetaMay := []\<rparr>)
      | AtomicFail \<Rightarrow> (Some ErrMetaWrite, s)
      | AtomicDirSyncFail \<Rightarrow> (Some ErrMetaWrite,
          s\<lparr>sMetaFile := Some (encodeMeta m), sMetaMay := sMetaFile s # sMetaMay s\<rparr>))"

definition saveMeta :: "atomic_outcome \<Rightarrow> raftMeta \<Rightarrow> logStore \<Rightarrow> raft_err option \<times> logStore" where
  "saveMeta out m s =
     (if sClosed s then (Some ErrLogStoreClosed, s)
      else if sHasMeta s \<and> sMeta s = m then (None, s)
      else case writeMeta out m s of
        (Some err, s1) \<Rightarrow> (Some err, s1)
      | (None, s1) \<Rightarrow> (None, s1\<lparr>sMeta := m, sHasMeta := True\<rparr>))"

definition closeStore :: "logStore \<Rightarrow> logStore" where
  "closeStore s = (if sClosed s then s else s\<lparr>sClosed := True, sQClosed := True, sPend := []\<rparr>)"

section \<open>What survives a crash\<close>

text \<open>
  \<open>parseRecords\<close> is the list of records replay reads from a byte stream. \<open>writtenRecords\<close> are
  the records written or queued so far, in order; \<open>syncedRecords\<close> those covered by the last
  successful fsync of the open file.
\<close>

function parseRecords :: "bytes \<Rightarrow> LogEntry list" where
  "parseRecords bs = (case readRecord bs of None \<Rightarrow> [] | Some (e, rest) \<Rightarrow> e # parseRecords rest)"
  by pat_completeness auto
termination
  by (relation "measure length") (auto dest: readRecord_shorter)

declare parseRecords.simps [simp del]

lemma parseRecords_encode [codec]:
  "\<forall>r \<in> set rs. storable r \<Longrightarrow>
   parseRecords (concat (map encodeRecord rs) @ t) = rs @ parseRecords t"
  by (induction rs) (simp_all add: parseRecords.simps readRecord_encode)

lemma parseRecords_stop: "readRecord t = None \<Longrightarrow> parseRecords t = []"
  by (simp add: parseRecords.simps)

definition writtenRecords :: "logStore \<Rightarrow> LogEntry list" where
  "writtenRecords s = parseRecords (drop raftLogHdrLen (sHandle s @ sPend s))"

definition syncedRecords :: "logStore \<Rightarrow> LogEntry list" where
  "syncedRecords s = parseRecords (drop raftLogHdrLen (take (sSynced s) (sHandle s)))"

text \<open>
  The store's invariant while it has not failed: the open file is a header and complete
  records, the fsynced part ends at a record boundary, the queue holds complete records, the
  path names the open file.
\<close>

definition storeRep ::
  "logStore \<Rightarrow> LogEntry list \<Rightarrow> LogEntry list \<Rightarrow> LogEntry list \<Rightarrow> bool" where
  "storeRep s D W Q \<longleftrightarrow> (\<forall>r \<in> set (D @ W @ Q). storable r) \<and>
     sHandle s = logFileBytes (D @ W) \<and> sSynced s = length (logFileBytes D) \<and>
     sSize s = length (sHandle s) \<and> sPend s = concat (map encodeRecord Q) \<and>
     (W \<noteq> [] \<longrightarrow> sDirty s) \<and> sDetached s = None \<and>
     sFailed s = None \<and> sQFailed s = None \<and> \<not> sClosed s \<and> \<not> sQClosed s"

definition storeOk :: "logStore \<Rightarrow> bool" where
  "storeOk s \<longleftrightarrow> (\<exists>D W Q. storeRep s D W Q)"

lemma logFileBytes_eq: "logFileBytes rs = raftLogHeader @ concat (map encodeRecord rs)"
  by (simp add: logFileBytes_def encodeRecords_eq)

lemma logFileBytes_append:
  "logFileBytes (xs @ ys) = logFileBytes xs @ concat (map encodeRecord ys)"
  by (simp add: logFileBytes_eq)

lemma drop_header [simp]: "drop raftLogHdrLen (raftLogHeader @ bs) = bs"
  by simp

lemma writtenRecords_rep: "storeRep s D W Q \<Longrightarrow> writtenRecords s = D @ W @ Q"
  using parseRecords_encode [of "D @ W @ Q" "[]"]
  by (simp add: writtenRecords_def storeRep_def logFileBytes_eq parseRecords_stop)

lemma syncedRecords_rep: "storeRep s D W Q \<Longrightarrow> syncedRecords s = D"
  using parseRecords_encode [of D "[]"]
  by (simp add: syncedRecords_def storeRep_def logFileBytes_eq parseRecords_stop)

lemma enqueue_rep:
  assumes "storeRep s D W Q" and "\<forall>e \<in> set es. storable e" and "enqueue es s = (r, s')"
  shows "r = None \<and> storeRep s' D W (Q @ es)"
  using assms by (auto simp: enqueue_def storeRep_def encodeRecords_eq split: if_splits)

lemma flush_queue:
  assumes "sPend s \<noteq> []" "\<not> sClosed s" "sFailed s = None" "flush wr ok s = (None, s')"
  shows "s' = s\<lparr>sPend := [], sHandle := sHandle s @ sPend s,
      sSize := sSize s + length (sPend s), sDirty := False,
      sSynced := length (sHandle s @ sPend s)\<rparr>"
  using assms
  by (cases wr; cases ok)
     (simp_all add: flush_def flushWrite_def flushSync_def Let_def split: if_splits)

lemma flush_no_queue:
  assumes "sPend s = []" "\<not> sClosed s" "sFailed s = None" "flush wr ok s = (None, s')"
  shows "s' = (if sDirty s then s\<lparr>sDirty := False, sSynced := length (sHandle s)\<rparr> else s)"
proof (cases "sDirty s")
  case True
  then show ?thesis
    using assms
    by (cases s; cases ok) (auto simp: flush_def flushWrite_def flushSync_def Let_def)
next
  case False
  then show ?thesis
    using assms by (cases s) (auto simp: flush_def flushWrite_def Let_def)
qed

lemma flush_rep:
  assumes rep: "storeRep s D W Q" and fl: "flush wr ok s = (None, s')"
  shows "storeRep s' (D @ W @ Q) [] []"
proof (cases "Q = []")
  case True
  then have "s' = (if sDirty s then s\<lparr>sDirty := False, sSynced := length (sHandle s)\<rparr> else s)"
    using rep fl by (intro flush_no_queue) (simp_all add: storeRep_def)
  with rep True show ?thesis
    by (cases "sDirty s") (simp_all add: storeRep_def)
next
  case False
  then have "concat (map encodeRecord Q) \<noteq> []"
    by (cases Q) simp_all
  then have "s' = s\<lparr>sPend := [], sHandle := sHandle s @ sPend s,
      sSize := sSize s + length (sPend s), sDirty := False,
      sSynced := length (sHandle s @ sPend s)\<rparr>"
    using rep fl by (intro flush_queue) (simp_all add: storeRep_def)
  with rep show ?thesis
    by (simp add: storeRep_def logFileBytes_eq)
qed

lemma rewrite_rep:
  assumes "\<not> sClosed s" "\<not> sQClosed s" "\<forall>e \<in> set es. storable e"
    and "rewrite out reopenOk es s = (None, s')"
  shows "storeRep s' es [] []"
  using assms
  by (auto simp: rewrite_def rewriteFile_def storeRep_def Let_def
      split: atomic_outcome.splits if_splits)

text \<open>A prefix of a record stream is some whole records and at most one torn record.\<close>

lemma take_records:
  assumes "\<forall>r \<in> set rs. storable r"
  shows "\<exists>j t. take k (concat (map encodeRecord rs)) =
      concat (map encodeRecord (take j rs)) @ t \<and> readRecord t = None"
  using assms
proof (induction rs arbitrary: k)
  case Nil
  then show ?case by (auto intro: exI [of _ "[]"])
next
  case (Cons r rs)
  show ?case
  proof (cases "k < length (encodeRecord r)")
    case True
    then have "take k (concat (map encodeRecord (r # rs))) = take k (encodeRecord r)"
      by simp
    moreover have "strict_prefix (take k (encodeRecord r)) (encodeRecord r)"
      using True by (auto simp: strict_prefix_def take_is_prefix dest: arg_cong [of _ _ length])
    then have "readRecord (take k (encodeRecord r)) = None"
      using Cons.prems by (intro readRecord_torn) simp_all
    ultimately show ?thesis
      by (intro exI [of _ 0] exI [of _ "take k (encodeRecord r)"]) simp
  next
    case False
    obtain j t where jt: "take (k - length (encodeRecord r)) (concat (map encodeRecord rs)) =
        concat (map encodeRecord (take j rs)) @ t" "readRecord t = None"
      using Cons.IH [of "k - length (encodeRecord r)"] Cons.prems by auto
    then show ?thesis
      using False by (intro exI [of _ "Suc j"] exI [of _ t]) simp
  qed
qed

text \<open>
  A crash of the machine keeps the fsynced bytes and any part of the bytes written after
  them; where the path names another file than the open one, it finds that file or (\<open>old\<close>,
  the rename itself was lost) the open one. Whatever the cut, replay recovers the fsynced
  records and some of the later ones, in order.
\<close>

definition crashFile :: "bool \<Rightarrow> nat \<Rightarrow> logStore \<Rightarrow> bytes" where
  "crashFile old k s = (case sDetached s of
     Some b \<Rightarrow> if old then take (sSynced s + k) (sHandle s) else b
   | None \<Rightarrow> take (sSynced s + k) (sHandle s))"

lemma crash_rep:
  assumes "storeRep s D W Q"
  shows "\<exists>j good gap. replayBytes (crashFile old k s) = Inr (replayed (D @ take j W), good, gap)"
proof -
  have st: "\<forall>r \<in> set (D @ W). storable r"
    using assms by (auto simp: storeRep_def)
  obtain j t where jt: "take k (concat (map encodeRecord W)) =
      concat (map encodeRecord (take j W)) @ t" "readRecord t = None"
    using take_records [of W k] st by auto
  have "crashFile old k s = logFileBytes D @ take k (concat (map encodeRecord W))"
    using assms by (simp add: crashFile_def storeRep_def logFileBytes_append)
  also have "\<dots> = encodeRecords raftLogHeader (D @ take j W) @ t"
    using jt(1) by (simp add: logFileBytes_eq encodeRecords_eq)
  finally have eq: "crashFile old k s = encodeRecords raftLogHeader (D @ take j W) @ t" .
  have "\<forall>r \<in> set (D @ take j W). storable r"
    using st set_take_subset [of j W] by auto
  then show ?thesis
    using replayBytes_records [OF _ jt(2), of "D @ take j W"] eq by auto
qed

section \<open>The durable-log interface\<close>

text \<open>
  What the Raft node relies on: records are queued in order, a successful flush makes
  everything queued before it durable, and after a crash the log is the replay of a record
  sequence between the synced and the written one.
\<close>

locale durable_log =
  fixes ok :: "'s \<Rightarrow> bool"
    and fits :: "LogEntry \<Rightarrow> bool"
    and enq :: "LogEntry list \<Rightarrow> 's \<Rightarrow> raft_err option \<times> 's"
    and fl :: "'w \<Rightarrow> 's \<Rightarrow> raft_err option \<times> 's"
    and written :: "'s \<Rightarrow> LogEntry list"
    and synced :: "'s \<Rightarrow> LogEntry list"
    and recovers :: "'s \<Rightarrow> LogEntry list \<Rightarrow> bool"
  assumes enq_ok: "\<lbrakk>ok s; \<forall>e \<in> set es. fits e; enq es s = (r, s')\<rbrakk> \<Longrightarrow>
      r = None \<and> ok s' \<and> written s' = written s @ es \<and> synced s' = synced s"
    and fl_ok: "\<lbrakk>ok s; fl w s = (None, s')\<rbrakk> \<Longrightarrow>
      ok s' \<and> written s' = written s \<and> synced s' = written s"
    and crash_ok: "\<lbrakk>ok s; recovers s log\<rbrakk> \<Longrightarrow>
      \<exists>rs. prefix (synced s) rs \<and> prefix rs (written s) \<and> log = replayed rs"
begin

text \<open>After a successful flush a crash recovers exactly what was flushed.\<close>

lemma flushed_exact:
  assumes "ok s" "\<forall>e \<in> set es. fits e" "enq es s = (r, s1)" "fl w s1 = (None, s2)"
    and "recovers s2 log"
  shows "log = replayed (written s @ es)"
proof -
  have s1: "ok s1" "written s1 = written s @ es"
    using enq_ok assms(1-3) by blast+
  then have "ok s2" "written s2 = written s @ es" "synced s2 = written s @ es"
    using fl_ok assms(4) by fastforce+
  then obtain rs where "prefix (written s @ es) rs" "prefix rs (written s @ es)"
      "log = replayed rs"
    using crash_ok assms(5) by fastforce
  then show ?thesis
    using prefix_order.antisym by blast
qed

end

text \<open>The log a restart after a crash replays, for some cut of the unsynced bytes.\<close>

definition crashRecovers :: "logStore \<Rightarrow> LogEntry list \<Rightarrow> bool" where
  "crashRecovers s log \<longleftrightarrow> (\<exists>old k good gap. replayBytes (crashFile old k s) = Inr (log, good, gap))"

interpretation raft_store: durable_log storeOk storable enqueue "\<lambda>(wr, ok). flush wr ok"
  writtenRecords syncedRecords crashRecovers
proof
  fix s es r s'
  assume "storeOk s" "\<forall>e \<in> set es. storable e" "enqueue es s = (r, s')"
  moreover from this obtain D W Q where "storeRep s D W Q"
    unfolding storeOk_def by blast
  ultimately have rep: "storeRep s D W Q" "storeRep s' D W (Q @ es)" "r = None"
    using enqueue_rep by blast+
  then show "r = None \<and> storeOk s' \<and> writtenRecords s' = writtenRecords s @ es \<and>
      syncedRecords s' = syncedRecords s"
    by (auto simp: storeOk_def writtenRecords_rep syncedRecords_rep)
next
  fix s w s'
  assume "storeOk s" and fl: "(case w of (wr, ok) \<Rightarrow> flush wr ok) s = (None, s')"
  obtain wr ok where "w = (wr, ok)" by fastforce
  with fl obtain D W Q where rep: "storeRep s D W Q" "storeRep s' (D @ W @ Q) [] []"
    using \<open>storeOk s\<close> flush_rep by (fastforce simp: storeOk_def)
  then show "storeOk s' \<and> writtenRecords s' = writtenRecords s \<and>
      syncedRecords s' = writtenRecords s"
    using writtenRecords_rep [OF rep(2)] syncedRecords_rep [OF rep(2)]
    by (auto simp: storeOk_def writtenRecords_rep)
next
  fix s log
  assume "storeOk s" "crashRecovers s log"
  then obtain D W Q old k where rep: "storeRep s D W Q"
      and rec: "\<exists>good gap. replayBytes (crashFile old k s) = Inr (log, good, gap)"
    unfolding storeOk_def crashRecovers_def by blast
  obtain j where "log = replayed (D @ take j W)"
    using crash_rep [OF rep, of old k] rec by auto
  then show "\<exists>rs. prefix (syncedRecords s) rs \<and> prefix rs (writtenRecords s) \<and> log = replayed rs"
    using rep
    by (intro exI [of _ "D @ take j W"])
       (auto simp: writtenRecords_rep syncedRecords_rep take_is_prefix intro: prefix_prefix)
qed

section \<open>Properties of the store\<close>

lemma replayed_append: "replayed (rs @ es) = fst (foldl replayRecord (foldl replayRecord ([], 0) rs) es)"
  by (simp add: replayed_def)

lemma replayed_overwrite:
  assumes "replayed rs = log" "log \<noteq> []" "contig f log" "contig i es" "f \<le> i" "i \<le> f + length log"
  shows "replayed (rs @ es) = overwrite log es"
proof -
  obtain g where "foldl replayRecord ([], 0) rs = (log, g)"
    using assms(1) by (metis prod.collapse replayed_def)
  then show ?thesis
    using foldl_replay_overwrite [OF assms(3,2,4-6)] by (simp add: replayed_append)
qed

lemma replayed_contig: "contig f es \<Longrightarrow> replayed es = es"
proof (cases es)
  case (Cons e es')
  assume "contig f es"
  with Cons have "foldl replayRecord ([e], 0) es' = ([e] @ es', 0)"
    by (intro foldl_replay_extend [of f]) simp_all
  with Cons show ?thesis by (simp add: replayed_def replayRecord_def)
qed (simp add: replayed_def)

lemma crashRecovers_exact:
  assumes "storeRep s D [] Q"
  shows "crashRecovers s log \<longleftrightarrow> log = replayed D"
proof -
  have "\<exists>good gap. replayBytes (crashFile old k s) = Inr (replayed D, good, gap)" for old k
    using crash_rep [OF assms] by simp
  then show ?thesis
    unfolding crashRecovers_def by (metis Pair_inject sum.inject(2))
qed

text \<open>The store of a fresh directory, used to show that the hypotheses below can hold.\<close>

definition freshStore :: logStore where
  "freshStore =
     \<lparr>sHandle = logFileBytes [], sSynced = raftLogHdrLen, sDetached = None,
      sMetaFile = Some (encodeMeta \<lparr>mTerm = 0, mVote = []\<rparr>), sMetaMay = [],
      sSize = raftLogHdrLen, sGen = 0, sFailed = None, sClosed = False, sDirty = False,
      sMeta = \<lparr>mTerm = 0, mVote = []\<rparr>, sHasMeta = True, sPend = [], sQFailed = None,
      sQClosed = False\<rparr>"

definition exampleEntry :: "nat \<Rightarrow> nat \<Rightarrow> LogEntry" where
  "exampleEntry t i = \<lparr>eTerm = t, eIndex = i, eType = EntryNormal, eCommand = [7]\<rparr>"

lemma storable_exampleEntry [simp]: "t < 2 ^ 64 \<Longrightarrow> i < 2 ^ 64 \<Longrightarrow> storable (exampleEntry t i)"
  by (simp add: storable_def exampleEntry_def recFixedLen_def maxRecPayload_def)

lemma freshStore_rep: "storeRep freshStore [] [] []"
  by (simp add: storeRep_def freshStore_def logFileBytes_eq)

text \<open>
  A store with the given synced log: the fresh store after one rewrite.
\<close>

definition syncedStore :: "LogEntry list \<Rightarrow> logStore" where
  "syncedStore es = snd (rewrite AtomicOk True es freshStore)"

lemma syncedStore_rep: "\<forall>e \<in> set es. storable e \<Longrightarrow> storeRep (syncedStore es) es [] []"
  by (rule rewrite_rep [of freshStore es AtomicOk True])
     (simp_all add: syncedStore_def rewrite_def rewriteFile_def freshStore_def Let_def)

lemma syncedStore_ok: "\<forall>e \<in> set es. storable e \<Longrightarrow> storeOk (syncedStore es)"
  using syncedStore_rep storeOk_def by blast

lemma flush_good:
  assumes "\<not> sClosed s" "sFailed s = None"
  shows "\<exists>s'. flush WriteOk True s = (None, s') \<and> sDetached s' = sDetached s"
  using assms
  by (cases "sPend s = []"; cases "sDirty s")
     (simp_all add: flush_def flushWrite_def flushSync_def Let_def)

lemma flush_good_rep: "storeRep s D W Q \<Longrightarrow> \<exists>s'. flush WriteOk True s = (None, s')"
  using flush_good by (auto simp: storeRep_def)

text \<open>
  C18: replaying a log file that ends in a partly written record recovers
  exactly the complete records before it, and reports the offset at which the file is to be
  cut.
\<close>

theorem replay_torn_tail:
  assumes "\<forall>r \<in> set rs. storable r" and "storable e" and "strict_prefix t (encodeRecord e)"
  shows "\<exists>gap. replayBytes (encodeRecords raftLogHeader rs @ t) =
    Inr (replayed rs, length (encodeRecords raftLogHeader rs), gap)"
  using replayBytes_records [OF assms(1) readRecord_torn [OF assms(2,3)]] by blast

theorem replay_torn_tail_witness:
  "\<exists>gap. replayBytes (encodeRecords raftLogHeader [exampleEntry 1 1] @
      take 9 (encodeRecord (exampleEntry 1 2))) =
    Inr (replayed [exampleEntry 1 1], length (encodeRecords raftLogHeader [exampleEntry 1 1]), gap)"
proof (rule replay_torn_tail)
  show "strict_prefix (take 9 (encodeRecord (exampleEntry 1 2))) (encodeRecord (exampleEntry 1 2))"
    by (auto simp: strict_prefix_def take_is_prefix recHdrLen_def recFixedLen_def
        dest: arg_cong [of _ _ length])
qed simp_all

text \<open>
  C16: let the log a restart would find be a contiguous run. Appending a
  contiguous batch that starts inside the run or right after it, and flushing with success,
  makes the log after any crash of the machine exactly the old log with everything from the
  batch's first index on replaced by the batch.
\<close>

theorem append_flush_crash:
  assumes "storeOk s" and "\<forall>e \<in> set es. storable e"
    and "replayed (writtenRecords s) = log" "log \<noteq> []" "contig f log"
    and "contig i es" "f \<le> i" "i \<le> f + length log"
    and "enqueue es s = (r, s1)" and "flush wr ok s1 = (None, s2)" and "crashRecovers s2 found"
  shows "found = overwrite log es"
  using raft_store.flushed_exact [of s es r s1 "(wr, ok)" s2 found] replayed_overwrite [OF assms(3-8)]
    assms by simp

theorem append_flush_crash_witness:
  "\<exists>s1 s2 found. enqueue [exampleEntry 3 2] (syncedStore [exampleEntry 1 1, exampleEntry 1 2]) = (None, s1) \<and>
     flush WriteOk True s1 = (None, s2) \<and> crashRecovers s2 found \<and>
     found = [exampleEntry 1 1, exampleEntry 3 2]"
proof -
  let ?log = "[exampleEntry 1 1, exampleEntry 1 2]" and ?es = "[exampleEntry 3 2]"
  have rep: "storeRep (syncedStore ?log) ?log [] []"
    by (rule syncedStore_rep) simp
  obtain s1 where s1: "enqueue ?es (syncedStore ?log) = (None, s1)" "storeRep s1 ?log [] ?es"
    using enqueue_rep [OF rep, of ?es] by (cases "enqueue ?es (syncedStore ?log)") fastforce
  obtain s2 where s2: "flush WriteOk True s1 = (None, s2)"
    using flush_good_rep [OF s1(2)] by blast
  then have "storeRep s2 (?log @ ?es) [] []"
    using flush_rep [OF s1(2) s2] by simp
  then have found: "crashRecovers s2 (replayed (?log @ ?es))"
    by (simp add: crashRecovers_exact)
  have "contig 1 ?log" "contig 2 ?es"
    by (simp_all add: exampleEntry_def)
  then have "replayed (?log @ ?es) = overwrite ?log ?es"
    using append_flush_crash [of "syncedStore ?log" ?es ?log 1 2 None s1 WriteOk True s2]
      rep s1 s2 found writtenRecords_rep [OF rep] replayed_contig [of 1 ?log]
    by (fastforce simp: storeOk_def)
  then show ?thesis
    using s1 s2 found by (fastforce simp: overwrite_def exampleEntry_def)
qed

text \<open>
  C20: a successful rewrite makes the log after any crash exactly the entries
  it was given; one that failed before the rename leaves the store as it was.
\<close>

theorem rewrite_crash:
  assumes "\<not> sClosed s" "\<not> sQClosed s" "\<forall>e \<in> set es. storable e" "contig f es"
    and "rewrite out reopenOk es s = (r, s')"
  shows "(r = None \<longrightarrow> crashRecovers s' found \<longrightarrow> found = es) \<and>
         (out = AtomicFail \<longrightarrow> r = Some ErrRewrite \<and> s' = s)"
proof -
  have "r = None \<Longrightarrow> storeRep s' es [] []"
    using rewrite_rep assms by blast
  then have "r = None \<longrightarrow> crashRecovers s' found \<longrightarrow> found = es"
    using crashRecovers_exact replayed_contig [OF assms(4)] by metis
  then show ?thesis
    using assms(1,5) by (auto simp: rewrite_def rewriteFile_def)
qed

theorem rewrite_crash_witness:
  "\<exists>found. crashRecovers (syncedStore [exampleEntry 1 1]) found \<and> found = [exampleEntry 1 1]"
proof -
  let ?es = "[exampleEntry 1 1]"
  have r: "rewrite AtomicOk True ?es freshStore = (None, syncedStore ?es)"
    by (simp add: syncedStore_def rewrite_def rewriteFile_def freshStore_def Let_def)
  have "crashRecovers (syncedStore ?es) (replayed ?es)"
    using syncedStore_rep [of ?es] by (simp add: crashRecovers_exact)
  moreover from this have "replayed ?es = ?es"
    using rewrite_crash [OF _ _ _ _ r, of 1 "replayed ?es"]
    by (simp add: freshStore_def) (simp add: exampleEntry_def)
  ultimately show ?thesis by auto
qed

text \<open>
  C21: when the rename of a rewrite happened and only the fsync of the
  directory failed, the store reports an error but keeps appending to the file it had open,
  which no path names any more. Later appends and flushes succeed, yet after a crash the
  log can be the rewritten one without them.
\<close>

theorem rewrite_dirsync_loses:
  assumes "storeOk s" "\<forall>e \<in> set log. storable e" "\<forall>e \<in> set es. storable e" "contig f log"
  shows "\<exists>s1 s2 s3. rewrite AtomicDirSyncFail True log s = (Some ErrRewrite, s1) \<and>
    enqueue es s1 = (None, s2) \<and> flush WriteOk True s2 = (None, s3) \<and> crashRecovers s3 log"
proof -
  obtain D W Q where rep: "storeRep s D W Q"
    using assms(1) storeOk_def by blast
  define s1 where "s1 = s\<lparr>sDetached := Some (logFileBytes log)\<rparr>"
  have r: "rewrite AtomicDirSyncFail True log s = (Some ErrRewrite, s1)"
    using rep by (simp add: rewrite_def rewriteFile_def s1_def storeRep_def)
  define s2 where "s2 = s1\<lparr>sPend := encodeRecords (sPend s) es\<rparr>"
  have e: "enqueue es s1 = (None, s2)"
    using rep by (simp add: enqueue_def s1_def s2_def storeRep_def)
  obtain s3 where f: "flush WriteOk True s2 = (None, s3)" "sDetached s3 = Some (logFileBytes log)"
    using flush_good [of s2] rep by (auto simp: s1_def s2_def storeRep_def)
  have "replayBytes (logFileBytes log @ []) = Inr (replayed log, length (logFileBytes log),
      snd (foldl replayRecord ([], 0) log))"
    unfolding logFileBytes_def using assms(2) by (intro replayBytes_records) simp_all
  then have "crashRecovers s3 log"
    using f(2) replayed_contig [OF assms(4)]
    by (auto simp: crashRecovers_def crashFile_def intro!: exI [of _ False])
  with r e f show ?thesis by blast
qed

theorem rewrite_dirsync_loses_witness:
  "\<exists>s1 s2 s3. rewrite AtomicDirSyncFail True [] freshStore = (Some ErrRewrite, s1) \<and>
    enqueue [exampleEntry 1 1] s1 = (None, s2) \<and> flush WriteOk True s2 = (None, s3) \<and>
    crashRecovers s3 []"
  using freshStore_rep by (intro rewrite_dirsync_loses [where f = 1]) (auto simp: storeOk_def)

text \<open>
  C19: when \<open>saveMeta\<close> reports success for a pair that is not the cached one,
  every version of the meta file a crash can bring back decodes to that pair.
\<close>

theorem saveMeta_durable:
  assumes "storableMeta m" "\<not> (sHasMeta s \<and> sMeta s = m)" "saveMeta out m s = (None, s')"
    and "file \<in> set (sMetaFile s' # sMetaMay s')"
  shows "readMeta file = Inr (Some m)"
  using assms readMeta_encodeMeta [OF assms(1)]
  by (auto simp: saveMeta_def writeMeta_def split: if_splits atomic_outcome.splits)

theorem saveMeta_durable_witness:
  "\<exists>s'. saveMeta AtomicOk \<lparr>mTerm = 4, mVote = ''n2''\<rparr> freshStore = (None, s') \<and>
     readMeta (sMetaFile s') = Inr (Some \<lparr>mTerm = 4, mVote = ''n2''\<rparr>)"
proof -
  let ?m = "\<lparr>mTerm = 4, mVote = ''n2''\<rparr>"
  obtain s' where s': "saveMeta AtomicOk ?m freshStore = (None, s')"
    by (simp add: saveMeta_def writeMeta_def freshStore_def)
  moreover have "readMeta (sMetaFile s') = Inr (Some ?m)"
    by (rule saveMeta_durable [OF _ _ s']) (simp_all add: storableMeta_def freshStore_def)
  ultimately show ?thesis by blast
qed

end
