(* ===== verification/RaftNode.thy ===== *)
theory RaftNode
  imports RaftStorage
begin

text \<open>
  The state of one Raft server (\<open>RaftNode\<close> of \<open>src/consensus/raft.go\<close>), the log helpers, the
  derivation of the effective configuration (\<open>membership.go\<close>), the replicator table
  (\<open>pipeline.go\<close>) and the role changes.

  Each operation here runs with \<open>rn.mu\<close> held in the code, so each is one atomic function on
  the state. Effects that leave the node are recorded in the state in the order the code
  makes them: values sent to commit-waiter channels in \<open>notified\<close>, calls of the
  \<open>OnConfigChange\<close> callback in \<open>configEvents\<close>, calls of the state machine in \<open>smCalls\<close>.
  The outcomes of the next writes of \<open>raft_meta.dat\<close> are read from \<open>metaIO\<close> (an empty script
  means success). Replicators (\<open>*peerRepl\<close>) are shared objects: a reply callback keeps the
  pointer it was created with, so they live in the heap \<open>prHeap\<close> and \<open>repl\<close> maps a peer to
  the address of its current one. \<open>currentRole\<close> mirrors \<open>role\<close> at every store in the code and
  is the same field here.
\<close>

section \<open>State\<close>

record peerRepl =
  prPeer :: string
  prTerm :: nat
  prKick :: bool
  prStopped :: bool
  prInflight :: int
  prProbing :: bool
  prEpoch :: nat
  prHbDue :: bool
  prSnapshotting :: bool
  prSnapRetryAt :: "int option"

record aeWaiter =
  wTerm :: nat
  wTarget :: nat
  wTargetTerm :: nat
  wRespond :: nat

record learnerRound =
  lrTarget :: nat
  lrStart :: int

text \<open>Calls of the state machine; the last argument of \<open>SMSetApplied\<close> is \<open>durable\<close>.\<close>

datatype sm_call =
    SMApply bytes
  | SMApplyBatch "bytes list"
  | SMSetApplied nat nat bool
  | SMBeginRestore
  | SMRestore nat nat
  | SMResetState

text \<open>A chunked snapshot transfer in progress on a follower.\<close>

datatype recvState = recvReceiving | recvInstalling | recvInstalled | recvFailed

record snapRecv =
  srIndex :: nat
  srTerm :: nat
  srID :: nat
  srSize :: nat
  srFile :: bytes
  srWritten :: nat
  srState :: recvState

record RaftNode =
  rnId :: string
  rnPeers :: "string list"
  ps :: persistentState
  store :: logStore
  metaIO :: "atomic_outcome list"
  durableIndex :: nat
  persistFailed :: bool
  syncKick :: bool
  aeWaiters :: "aeWaiter list"
  replReady :: bool
  repl :: "(string \<times> nat) list"
  prHeap :: "nat \<Rightarrow> peerRepl option"
  prNext :: nat
  pipeline :: bool
  pipelineWindow :: int
  lastIncludedIndex :: nat
  lastIncludedTerm :: nat
  legacyPeer :: bool
  peerCaps :: "string \<Rightarrow> nat"
  config :: Configuration
  configIndex :: nat
  baseConfig :: Configuration
  baseConfigIndex :: nat
  removed :: bool
  voter :: bool
  voterPeers :: "string list"
  hasOnConfig :: bool
  configNotified :: bool
  configEvents :: "Configuration list"
  leaderContact :: "int option"
  lastAck :: "string \<Rightarrow> int option"
  learnerRounds :: "string \<Rightarrow> learnerRound option"
  commitIndex :: nat
  lastApplied :: nat
  termStartIndex :: nat
  leaderReady :: bool
  nextIndex :: "string \<Rightarrow> nat"
  matchIndex :: "string \<Rightarrow> nat"
  role :: RaftRole
  LeaderID :: string
  electionGeneration :: nat
  hasBatchSM :: bool
  hasAppliedSM :: bool
  smCalls :: "sm_call list"
  applyKick :: nat
  waiters :: "(nat \<times> nat) list"
  chanNext :: nat
  notified :: "(nat \<times> raft_err option) list"
  preVotesLost :: nat
  snapFile :: "bytes option"
  snapCapable :: bool
  snapshotThreshold :: nat
  snapshotting :: bool
  captureFailures :: nat
  captureRetryAt :: "int option"
  snapInFlight :: "string \<Rightarrow> bool"
  capsKnown :: "string \<Rightarrow> bool"
  recv :: "snapRecv option"
  installing :: nat
  stopped :: bool

abbreviation curTerm :: "('a) RaftNode_scheme \<Rightarrow> nat" where
  "curTerm rn \<equiv> CurrentTerm (ps rn)"

abbreviation rlog :: "('a) RaftNode_scheme \<Rightarrow> LogEntry list" where
  "rlog rn \<equiv> Log (ps rn)"

abbreviation votedFor :: "('a) RaftNode_scheme \<Rightarrow> string" where
  "votedFor rn \<equiv> VotedFor (ps rn)"

definition setLog :: "LogEntry list \<Rightarrow> RaftNode \<Rightarrow> RaftNode" where
  "setLog es rn = rn\<lparr>ps := (ps rn)\<lparr>Log := es\<rparr>\<rparr>"

section \<open>Log helpers\<close>

definition logFirstIndex :: "RaftNode \<Rightarrow> nat" where
  "logFirstIndex rn =
     (if rlog rn = [] then lastIncludedIndex rn + 1 else eIndex (hd (rlog rn)))"

definition lastLogIndex :: "RaftNode \<Rightarrow> nat" where
  "lastLogIndex rn = (if rlog rn = [] then lastIncludedIndex rn else eIndex (last (rlog rn)))"

definition lastLogTerm :: "RaftNode \<Rightarrow> nat" where
  "lastLogTerm rn = (if rlog rn = [] then lastIncludedTerm rn else eTerm (last (rlog rn)))"

definition logTerm :: "RaftNode \<Rightarrow> nat \<Rightarrow> nat" where
  "logTerm rn idx =
     (if idx = 0 then 0
      else if idx = lastIncludedIndex rn then lastIncludedTerm rn
      else if rlog rn = [] then 0
      else let firstIdx = eIndex (hd (rlog rn))
        in if idx < firstIdx \<or> idx > lastLogIndex rn then 0
           else eTerm (rlog rn ! (idx - firstIdx)))"

definition entryAt :: "RaftNode \<Rightarrow> nat \<Rightarrow> LogEntry option" where
  "entryAt rn idx =
     (if rlog rn = [] then None
      else let firstIdx = eIndex (hd (rlog rn))
        in if idx < firstIdx \<or> idx > lastLogIndex rn then None
           else Some (rlog rn ! (idx - firstIdx)))"

definition entriesFrom :: "RaftNode \<Rightarrow> nat \<Rightarrow> LogEntry list" where
  "entriesFrom rn idx =
     (if rlog rn = [] \<or> idx > lastLogIndex rn then []
      else let firstIdx = eIndex (hd (rlog rn)); i = (if idx < firstIdx then firstIdx else idx)
        in drop (i - firstIdx) (rlog rn))"

definition logUpToDate :: "RaftNode \<Rightarrow> nat \<Rightarrow> nat \<Rightarrow> bool" where
  "logUpToDate rn lastTerm lastIdx =
     (let myLastTerm = lastLogTerm rn; myLastIdx = lastLogIndex rn
      in if lastTerm \<noteq> myLastTerm then lastTerm > myLastTerm else lastIdx \<ge> myLastIdx)"

section \<open>Configurations\<close>

definition containsVoter :: "Configuration \<Rightarrow> string \<Rightarrow> bool" where
  "containsVoter c sid \<longleftrightarrow> sid \<in> set (Servers c)"

definition isLearner :: "Configuration \<Rightarrow> string \<Rightarrow> bool" where
  "isLearner c sid \<longleftrightarrow> sid \<in> set (Learners c)"

definition IsMember :: "Configuration \<Rightarrow> string \<Rightarrow> bool" where
  "IsMember c sid \<longleftrightarrow> containsVoter c sid \<or> isLearner c sid"

definition Members :: "Configuration \<Rightarrow> string list" where
  "Members c = Servers c @ Learners c"

text \<open>\<open>sameSet\<close> sorts both lists and compares them, so it compares multisets.\<close>

definition sameSet :: "string list \<Rightarrow> string list \<Rightarrow> bool" where
  "sameSet a b \<longleftrightarrow> length a = length b \<and> (\<forall>x \<in> set (a @ b). count_list a x = count_list b x)"

definition Configuration_equal :: "Configuration \<Rightarrow> Configuration \<Rightarrow> bool" where
  "Configuration_equal c d \<longleftrightarrow>
     sameSet (Servers c) (Servers d) \<and> sameSet (Learners c) (Learners d) \<and>
     length (Addrs c) = length (Addrs d) \<and>
     (\<forall>(k, v) \<in> set (Addrs c). map_of (Addrs d) k = Some v)"

definition removeID :: "string list \<Rightarrow> string \<Rightarrow> string list" where
  "removeID ids sid = filter (\<lambda>s. s \<noteq> sid) ids"

definition quorumSize :: "RaftNode \<Rightarrow> nat" where
  "quorumSize rn = length (Servers (config rn)) div 2 + 1"

section \<open>Wake-ups and commit waiters\<close>

definition kickSyncerLocked :: "RaftNode \<Rightarrow> RaftNode" where
  "kickSyncerLocked rn = rn\<lparr>syncKick := True\<rparr>"

definition resetElectionTimer :: "RaftNode \<Rightarrow> RaftNode" where
  "resetElectionTimer rn = rn\<lparr>electionGeneration := electionGeneration rn + 1\<rparr>"

definition notifyApplier :: "RaftNode \<Rightarrow> RaftNode" where
  "notifyApplier rn = (if stopped rn then rn else rn\<lparr>applyKick := min 4096 (applyKick rn + 1)\<rparr>)"

definition failWaitersLocked :: "raft_err \<Rightarrow> RaftNode \<Rightarrow> RaftNode" where
  "failWaitersLocked err rn =
     rn\<lparr>notified := notified rn @ map (\<lambda>(i, ch). (ch, Some err)) (waiters rn), waiters := []\<rparr>"

definition removeWaiter :: "nat \<Rightarrow> nat \<Rightarrow> RaftNode \<Rightarrow> RaftNode" where
  "removeWaiter idx ch rn = rn\<lparr>waiters := remove1 (idx, ch) (waiters rn)\<rparr>"

section \<open>Replicators\<close>

definition wake :: "peerRepl \<Rightarrow> peerRepl" where
  "wake pr = pr\<lparr>prKick := True\<rparr>"

definition updPR :: "nat \<Rightarrow> (peerRepl \<Rightarrow> peerRepl) \<Rightarrow> RaftNode \<Rightarrow> RaftNode" where
  "updPR r f rn = rn\<lparr>prHeap := (prHeap rn)(r := map_option f (prHeap rn r))\<rparr>"

definition newPeerRepl :: "string \<Rightarrow> nat \<Rightarrow> peerRepl" where
  "newPeerRepl p t =
     \<lparr>prPeer = p, prTerm = t, prKick = True, prStopped = False, prInflight = 0,
      prProbing = True, prEpoch = 0, prHbDue = False, prSnapshotting = False,
      prSnapRetryAt = None\<rparr>"

text \<open>Stop every replicator that is not wanted or serves an older term.\<close>

fun stopReplicators ::
  "(string \<Rightarrow> bool) \<Rightarrow> nat \<Rightarrow> (string \<times> nat) list \<Rightarrow> (nat \<Rightarrow> peerRepl option) \<Rightarrow>
   (string \<times> nat) list \<times> (nat \<Rightarrow> peerRepl option)" where
  "stopReplicators want t [] h = ([], h)"
| "stopReplicators want t ((p, r) # rs) h =
     (let (rs', h') = stopReplicators want t rs h
      in if \<not> want p \<or> (case h r of Some pr \<Rightarrow> prTerm pr \<noteq> t | None \<Rightarrow> False)
         then (rs', h'(r := map_option (\<lambda>pr. pr\<lparr>prStopped := True\<rparr>) (h' r)))
         else ((p, r) # rs', h'))"

fun startReplicators :: "nat \<Rightarrow> string list \<Rightarrow> RaftNode \<Rightarrow> RaftNode" where
  "startReplicators t [] rn = rn"
| "startReplicators t (p # ps') rn =
     (if map_of (repl rn) p \<noteq> None then startReplicators t ps' rn
      else if stopped rn then rn
      else startReplicators t ps'
        (rn\<lparr>prHeap := (prHeap rn)(prNext rn \<mapsto> newPeerRepl p t),
            repl := (p, prNext rn) # repl rn, prNext := prNext rn + 1\<rparr>))"

definition syncReplicatorsLocked :: "RaftNode \<Rightarrow> RaftNode" where
  "syncReplicatorsLocked rn =
     (if \<not> replReady rn then rn
      else let leader = (role rn = RoleLeader);
               (rs, h) = stopReplicators (\<lambda>p. leader \<and> p \<in> set (rnPeers rn)) (curTerm rn)
                           (repl rn) (prHeap rn);
               rn1 = rn\<lparr>repl := rs, prHeap := h\<rparr>
        in if \<not> leader then rn1 else startReplicators (curTerm rn) (rnPeers rn) rn1)"

definition kickReplicatorsLocked :: "RaftNode \<Rightarrow> RaftNode" where
  "kickReplicatorsLocked rn = fold (\<lambda>(p, r). updPR r wake) (repl rn) rn"

definition kickReplicatorsOnAppendLocked :: "RaftNode \<Rightarrow> RaftNode" where
  "kickReplicatorsOnAppendLocked rn = (if pipeline rn then kickReplicatorsLocked rn else rn)"

definition heartbeatLocked :: "RaftNode \<Rightarrow> RaftNode" where
  "heartbeatLocked rn = fold (\<lambda>(p, r). updPR r (\<lambda>pr. wake (pr\<lparr>prHbDue := True\<rparr>))) (repl rn) rn"

section \<open>Effective configuration\<close>

definition setConfig :: "Configuration \<Rightarrow> nat \<Rightarrow> RaftNode \<Rightarrow> RaftNode" where
  "setConfig cfg index rn =
     (let changed = (index \<noteq> configIndex rn \<or> \<not> Configuration_equal cfg (config rn) \<or>
                     \<not> configNotified rn);
          voters = filter (\<lambda>s. s \<noteq> rnId rn) (Servers cfg);
          rn1 = rn\<lparr>config := cfg, configIndex := index,
                   rnPeers := voters @ filter (\<lambda>s. s \<noteq> rnId rn) (Learners cfg),
                   voterPeers := voters,
                   removed := \<not> IsMember cfg (rnId rn), voter := containsVoter cfg (rnId rn)\<rparr>;
          rn2 = (if changed \<and> hasOnConfig rn
                 then rn1\<lparr>configNotified := True, configEvents := configEvents rn @ [cfg]\<rparr>
                 else rn1)
      in syncReplicatorsLocked rn2)"

text \<open>The latest decodable configuration entry, searching a list from its head.\<close>

fun findConfig :: "gob \<Rightarrow> LogEntry list \<Rightarrow> (Configuration \<times> nat) option" where
  "findConfig G [] = None"
| "findConfig G (e # es) =
     (if eType e \<noteq> EntryConfig then findConfig G es
      else case gobDecode G (eCommand e) of
        None \<Rightarrow> findConfig G es
      | Some cfg \<Rightarrow> Some (cfg, eIndex e))"

definition refreshConfigFromLog :: "gob \<Rightarrow> RaftNode \<Rightarrow> RaftNode" where
  "refreshConfigFromLog G rn = (case findConfig G (rev (rlog rn)) of
     Some (cfg, i) \<Rightarrow> setConfig cfg i rn
   | None \<Rightarrow> setConfig (baseConfig rn) (baseConfigIndex rn) rn)"

definition configAt :: "gob \<Rightarrow> RaftNode \<Rightarrow> nat \<Rightarrow> Configuration \<times> nat" where
  "configAt G rn idx =
     (case findConfig G (rev (takeWhile (\<lambda>e. eIndex e \<le> idx) (rlog rn))) of
        Some c \<Rightarrow> c
      | None \<Rightarrow> (baseConfig rn, baseConfigIndex rn))"

section \<open>Role changes\<close>

definition popMetaIO :: "RaftNode \<Rightarrow> atomic_outcome \<times> RaftNode" where
  "popMetaIO rn = (case metaIO rn of [] \<Rightarrow> (AtomicOk, rn) | out # outs \<Rightarrow> (out, rn\<lparr>metaIO := outs\<rparr>))"

definition persistMetaLocked :: "RaftNode \<Rightarrow> raft_err option \<times> RaftNode" where
  "persistMetaLocked rn =
     (let (out, rn1) = popMetaIO rn;
          (err, st) = saveMeta out \<lparr>mTerm = curTerm rn, mVote = votedFor rn\<rparr> (store rn1)
      in (err, rn1\<lparr>store := st\<rparr>))"

definition becomeFollower :: "nat \<Rightarrow> RaftNode \<Rightarrow> RaftNode" where
  "becomeFollower term rn =
     (let rn1 = (if term > curTerm rn then rn\<lparr>LeaderID := []\<rparr> else rn);
          rn2 = rn1\<lparr>ps := (ps rn1)\<lparr>CurrentTerm := term, VotedFor := []\<rparr>, role := RoleFollower\<rparr>;
          rn3 = failWaitersLocked ErrNotLeader rn2;
          rn4 = kickSyncerLocked (syncReplicatorsLocked rn3)
      in snd (persistMetaLocked rn4))"

definition stepDownLocked :: "RaftNode \<Rightarrow> RaftNode" where
  "stepDownLocked rn =
     syncReplicatorsLocked
       (failWaitersLocked ErrNotLeader (rn\<lparr>role := RoleFollower, LeaderID := []\<rparr>))"

definition appendEntryLocked ::
  "EntryType \<Rightarrow> bytes \<Rightarrow> RaftNode \<Rightarrow> (LogEntry \<times> nat) \<times> RaftNode" where
  "appendEntryLocked typ command rn =
     (let e = \<lparr>eTerm = curTerm rn, eIndex = lastLogIndex rn + 1, eType = typ,
               eCommand = command\<rparr>;
          ch = chanNext rn
      in ((e, ch), (setLog (rlog rn @ [e]) rn)
            \<lparr>waiters := waiters rn @ [(eIndex e, ch)], chanNext := ch + 1\<rparr>))"

definition enqueueLocked :: "LogEntry list \<Rightarrow> RaftNode \<Rightarrow> raft_err option \<times> RaftNode" where
  "enqueueLocked es rn = (let (err, st) = enqueue es (store rn) in (err, rn\<lparr>store := st\<rparr>))"

definition becomeLeader :: "RaftNode \<Rightarrow> RaftNode" where
  "becomeLeader rn =
     (let nextIdx = lastLogIndex rn + 1;
          noop = \<lparr>eTerm = curTerm rn, eIndex = nextIdx, eType = EntryNormal, eCommand = []\<rparr>;
          rn1 = rn\<lparr>role := RoleLeader, LeaderID := rnId rn,
                   nextIndex := (\<lambda>p. if p \<in> set (rnPeers rn) then nextIdx else nextIndex rn p),
                   matchIndex := (\<lambda>p. if p \<in> set (rnPeers rn) then 0 else matchIndex rn p),
                   lastAck := (\<lambda>_. None), learnerRounds := (\<lambda>_. None)\<rparr>;
          rn2 = (setLog (rlog rn @ [noop]) rn1)\<lparr>termStartIndex := nextIdx, leaderReady := False\<rparr>;
          (_, rn3) = enqueueLocked [noop] rn2
      in syncReplicatorsLocked (kickSyncerLocked rn3))"

section \<open>An example node\<close>

text \<open>
  A node as it stands after starting on an empty directory with the given voters. It serves
  to show that the hypotheses of the properties below can hold.
\<close>

definition exampleNode :: "string \<Rightarrow> string list \<Rightarrow> RaftNode" where
  "exampleNode i voters =
     \<lparr>rnId = i, rnPeers = filter (\<lambda>s. s \<noteq> i) voters,
      ps = \<lparr>CurrentTerm = 0, VotedFor = [], Log = []\<rparr>, store = freshStore, metaIO = [],
      durableIndex = 0, persistFailed = False, syncKick = False, aeWaiters = [],
      replReady = True, repl = [], prHeap = (\<lambda>_. None), prNext = 0, pipeline = True,
      pipelineWindow = 64, lastIncludedIndex = 0, lastIncludedTerm = 0, legacyPeer = False,
      peerCaps = (\<lambda>_. 0), config = \<lparr>Servers = voters, Learners = [], Addrs = []\<rparr>,
      configIndex = 0, baseConfig = \<lparr>Servers = voters, Learners = [], Addrs = []\<rparr>,
      baseConfigIndex = 0, removed = (i \<notin> set voters), voter = (i \<in> set voters),
      voterPeers = filter (\<lambda>s. s \<noteq> i) voters, hasOnConfig = False, configNotified = False,
      configEvents = [], leaderContact = None, lastAck = (\<lambda>_. None),
      learnerRounds = (\<lambda>_. None), commitIndex = 0, lastApplied = 0, termStartIndex = 0,
      leaderReady = False, nextIndex = (\<lambda>_. 0), matchIndex = (\<lambda>_. 0), role = RoleFollower,
      LeaderID = [], electionGeneration = 0, hasBatchSM = False, hasAppliedSM = False,
      smCalls = [], applyKick = 0, waiters = [], chanNext = 0, notified = [],
      preVotesLost = 0, snapFile = None, snapCapable = True, snapshotThreshold = 10000,
      snapshotting = False, captureFailures = 0, captureRetryAt = None,
      snapInFlight = (\<lambda>_. False), capsKnown = (\<lambda>_. False), recv = None, installing = 0,
      stopped = False\<rparr>"

end
