(* ===== verification/RaftReplication.thy ===== *)
theory RaftReplication
  imports RaftNode
begin

text \<open>
  The write pipeline of \<open>src/consensus/pipeline.go\<close> and the commit rule of \<open>raft.go\<close>: group
  commit, the syncer, the follower's AppendEntries with acknowledgement after durability, the
  leader's per-peer replicators, and \<open>maybeAdvanceCommit\<close>.

  The clock is an argument (\<open>now\<close>, nanoseconds). A reply callback is the number the transport
  gave the request; the replies an operation sends are part of its result. Sections that run
  outside \<open>rn.mu\<close> are the boundaries between operations: the syncer is \<open>syncBegin\<close>, the
  store's flush, \<open>syncEnd\<close>.
\<close>

section \<open>Commit rule\<close>

definition replicatedCount :: "RaftNode \<Rightarrow> nat \<Rightarrow> nat" where
  "replicatedCount rn n =
     length (filter (\<lambda>s. if s = rnId rn then durableIndex rn \<ge> n else matchIndex rn s \<ge> n)
       (Servers (config rn)))"

fun commitScan :: "RaftNode \<Rightarrow> nat \<Rightarrow> nat option" where
  "commitScan rn 0 = None"
| "commitScan rn (Suc m) =
     (if Suc m \<le> commitIndex rn then None
      else if logTerm rn (Suc m) \<noteq> curTerm rn then commitScan rn m
      else if replicatedCount rn (Suc m) \<ge> quorumSize rn then Some (Suc m)
      else commitScan rn m)"

definition maybeAdvanceCommit :: "RaftNode \<Rightarrow> RaftNode" where
  "maybeAdvanceCommit rn = (case commitScan rn (lastLogIndex rn) of
     None \<Rightarrow> rn
   | Some n \<Rightarrow> notifyApplier (rn\<lparr>commitIndex := n\<rparr>))"

definition markDurableLocked :: "nat \<Rightarrow> nat \<Rightarrow> RaftNode \<Rightarrow> RaftNode" where
  "markDurableLocked idx term rn =
     (if idx \<le> durableIndex rn \<or> logTerm rn idx \<noteq> term then rn
      else let rn1 = rn\<lparr>durableIndex := idx\<rparr>
        in if role rn1 = RoleLeader then maybeAdvanceCommit rn1 else rn1)"

definition rewriteLogLocked ::
  "atomic_outcome \<Rightarrow> bool \<Rightarrow> RaftNode \<Rightarrow> raft_err option \<times> RaftNode" where
  "rewriteLogLocked out reopenOk rn =
     (case rewrite out reopenOk (rlog rn) (store rn) of
        (Some err, st) \<Rightarrow>
          (let rn1 = rn\<lparr>store := st\<rparr>; li = lastLogIndex rn1;
               rn2 = (if durableIndex rn1 > li then rn1\<lparr>durableIndex := li\<rparr> else rn1)
           in (Some err, kickSyncerLocked rn2))
      | (None, st) \<Rightarrow>
          (let rn1 = rn\<lparr>store := st, durableIndex := lastLogIndex rn\<rparr>;
               rn2 = (if role rn1 = RoleLeader then maybeAdvanceCommit rn1 else rn1)
           in (None, kickSyncerLocked rn2)))"

section \<open>Group commit\<close>

fun appendAllLocked ::
  "bytes list \<Rightarrow> RaftNode \<Rightarrow> (LogEntry \<times> nat) list \<times> RaftNode" where
  "appendAllLocked [] rn = ([], rn)"
| "appendAllLocked (c # cs) rn =
     (let (ec, rn1) = appendEntryLocked EntryNormal c rn;
          (ecs, rn2) = appendAllLocked cs rn1
      in (ec # ecs, rn2))"

text \<open>The result is, per request, its error or its log index and commit channel.\<close>

definition flushBatch ::
  "bytes list \<Rightarrow> RaftNode \<Rightarrow> (raft_err + nat \<times> nat) list \<times> RaftNode" where
  "flushBatch batch rn =
     (if role rn \<noteq> RoleLeader then (map (\<lambda>_. Inl ErrNotLeader) batch, rn)
      else let (ecs, rn1) = appendAllLocked batch rn;
               (err, rn2) = enqueueLocked (drop (length (rlog rn)) (rlog rn1)) rn1
        in case err of
             Some e \<Rightarrow>
               (map (\<lambda>_. Inl (ErrPersistLog e)) batch,
                (setLog (take (length (rlog rn)) (rlog rn2)) rn2)
                  \<lparr>waiters := filter (\<lambda>(i, ch). i \<notin> set (map (eIndex \<circ> fst) ecs)) (waiters rn2)\<rparr>)
           | None \<Rightarrow>
               (map (\<lambda>(e, ch). Inr (eIndex e, ch)) ecs,
                kickReplicatorsOnAppendLocked (kickSyncerLocked rn2)))"

section \<open>Follower: AppendEntries\<close>

definition localCaps :: "RaftNode \<Rightarrow> nat" where
  "localCaps rn = (if legacyPeer rn then 0 else 1)"

definition decideWaiter :: "RaftNode \<Rightarrow> aeWaiter \<Rightarrow> bool option" where
  "decideWaiter rn w =
     (if sQFailed (store rn) \<noteq> None \<or> stopped rn \<or> curTerm rn \<noteq> wTerm w then Some False
      else if wTarget w \<le> lastIncludedIndex rn then Some True
      else if logTerm rn (wTarget w) \<noteq> wTargetTerm w then Some False
      else if durableIndex rn \<ge> wTarget w then Some True
      else None)"

definition decidedReply :: "RaftNode \<Rightarrow> aeWaiter \<Rightarrow> bool \<Rightarrow> AppendEntriesReply" where
  "decidedReply rn w ok =
     \<lparr>aerTerm = curTerm rn, aerSuccess = ok,
      aerConflictIndex = (if ok then 0 else lastLogIndex rn + 1), aerConflictTerm = 0,
      aerHasMatch = ok, aerMatchIndex = (if ok then wTarget w else 0), aerCaps = localCaps rn\<rparr>"

definition takeDecidedWaitersLocked ::
  "RaftNode \<Rightarrow> (nat \<times> AppendEntriesReply) list \<times> RaftNode" where
  "takeDecidedWaitersLocked rn =
     (concat (map (\<lambda>w. case decideWaiter rn w of
                None \<Rightarrow> []
              | Some ok \<Rightarrow> [(wRespond w, decidedReply rn w ok)]) (aeWaiters rn)),
      rn\<lparr>aeWaiters := filter (\<lambda>w. decideWaiter rn w = None) (aeWaiters rn)\<rparr>)"

fun conflictStart :: "RaftNode \<Rightarrow> nat \<Rightarrow> nat \<Rightarrow> nat \<Rightarrow> nat" where
  "conflictStart rn first ct 0 = 0"
| "conflictStart rn first ct (Suc i) =
     (if Suc i > first \<and> logTerm rn i = ct then conflictStart rn first ct i else Suc i)"

fun appendLoop :: "gob \<Rightarrow> nat \<Rightarrow> LogEntry list \<Rightarrow> RaftNode \<Rightarrow> bool \<times> RaftNode" where
  "appendLoop G prev [] rn = (True, rn)"
| "appendLoop G prev (e # es) rn =
     (let localIdx = prev + 1
      in if localIdx \<le> lastLogIndex rn \<and> logTerm rn localIdx = eTerm e
         then appendLoop G localIdx es rn
         else
           let rn1 = (if localIdx \<le> lastLogIndex rn
                      then (setLog (take (localIdx - logFirstIndex rn) (rlog rn)) rn)
                             \<lparr>durableIndex := (if durableIndex rn \<ge> localIdx then localIdx - 1
                                               else durableIndex rn)\<rparr>
                      else rn);
               rn2 = setLog (rlog rn1 @ (e # es)) rn1;
               (err, rn3) = enqueueLocked (e # es) rn2
           in if err \<noteq> None
              then (False, refreshConfigFromLog G
                      (setLog (take (localIdx - logFirstIndex rn3) (rlog rn3)) rn3))
              else (True, kickSyncerLocked (refreshConfigFromLog G rn3)))"

definition noteLeaderContactLocked :: "int \<Rightarrow> RaftNode \<Rightarrow> RaftNode" where
  "noteLeaderContactLocked now rn = rn\<lparr>leaderContact := Some now\<rparr>"

definition advanceFollowerCommit :: "nat \<Rightarrow> nat \<Rightarrow> RaftNode \<Rightarrow> RaftNode" where
  "advanceFollowerCommit leaderCommit target rn =
     (if leaderCommit > commitIndex rn
      then let newCommit = (if leaderCommit > target then target else leaderCommit)
        in if newCommit > commitIndex rn
           then notifyApplier (rn\<lparr>commitIndex := newCommit\<rparr>) else rn
      else rn)"

text \<open>The part after the term checks: snapshot overlap, consistency check, append, commit.\<close>

definition acceptEntries ::
  "gob \<Rightarrow> AppendEntriesArgs \<Rightarrow> AppendEntriesReply \<Rightarrow> RaftNode \<Rightarrow>
   (AppendEntriesReply \<times> aeWaiter option) \<times> RaftNode" where
  "acceptEntries G args reply rn =
     (let prev0 = aePrevLogIndex args; ents0 = aeEntries args;
          covered = lastIncludedIndex rn - prev0;
          below = (prev0 < lastIncludedIndex rn);
          ents = (if below then drop covered ents0 else ents0);
          prev = (if below then lastIncludedIndex rn else prev0);
          prevTerm = (if below then lastIncludedTerm rn else aePrevLogTerm args)
      in if below \<and> length ents0 \<le> covered
         then ((reply\<lparr>aerSuccess := True, aerHasMatch := True,
                      aerMatchIndex := prev0 + length ents0\<rparr>, None), rn)
         else if prev > 0 \<and> prev > lastLogIndex rn
         then ((reply\<lparr>aerConflictIndex := lastLogIndex rn + 1\<rparr>, None), rn)
         else if prev > 0 \<and> logTerm rn prev \<noteq> prevTerm
         then ((reply\<lparr>aerConflictTerm := logTerm rn prev,
                      aerConflictIndex :=
                        conflictStart rn (logFirstIndex rn) (logTerm rn prev) prev\<rparr>, None), rn)
         else
           let (ok, rn1) = appendLoop G prev ents rn
           in if \<not> ok then ((reply, None), rn1)
              else
                let target = prev + length ents;
                    rn2 = advanceFollowerCommit (aeLeaderCommit args) target rn1;
                    reply2 = reply\<lparr>aerSuccess := True\<rparr>
                in if ents = [] \<and> aeWantMatch args
                   then ((reply2\<lparr>aerHasMatch := True,
                                aerMatchIndex := (if durableIndex rn2 < target
                                                  then durableIndex rn2 else target)\<rparr>, None), rn2)
                   else if durableIndex rn2 \<ge> target
                   then ((reply2\<lparr>aerHasMatch := True, aerMatchIndex := target\<rparr>, None), rn2)
                   else ((reply2, Some \<lparr>wTerm = curTerm rn2, wTarget = target,
                                        wTargetTerm = logTerm rn2 target, wRespond = 0\<rparr>), rn2))"

definition appendEntriesLocked ::
  "gob \<Rightarrow> int \<Rightarrow> AppendEntriesArgs \<Rightarrow> RaftNode \<Rightarrow>
   (AppendEntriesReply \<times> aeWaiter option) \<times> RaftNode" where
  "appendEntriesLocked G now args rn =
     (let reply = \<lparr>aerTerm = curTerm rn, aerSuccess = False, aerConflictIndex = 0,
                   aerConflictTerm = 0, aerHasMatch = False, aerMatchIndex = 0,
                   aerCaps = localCaps rn\<rparr>
      in if stopped rn then ((reply, None), rn)
         else if aeTerm args < curTerm rn then ((reply, None), rn)
         else
           let (err, rn1) = (if aeTerm args > curTerm rn
                             then persistMetaLocked (becomeFollower (aeTerm args) rn)
                             else (None, rn))
           in if err \<noteq> None then ((reply, None), rn1)
              else
                let rn2 = noteLeaderContactLocked now
                      (resetElectionTimer (rn1\<lparr>role := RoleFollower, LeaderID := aeLeaderID args\<rparr>))
                in acceptEntries G args (reply\<lparr>aerTerm := curTerm rn2\<rparr>) rn2)"

definition HandleAppendEntriesAsync ::
  "gob \<Rightarrow> int \<Rightarrow> AppendEntriesArgs \<Rightarrow> nat \<Rightarrow> RaftNode \<Rightarrow>
   (nat \<times> AppendEntriesReply) list \<times> RaftNode" where
  "HandleAppendEntriesAsync G now args respond rn =
     (let ((reply, w), rn1) = appendEntriesLocked G now args rn;
          rn2 = (case w of None \<Rightarrow> rn1
                 | Some w \<Rightarrow> rn1\<lparr>aeWaiters := aeWaiters rn1 @ [w\<lparr>wRespond := respond\<rparr>]\<rparr>);
          (decided, rn3) = takeDecidedWaitersLocked rn2
      in ((if w = None then [(respond, reply)] else []) @ decided, rn3))"

section \<open>Syncer\<close>

definition onPersistFailureLocked :: "gob \<Rightarrow> raft_err \<Rightarrow> RaftNode \<Rightarrow> RaftNode" where
  "onPersistFailureLocked G err rn =
     (let rn1 = rn\<lparr>persistFailed := True\<rparr>
      in if role rn1 = RoleLeader
         then rn1\<lparr>notified := notified rn1 @
                    map (\<lambda>(i, ch). (ch, Some (ErrPersistLog err)))
                      (filter (\<lambda>(i, ch). i > durableIndex rn1) (waiters rn1)),
                  waiters := filter (\<lambda>(i, ch). i \<le> durableIndex rn1) (waiters rn1)\<rparr>
         else if durableIndex rn1 < lastLogIndex rn1 \<and>
                 durableIndex rn1 + 1 \<ge> logFirstIndex rn1
         then refreshConfigFromLog G
                (setLog (take (durableIndex rn1 + 1 - logFirstIndex rn1) (rlog rn1)) rn1)
         else rn1)"

definition syncBegin :: "RaftNode \<Rightarrow> nat \<times> nat" where
  "syncBegin rn = (lastLogIndex rn, lastLogTerm rn)"

definition syncEnd ::
  "gob \<Rightarrow> raft_err option \<Rightarrow> nat \<Rightarrow> nat \<Rightarrow> RaftNode \<Rightarrow>
   (nat \<times> AppendEntriesReply) list \<times> RaftNode" where
  "syncEnd G err idx term rn =
     (let rn1 = (case err of
            None \<Rightarrow> (let r = markDurableLocked idx term rn
                    in if \<not> pipeline r \<and> role r = RoleLeader then kickReplicatorsLocked r else r)
          | Some e \<Rightarrow> if e = ErrLogStoreClosed then rn else onPersistFailureLocked G e rn)
      in takeDecidedWaitersLocked rn1)"

definition syncOnce ::
  "gob \<Rightarrow> write_outcome \<Rightarrow> bool \<Rightarrow> RaftNode \<Rightarrow> (nat \<times> AppendEntriesReply) list \<times> RaftNode" where
  "syncOnce G wr ok rn =
     (let (idx, term) = syncBegin rn;
          (err, st) = flush wr ok (store rn)
      in syncEnd G err idx term (rn\<lparr>store := st\<rparr>))"

section \<open>Leader: replicators\<close>

definition maxAppendEntries :: nat where "maxAppendEntries = 1024"
definition maxAppendBytes :: nat where "maxAppendBytes = 4 * 2 ^ 20"

record aeSend =
  asArgs :: AppendEntriesArgs
  asEntries :: bool
  asEpoch :: nat
  asSnapHB :: bool

definition appendArgsLocked :: "nat \<Rightarrow> LogEntry list \<Rightarrow> RaftNode \<Rightarrow> AppendEntriesArgs" where
  "appendArgsLocked prev entries rn =
     \<lparr>aeTerm = curTerm rn, aeLeaderID = rnId rn, aePrevLogIndex = prev,
      aePrevLogTerm = logTerm rn prev, aeEntries = entries,
      aeLeaderCommit = commitIndex rn, aeWantMatch = True\<rparr>"

text \<open>How many entries one message takes: at least one, then while both bounds allow it.\<close>

fun batchCount :: "nat \<Rightarrow> nat \<Rightarrow> LogEntry list \<Rightarrow> nat" where
  "batchCount n b [] = n"
| "batchCount n b (e # es) =
     (if n < maxAppendEntries \<and> (n = 0 \<or> b + length (eCommand e) \<le> maxAppendBytes)
      then batchCount (n + 1) (b + length (eCommand e)) es else n)"

text \<open>One turn of the sending loop: it stops (perhaps to start a snapshot transfer), or it
  sends one message and goes on.\<close>

datatype repl_step = ReplStop bool RaftNode | ReplSend aeSend RaftNode

definition replicateStep :: "nat \<Rightarrow> int \<Rightarrow> int \<Rightarrow> RaftNode \<Rightarrow> repl_step" where
  "replicateStep r window now rn = (case prHeap rn r of
     None \<Rightarrow> ReplStop False rn
   | Some pr \<Rightarrow>
       if prSnapshotting pr then ReplStop False rn
       else
         let next0 = nextIndex rn (prPeer pr);
             next = (if next0 = 0 then lastLogIndex rn + 1 else next0);
             rn1 = rn\<lparr>nextIndex := (nextIndex rn)(prPeer pr := next)\<rparr>
         in if next \<le> lastIncludedIndex rn
            then if prInflight pr = 0 \<and>
                    (case prSnapRetryAt pr of None \<Rightarrow> True | Some t \<Rightarrow> now \<ge> t)
                 then ReplStop True (updPR r (\<lambda>pr. pr\<lparr>prSnapshotting := True\<rparr>) rn1)
                 else ReplStop False rn1
            else if next > lastLogIndex rn \<or> prInflight pr \<ge> window
            then ReplStop False rn1
            else
              let ents = entriesFrom rn1 next;
                  n = batchCount 0 0 ents;
                  snd = \<lparr>asArgs = appendArgsLocked (next - 1) (take n ents) rn1,
                         asEntries = True, asEpoch = prEpoch pr, asSnapHB = False\<rparr>
              in ReplSend snd (updPR r (\<lambda>pr. pr\<lparr>prInflight := prInflight pr + 1\<rparr>)
                   (rn1\<lparr>nextIndex := (nextIndex rn1)(prPeer pr := next + n)\<rparr>)))"

definition inflightOf :: "nat \<Rightarrow> RaftNode \<Rightarrow> int" where
  "inflightOf r rn = (case prHeap rn r of None \<Rightarrow> 0 | Some pr \<Rightarrow> prInflight pr)"

lemma replicateStep_inflight:
  "replicateStep r window now rn = ReplSend s rn' \<Longrightarrow>
   inflightOf r rn < window \<and> inflightOf r rn' = inflightOf r rn + 1"
  by (auto simp: replicateStep_def inflightOf_def updPR_def Let_def split: option.splits if_splits)

function replicateLoop ::
  "nat \<Rightarrow> int \<Rightarrow> int \<Rightarrow> aeSend list \<Rightarrow> RaftNode \<Rightarrow> aeSend list \<times> bool \<times> RaftNode" where
  "replicateLoop r window now sends rn = (case replicateStep r window now rn of
     ReplStop snap rn1 \<Rightarrow> (sends, snap, rn1)
   | ReplSend s rn2 \<Rightarrow> replicateLoop r window now (sends @ [s]) rn2)"
  by pat_completeness auto
termination
  by (relation "measure (\<lambda>(r, window, now, sends, rn). nat (window - inflightOf r rn))")
     (auto dest: replicateStep_inflight)

declare replicateLoop.simps [simp del]

definition replicate_peer ::
  "nat \<Rightarrow> int \<Rightarrow> RaftNode \<Rightarrow> aeSend list \<times> bool \<times> RaftNode" where
  "replicate_peer r now rn = (case prHeap rn r of
     None \<Rightarrow> ([], False, rn)
   | Some pr \<Rightarrow>
       if prStopped pr \<or> role rn \<noteq> RoleLeader \<or> curTerm rn \<noteq> prTerm pr then ([], False, rn)
       else
         let hb = prHbDue pr;
             window = (if prProbing pr then 1 else pipelineWindow rn);
             (sends, snap, rn1) = replicateLoop r window now []
                (updPR r (\<lambda>pr. pr\<lparr>prHbDue := False\<rparr>) rn);
             next = nextIndex rn1 (prPeer pr);
             snapping = (case prHeap rn1 r of None \<Rightarrow> False | Some pr1 \<Rightarrow> prSnapshotting pr1);
             hbs = (if hb \<and> sends = []
                    then if \<not> snapping \<and> next > lastIncludedIndex rn1
                         then [\<lparr>asArgs = appendArgsLocked (next - 1) [] rn1, asEntries = False,
                                asEpoch = prEpoch pr, asSnapHB = False\<rparr>]
                         else if lastIncludedIndex rn1 > 0
                         then [\<lparr>asArgs = appendArgsLocked (lastIncludedIndex rn1) [] rn1,
                                asEntries = False, asEpoch = prEpoch pr, asSnapHB = True\<rparr>]
                         else []
                    else []);
             rn2 = (if snap \<and> stopped rn1
                    then updPR r (\<lambda>pr. pr\<lparr>prSnapshotting := False\<rparr>) rn1 else rn1)
         in (sends @ hbs, snap \<and> \<not> stopped rn1, rn2))"

definition noteAckLocked :: "string \<Rightarrow> int \<Rightarrow> RaftNode \<Rightarrow> RaftNode" where
  "noteAckLocked peer now rn = rn\<lparr>lastAck := (lastAck rn)(peer \<mapsto> now)\<rparr>"

text \<open>A successful reply: raise \<open>matchIndex\<close> and \<open>nextIndex\<close>, leave probing mode.\<close>

definition onAppendSuccess ::
  "nat \<Rightarrow> string \<Rightarrow> aeSend \<Rightarrow> AppendEntriesReply \<Rightarrow> RaftNode \<Rightarrow> RaftNode" where
  "onAppendSuccess r peer s reply rn =
     (let match = (if aerHasMatch reply then aerMatchIndex reply
                   else aePrevLogIndex (asArgs s) + length (aeEntries (asArgs s)));
          rn1 = (if match > matchIndex rn peer
                 then maybeAdvanceCommit (rn\<lparr>matchIndex := (matchIndex rn)(peer := match)\<rparr>)
                 else rn);
          rn2 = (if nextIndex rn1 peer \<le> match
                 then rn1\<lparr>nextIndex := (nextIndex rn1)(peer := match + 1)\<rparr> else rn1)
      in if asEntries s \<and> (case prHeap rn2 r of None \<Rightarrow> False | Some pr \<Rightarrow> asEpoch s = prEpoch pr)
         then updPR r (\<lambda>pr. pr\<lparr>prProbing := False\<rparr>) rn2 else rn2)"

definition onAppendReject ::
  "nat \<Rightarrow> string \<Rightarrow> aeSend \<Rightarrow> AppendEntriesReply \<Rightarrow> RaftNode \<Rightarrow> RaftNode" where
  "onAppendReject r peer s reply rn =
     (let next = (if aerConflictIndex reply > 0 then aerConflictIndex reply
                  else aePrevLogIndex (asArgs s))
      in (updPR r (\<lambda>pr. pr\<lparr>prEpoch := prEpoch pr + 1, prProbing := True\<rparr>) rn)
           \<lparr>nextIndex := (nextIndex rn)(peer := max next 1)\<rparr>)"

definition onAppendLost :: "nat \<Rightarrow> peerRepl \<Rightarrow> aeSend \<Rightarrow> RaftNode \<Rightarrow> RaftNode" where
  "onAppendLost r pr s rn =
     (if asEntries s \<and> \<not> prStopped pr \<and> asEpoch s = prEpoch pr
      then let rn1 = updPR r (\<lambda>pr. pr\<lparr>prEpoch := prEpoch pr + 1, prProbing := True\<rparr>) rn;
               first = aePrevLogIndex (asArgs s) + 1
        in if first < nextIndex rn1 (prPeer pr)
           then rn1\<lparr>nextIndex := (nextIndex rn1)(prPeer pr := first)\<rparr> else rn1
      else rn)"

definition handleAppendReply ::
  "nat \<Rightarrow> peerRepl \<Rightarrow> int \<Rightarrow> aeSend \<Rightarrow> AppendEntriesReply \<Rightarrow> RaftNode \<Rightarrow> RaftNode" where
  "handleAppendReply r pr now s reply rn =
     (if aerTerm reply > curTerm rn then becomeFollower (aerTerm reply) rn
      else
        let rn1 = (if role rn = RoleLeader \<and> aerTerm reply = curTerm rn
                   then noteAckLocked (prPeer pr) now rn else rn);
            rn2 = rn1\<lparr>peerCaps := (peerCaps rn1)(prPeer pr := aerCaps reply),
                       capsKnown := (capsKnown rn1)(prPeer pr := True)\<rparr>
        in if asSnapHB s then rn2
           else if prStopped pr \<or> role rn2 \<noteq> RoleLeader \<or> curTerm rn2 \<noteq> aeTerm (asArgs s) then rn2
           else if aerSuccess reply then onAppendSuccess r (prPeer pr) s reply rn2
           else if asEpoch s \<noteq> prEpoch pr then rn2
           else onAppendReject r (prPeer pr) s reply rn2)"

text \<open>\<open>None\<close> is a transport error (the request or its reply was lost).\<close>

definition onAppendReply ::
  "nat \<Rightarrow> int \<Rightarrow> aeSend \<Rightarrow> AppendEntriesReply option \<Rightarrow> RaftNode \<Rightarrow> RaftNode" where
  "onAppendReply r now s res rn = (case prHeap rn r of
     None \<Rightarrow> rn
   | Some pr \<Rightarrow>
       let wakes = (pipeline rn \<or> res = None \<or>
                    (case res of None \<Rightarrow> True | Some reply \<Rightarrow> \<not> aerSuccess reply) \<or>
                    durableIndex rn \<ge> lastLogIndex rn);
           rn1 = (if asEntries s
                  then updPR r (\<lambda>pr. pr\<lparr>prInflight := prInflight pr - 1\<rparr>) rn else rn);
           rn2 = (case res of
                    None \<Rightarrow> onAppendLost r pr s rn1
                  | Some reply \<Rightarrow> handleAppendReply r pr now s reply rn1)
       in if wakes then updPR r wake rn2 else rn2)"

end
