(* ===== verification/RaftElection.thy ===== *)
theory RaftElection
  imports RaftReplication
begin

text \<open>
  Elections (\<open>src/consensus/raft.go\<close>): the vote handler, the pre-vote round, the election
  itself and the timer. A round asks every other voter in its own goroutine and counts the
  replies in local variables; those variables are the records \<open>prevoteRound\<close> and
  \<open>electionRound\<close>, and each reply is one operation on a round and the node.
\<close>

definition electionTimeoutMin :: int where "electionTimeoutMin = 400 * 10 ^ 6"
definition electionTimeoutMax :: int where "electionTimeoutMax = 800 * 10 ^ 6"

section \<open>RequestVote\<close>

text \<open>\<open>leaderContact\<close> is the zero time (\<open>None\<close>) until a leader was heard from.\<close>

definition heardLeaderRecently :: "int \<Rightarrow> RaftNode \<Rightarrow> bool" where
  "heardLeaderRecently now rn = (case leaderContact rn of
     None \<Rightarrow> False
   | Some t \<Rightarrow> now - t < electionTimeoutMin)"

definition grantVote :: "RequestVoteArgs \<Rightarrow> RaftNode \<Rightarrow> bool \<times> RaftNode" where
  "grantVote args rn =
     (let canVote = (votedFor rn = [] \<or> votedFor rn = rvCandidateID args);
          upToDate = logUpToDate rn (rvLastLogTerm args) (rvLastLogIndex args)
      in if canVote \<and> upToDate
         then let prev = votedFor rn;
                  (err, rn1) = persistMetaLocked
                    (rn\<lparr>ps := (ps rn)\<lparr>VotedFor := rvCandidateID args\<rparr>\<rparr>)
           in if err \<noteq> None then (False, rn1\<lparr>ps := (ps rn1)\<lparr>VotedFor := prev\<rparr>\<rparr>)
              else (True, resetElectionTimer rn1)
         else (False, rn))"

definition HandleRequestVote ::
  "int \<Rightarrow> RequestVoteArgs \<Rightarrow> RaftNode \<Rightarrow> RequestVoteReply \<times> RaftNode" where
  "HandleRequestVote now args rn =
     (let reply = \<lparr>rvrTerm = curTerm rn, rvrVoteGranted = False\<rparr>
      in if \<not> containsVoter (config rn) (rvCandidateID args) then (reply, rn)
         else if rvPreVote args
         then if rvTerm args \<le> curTerm rn \<or> role rn = RoleLeader \<or> heardLeaderRecently now rn \<or>
                 \<not> logUpToDate rn (rvLastLogTerm args) (rvLastLogIndex args)
              then (reply, rn)
              else (\<lparr>rvrTerm = rvTerm args, rvrVoteGranted = True\<rparr>, rn)
         else if rvTerm args < curTerm rn then (reply, rn)
         else
           let (err, rn1) = (if rvTerm args > curTerm rn
                             then persistMetaLocked (becomeFollower (rvTerm args) rn)
                             else (None, rn))
           in if err \<noteq> None then (reply, rn1)
              else let (granted, rn2) = grantVote args rn1
                in (\<lparr>rvrTerm = curTerm rn2, rvrVoteGranted = granted\<rparr>, rn2))"

section \<open>Pre-vote\<close>

record prevoteRound =
  pvTerm :: nat
  pvArgs :: RequestVoteArgs
  pvPeers :: "string list"
  pvNeeded :: nat
  pvGranted :: nat

datatype prevote_start = PreVoteNo | PreVoteYes | PreVoteAsk prevoteRound

definition preVote_begin :: "RaftNode \<Rightarrow> prevote_start" where
  "preVote_begin rn =
     (if removed rn \<or> \<not> containsVoter (config rn) (rnId rn) \<or> role rn = RoleLeader
      then PreVoteNo
      else if quorumSize rn \<le> 1 then PreVoteYes
      else PreVoteAsk
        \<lparr>pvTerm = curTerm rn,
         pvArgs = \<lparr>rvTerm = curTerm rn + 1, rvCandidateID = rnId rn,
                   rvLastLogIndex = lastLogIndex rn, rvLastLogTerm = lastLogTerm rn,
                   rvPreVote = True\<rparr>,
         pvPeers = voterPeers rn, pvNeeded = quorumSize rn, pvGranted = 1\<rparr>)"

definition preVote_reply ::
  "RequestVoteReply \<Rightarrow> prevoteRound \<Rightarrow> RaftNode \<Rightarrow> prevoteRound \<times> RaftNode" where
  "preVote_reply reply pv rn =
     (if rvrVoteGranted reply then (pv\<lparr>pvGranted := pvGranted pv + 1\<rparr>, rn)
      else if rvrTerm reply > pvTerm pv \<and> rvrTerm reply > curTerm rn
      then (pv, becomeFollower (rvrTerm reply) rn)
      else (pv, rn))"

text \<open>
  The final \<open>select\<close> of \<open>preVote\<close>. It takes \<open>rn.done\<close> only once the node is stopping
  (\<open>takeDone\<close>), and the channel \<open>all\<close> only after every peer answered or failed.
\<close>

definition preVote_end :: "int \<Rightarrow> bool \<Rightarrow> prevoteRound \<Rightarrow> RaftNode \<Rightarrow> bool \<times> RaftNode" where
  "preVote_end now takeDone pv rn =
     (if takeDone \<and> stopped rn then (False, rn)
      else if pvGranted pv < pvNeeded pv
      then (False, rn\<lparr>preVotesLost := preVotesLost rn + 1\<rparr>)
      else (curTerm rn = pvTerm pv \<and> role rn \<noteq> RoleLeader \<and> \<not> heardLeaderRecently now rn, rn))"

section \<open>Election\<close>

record electionRound =
  elTerm :: nat
  elArgs :: RequestVoteArgs
  elPeers :: "string list"
  elNeeded :: nat
  elVotes :: nat

text \<open>After a pre-vote that failed, the timer is re-armed.\<close>

definition preVoteFailed :: "RaftNode \<Rightarrow> RaftNode" where
  "preVoteFailed rn = (if role rn \<noteq> RoleLeader then resetElectionTimer rn else rn)"

definition startElection :: "RaftNode \<Rightarrow> electionRound option \<times> RaftNode" where
  "startElection rn =
     (if removed rn \<or> \<not> containsVoter (config rn) (rnId rn) \<or> role rn = RoleLeader
      then (None, rn)
      else
        let (err, rn1) = persistMetaLocked
              (rn\<lparr>ps := (ps rn)\<lparr>CurrentTerm := curTerm rn + 1, VotedFor := rnId rn\<rparr>\<rparr>)
        in if err \<noteq> None then (None, resetElectionTimer rn1)
           else
             let rn2 = resetElectionTimer
                   (kickSyncerLocked (rn1\<lparr>role := RoleCandidate, LeaderID := []\<rparr>))
             in if quorumSize rn2 \<le> 1 then (None, becomeLeader rn2)
                else (Some \<lparr>elTerm = curTerm rn2,
                            elArgs = \<lparr>rvTerm = curTerm rn2, rvCandidateID = rnId rn2,
                                      rvLastLogIndex = lastLogIndex rn2,
                                      rvLastLogTerm = lastLogTerm rn2, rvPreVote = False\<rparr>,
                            elPeers = voterPeers rn2, elNeeded = quorumSize rn2,
                            elVotes = 1\<rparr>, rn2))"

definition electionReply ::
  "RequestVoteReply \<Rightarrow> electionRound \<Rightarrow> RaftNode \<Rightarrow> electionRound \<times> RaftNode" where
  "electionReply reply el rn =
     (if rvrTerm reply > curTerm rn then (el, becomeFollower (rvrTerm reply) rn)
      else if rvrVoteGranted reply \<and> curTerm rn = elTerm el \<and> role rn = RoleCandidate
      then let el1 = el\<lparr>elVotes := elVotes el + 1\<rparr>
        in (el1, if elVotes el1 \<ge> elNeeded el1 then becomeLeader rn else rn)
      else (el, rn))"

section \<open>Timer\<close>

text \<open>
  The election timer fired with generation \<open>gen\<close>: \<open>True\<close> starts an election round. A node
  that is installing a snapshot stays quiet; a non-voter only re-arms the timer.
\<close>

definition tickElection :: "nat \<Rightarrow> RaftNode \<Rightarrow> bool \<times> RaftNode" where
  "tickElection gen rn =
     (if installing rn > 0 \<and> role rn \<noteq> RoleLeader then (False, resetElectionTimer rn)
      else if role rn \<noteq> RoleLeader \<and> voter rn \<and> \<not> removed rn \<and> electionGeneration rn = gen
      then (\<not> stopped rn, rn)
      else if role rn \<noteq> RoleLeader then (False, resetElectionTimer rn)
      else (False, rn))"

end
