(* ===== verification/RaftApply.thy ===== *)
theory RaftApply
  imports RaftElection
begin

text \<open>
  The applier (\<open>src/consensus/raft.go\<close>): the committed run is gathered, consecutive writes
  are handed to the state machine in one batch when it supports batches, every index's commit
  waiters are signalled, and the applied index is recorded (\<open>applied.go\<close>).

  A run is applied under \<open>smMu\<close>, with \<open>rn.mu\<close> taken for the gathering and for each
  \<open>finishApplied\<close>. \<open>applyOneRun\<close> composes these sections without other handlers in between;
  \<open>finishApplied\<close> alone is one section under \<open>rn.mu\<close>.
\<close>

fun gatherRun :: "RaftNode \<Rightarrow> nat \<Rightarrow> nat \<Rightarrow> LogEntry list" where
  "gatherRun rn start 0 = []"
| "gatherRun rn start (Suc k) = (case entryAt rn start of
     None \<Rightarrow> []
   | Some e \<Rightarrow> e # gatherRun rn (start + 1) k)"

definition batchable :: "LogEntry \<Rightarrow> bool" where
  "batchable e \<longleftrightarrow> eType e = EntryNormal \<and> length (eCommand e) > 0"

definition onConfigCommitted :: "LogEntry \<Rightarrow> RaftNode \<Rightarrow> RaftNode" where
  "onConfigCommitted e rn =
     (if containsVoter (config rn) (rnId rn) then rn
      else let rn1 = (if \<not> IsMember (config rn) (rnId rn) then rn\<lparr>removed := True\<rparr> else rn)
        in if role rn1 = RoleLeader then stepDownLocked rn1 else rn1)"

definition finishApplied :: "LogEntry \<Rightarrow> RaftNode \<Rightarrow> RaftNode" where
  "finishApplied e rn =
     (let rn1 = rn\<lparr>lastApplied := eIndex e\<rparr>;
          rn2 = (if role rn1 = RoleLeader \<and> eIndex e \<ge> termStartIndex rn1
                 then rn1\<lparr>leaderReady := True\<rparr> else rn1);
          rn3 = rn2\<lparr>notified := notified rn2 @
                      map (\<lambda>(i, ch). (ch, None)) (filter (\<lambda>(i, ch). i = eIndex e) (waiters rn2)),
                    waiters := filter (\<lambda>(i, ch). i \<noteq> eIndex e) (waiters rn2)\<rparr>
      in if eType e = EntryConfig then onConfigCommitted e rn3 else rn3)"

definition applyBatchRun :: "LogEntry list \<Rightarrow> RaftNode \<Rightarrow> RaftNode" where
  "applyBatchRun run rn =
     fold finishApplied run (rn\<lparr>smCalls := smCalls rn @ [SMApplyBatch (map eCommand run)]\<rparr>)"

definition applySingle :: "LogEntry \<Rightarrow> RaftNode \<Rightarrow> RaftNode" where
  "applySingle e rn =
     finishApplied e
       (if eType e = EntryNormal \<and> length (eCommand e) > 0
        then rn\<lparr>smCalls := smCalls rn @ [SMApply (eCommand e)]\<rparr> else rn)"

function applyEntries :: "LogEntry list \<Rightarrow> RaftNode \<Rightarrow> RaftNode" where
  "applyEntries [] rn = rn"
| "applyEntries (e # es) rn =
     (if hasBatchSM rn \<and> batchable e
      then applyEntries (dropWhile batchable es)
             (applyBatchRun (e # takeWhile batchable es) rn)
      else applyEntries es (applySingle e rn))"
  by pat_completeness auto
termination
  by (relation "measure (\<lambda>(es, rn). length es)") (auto intro: le_imp_less_Suc length_dropWhile_le)

definition recordApplied :: "LogEntry \<Rightarrow> RaftNode \<Rightarrow> RaftNode" where
  "recordApplied e rn =
     (if \<not> hasAppliedSM rn then rn
      else rn\<lparr>smCalls := smCalls rn @ [SMSetApplied (eIndex e) (eTerm e) False]\<rparr>)"

definition applyOneRun :: "RaftNode \<Rightarrow> bool \<times> RaftNode" where
  "applyOneRun rn =
     (let start = lastApplied rn + 1; stop = commitIndex rn
      in if start > stop then (False, rn)
         else let entries = gatherRun rn start (stop + 1 - start)
           in if entries = [] then (False, rn)
              else (True, recordApplied (last entries) (applyEntries entries rn)))"

partial_function (option) applyCommitted :: "RaftNode \<Rightarrow> RaftNode option" where
  "applyCommitted rn =
     (case applyOneRun rn of
        (again, rn1) \<Rightarrow> if again then applyCommitted rn1 else Some rn1)"

end
