(* ===== verification/SnapshotFile.thy ===== *)
theory SnapshotFile
  imports RaftTypes
begin

text \<open>
  The streaming snapshot format (\<open>src/consensus/snapshot_file.go\<close>): a header block that is
  written last, checksummed records, a trailer with the record count. The writer and the
  reader keep the same incremental checksums as the code. A file is its bytes; the temporary
  file and its rename are modelled where the node uses them.
\<close>

section \<open>Header\<close>

definition snapHeaderSize :: nat where "snapHeaderSize = 4096"
definition snapHeaderCRCOff :: nat where "snapHeaderCRCOff = snapHeaderSize - 4"
definition snapHeaderFixed :: nat where "snapHeaderFixed = 72"
definition snapMagic :: bytes where "snapMagic = bytes_of_string ''VXSN''"
definition snapFormatVersion :: nat where "snapFormatVersion = 1"
definition snapTrailerMarker :: nat where "snapTrailerMarker = 0xFFFFFFFF"
definition snapTrailerLen :: nat where "snapTrailerLen = 16"
definition maxSnapRecord :: nat where "maxSnapRecord = 2 ^ 30"
definition payloadStream :: nat where "payloadStream = 1"
definition payloadLegacyBlob :: nat where "payloadLegacyBlob = 2"

lemmas snap_consts =
  snapHeaderSize_def snapHeaderCRCOff_def snapHeaderFixed_def snapFormatVersion_def
  snapTrailerMarker_def snapTrailerLen_def maxSnapRecord_def payloadStream_def
  payloadLegacyBlob_def

record snapshotMeta =
  smKind :: nat
  smIndex :: nat
  smTerm :: nat
  smConfigIndex :: nat
  smConfig :: Configuration
  smID :: nat
  smBodyLen :: nat
  smBodyCRC :: nat
  smCount :: nat

definition FileSize :: "snapshotMeta \<Rightarrow> nat" where
  "FileSize m = (snapHeaderSize + smBodyLen m) mod 2 ^ 64"

definition sameFile :: "snapshotMeta \<Rightarrow> snapshotMeta \<Rightarrow> bool" where
  "sameFile m n \<longleftrightarrow> smIndex m = smIndex n \<and> smTerm m = smTerm n \<and> smID m = smID n \<and>
     smBodyLen m = smBodyLen n"

definition snapHeaderBody :: "snapshotMeta \<Rightarrow> bytes \<Rightarrow> bytes" where
  "snapHeaderBody m cfg =
     snapMagic @ le 4 snapFormatVersion @ le 4 (smKind m) @ replicate 4 0 @
     le 8 (smIndex m) @ le 8 (smTerm m) @ le 8 (smConfigIndex m) @ le 8 (smID m) @
     le 8 (smBodyLen m) @ le 4 (smBodyCRC m) @ le 8 (smCount m) @ le 4 (length cfg) @ cfg @
     replicate (snapHeaderCRCOff - (snapHeaderFixed + length cfg)) 0"

definition encodeSnapHeader :: "gob \<Rightarrow> snapshotMeta \<Rightarrow> raft_err + bytes" where
  "encodeSnapHeader G m = (case gobEncode G (smConfig m) of
     None \<Rightarrow> Inl ErrEncodeConfiguration
   | Some cfg \<Rightarrow>
       if snapHeaderFixed + length cfg > snapHeaderCRCOff then Inl ErrConfigTooLarge
       else let h = snapHeaderBody m cfg in Inr (h @ le 4 (crc32c h)))"

definition decodeSnapHeader :: "gob \<Rightarrow> bytes \<Rightarrow> raft_err + snapshotMeta" where
  "decodeSnapHeader G h =
     (if length h < snapHeaderSize then Inl (ErrCorrupt ''short header'')
      else if take 4 h \<noteq> snapMagic then Inl (ErrCorrupt ''bad magic'')
      else if crc32c (take snapHeaderCRCOff h) \<noteq> unle (take 4 (drop snapHeaderCRCOff h))
        then Inl (ErrCorrupt ''header checksum mismatch'')
      else if unle (take 4 (drop 4 h)) \<noteq> snapFormatVersion
        then Inl ErrSnapVersion
      else let kind = unle (take 4 (drop 8 h)); cl = unle (take 4 (drop 68 h))
        in if kind \<noteq> payloadStream \<and> kind \<noteq> payloadLegacyBlob
             then Inl (ErrCorrupt ''unknown payload kind'')
           else if snapHeaderFixed + cl > snapHeaderCRCOff
             then Inl (ErrCorrupt ''bad config length'')
           else case gobDecode G (take cl (drop snapHeaderFixed h)) of
             None \<Rightarrow> Inl (ErrCorrupt ''config'')
           | Some cfg \<Rightarrow> Inr \<lparr>smKind = kind, smIndex = unle (take 8 (drop 16 h)),
               smTerm = unle (take 8 (drop 24 h)), smConfigIndex = unle (take 8 (drop 32 h)),
               smConfig = cfg, smID = unle (take 8 (drop 40 h)),
               smBodyLen = unle (take 8 (drop 48 h)), smBodyCRC = unle (take 4 (drop 56 h)),
               smCount = unle (take 8 (drop 60 h))\<rparr>)"

section \<open>Writer\<close>

record snapshotWriter =
  wBody :: bytes
  wCRC :: u32
  wN :: nat
  wCount :: nat

definition createSnapshotWriter :: snapshotWriter where
  "createSnapshotWriter = \<lparr>wBody = [], wCRC = 0, wN = 0, wCount = 0\<rparr>"

definition writeBody :: "bytes \<Rightarrow> snapshotWriter \<Rightarrow> snapshotWriter" where
  "writeBody b w = w\<lparr>wBody := wBody w @ b, wCRC := crcUpdate (wCRC w) b, wN := wN w + length b\<rparr>"

text \<open>\<open>abort\<close> is what the abort callback of the capture reports.\<close>

definition writeRecord ::
  "raft_err option \<Rightarrow> bytes \<Rightarrow> snapshotWriter \<Rightarrow> raft_err option \<times> snapshotWriter" where
  "writeRecord abort rec w =
     (if abort \<noteq> None then (abort, w)
      else if length rec \<ge> maxSnapRecord then (Some (ErrIO ''snapshot record too large''), w)
      else let w1 = writeBody rec (writeBody (le 4 (length rec) @ le 4 (crc32c rec)) w)
        in (None, w1\<lparr>wCount := wCount w1 + 1\<rparr>))"

definition snapTrailer :: "nat \<Rightarrow> bytes" where
  "snapTrailer count =
     (let t = le 4 snapTrailerMarker @ le 8 count in t @ le 4 (crc32c t))"

text \<open>The completed meta and the bytes of the finished file.\<close>

definition finishWriter ::
  "gob \<Rightarrow> snapshotMeta \<Rightarrow> snapshotWriter \<Rightarrow> raft_err + snapshotMeta \<times> bytes" where
  "finishWriter G m w =
     (let w1 = writeBody (snapTrailer (wCount w)) w;
          m1 = m\<lparr>smBodyLen := wN w1, smBodyCRC := unat (wCRC w1), smCount := wCount w1\<rparr>
      in case encodeSnapHeader G m1 of
           Inl e \<Rightarrow> Inl e
         | Inr h \<Rightarrow> Inr (m1, h @ wBody w1))"

definition writeLegacyBlobSnapshot ::
  "gob \<Rightarrow> nat \<Rightarrow> snapshotMeta \<Rightarrow> bytes \<Rightarrow> raft_err + snapshotMeta \<times> bytes" where
  "writeLegacyBlobSnapshot G freshID m blob =
     (case writeRecord None blob createSnapshotWriter of
        (Some e, _) \<Rightarrow> Inl e
      | (None, w) \<Rightarrow> finishWriter G
          (m\<lparr>smKind := payloadLegacyBlob, smID := (if smID m = 0 then freshID else smID m)\<rparr>) w)"

section \<open>Reader\<close>

record snapshotReader =
  rRest :: bytes
  rMeta :: snapshotMeta
  rCRC :: u32
  rRead :: nat
  rCount :: nat
  rDone :: bool

datatype snap_next = NextRec bytes | NextEOF | NextErr raft_err

definition newSnapshotReader :: "bytes \<Rightarrow> snapshotMeta \<Rightarrow> snapshotReader" where
  "newSnapshotReader file m =
     \<lparr>rRest = take (smBodyLen m) (drop snapHeaderSize file), rMeta = m, rCRC = 0, rRead = 0,
      rCount = 0, rDone = False\<rparr>"

definition readFull :: "nat \<Rightarrow> snapshotReader \<Rightarrow> (bytes \<times> snapshotReader) option" where
  "readFull n r =
     (if length (rRest r) < n then None
      else let b = take n (rRest r)
        in Some (b, r\<lparr>rRest := drop n (rRest r), rCRC := crcUpdate (rCRC r) b,
                      rRead := rRead r + n\<rparr>))"

abbreviation truncatedBody :: snap_next where
  "truncatedBody \<equiv> NextErr (ErrCorrupt ''truncated body'')"

definition readTrailer :: "bytes \<Rightarrow> snapshotReader \<Rightarrow> snap_next \<times> snapshotReader" where
  "readTrailer hdr r = (case readFull 12 r of
     None \<Rightarrow> (truncatedBody, r)
   | Some (tr, r1) \<Rightarrow>
       if crc32c (hdr @ take 8 tr) \<noteq> unle (drop 8 tr)
         then (NextErr (ErrCorrupt ''trailer checksum mismatch''), r1)
       else if unle (take 8 tr) \<noteq> rCount r1 \<or> unle (take 8 tr) \<noteq> smCount (rMeta r1)
         then (NextErr (ErrCorrupt ''record count''), r1)
       else if rRead r1 \<noteq> smBodyLen (rMeta r1)
         then (NextErr (ErrCorrupt ''trailer position''), r1)
       else if unat (rCRC r1) \<noteq> smBodyCRC (rMeta r1)
         then (NextErr (ErrCorrupt ''body checksum mismatch''), r1)
       else (NextEOF, r1\<lparr>rDone := True\<rparr>))"

definition snapNext ::
  "raft_err option \<Rightarrow> snapshotReader \<Rightarrow> snap_next \<times> snapshotReader" where
  "snapNext abort r =
     (if rDone r then (NextEOF, r)
      else case abort of Some e \<Rightarrow> (NextErr e, r)
      | None \<Rightarrow> (case readFull 4 r of
          None \<Rightarrow> (truncatedBody, r)
        | Some (hdr, r1) \<Rightarrow>
            let n = unle hdr
            in if n = snapTrailerMarker then readTrailer hdr r1
               else if n \<ge> maxSnapRecord then (NextErr (ErrCorrupt ''record length''), r1)
               else case readFull 4 r1 of
                 None \<Rightarrow> (truncatedBody, r1)
               | Some (chk, r2) \<Rightarrow> (case readFull n r2 of
                   None \<Rightarrow> (truncatedBody, r2)
                 | Some (rec, r3) \<Rightarrow>
                     if crc32c rec \<noteq> unle chk
                       then (NextErr (ErrCorrupt ''record checksum mismatch''), r3)
                     else (NextRec rec, r3\<lparr>rCount := rCount r3 + 1\<rparr>))))"

lemma readTrailer_not_rec [simp]: "readTrailer hdr r \<noteq> (NextRec rec, r')"
  by (auto simp: readTrailer_def split: option.splits)

lemma snapNext_shorter: "snapNext a r = (NextRec rec, r') \<Longrightarrow> length (rRest r') < length (rRest r)"
  by (auto simp: snapNext_def readFull_def Let_def split: if_splits option.splits)

text \<open>Reading to the end of the file, as \<open>verifySnapshotFile\<close> and a full restore do.\<close>

function readAllRecords :: "snapshotReader \<Rightarrow> raft_err + bytes list" where
  "readAllRecords r = (case snapNext None r of
     (NextEOF, _) \<Rightarrow> Inr []
   | (NextErr e, _) \<Rightarrow> Inl e
   | (NextRec rec, r1) \<Rightarrow> (case readAllRecords r1 of Inl e \<Rightarrow> Inl e | Inr rs \<Rightarrow> Inr (rec # rs)))"
  by pat_completeness auto
termination
  by (relation "measure (\<lambda>r. length (rRest r))") (auto dest: snapNext_shorter [OF sym])

declare readAllRecords.simps [simp del]

definition openSnapshotFile :: "gob \<Rightarrow> bytes option \<Rightarrow> raft_err + snapshotMeta option" where
  "openSnapshotFile G file = (case file of
     None \<Rightarrow> Inr None
   | Some b \<Rightarrow>
       if length b < snapHeaderSize then Inl (ErrCorrupt ''short header'')
       else case decodeSnapHeader G (take snapHeaderSize b) of
         Inl e \<Rightarrow> Inl e
       | Inr m \<Rightarrow> if length b \<noteq> FileSize m then Inl (ErrCorrupt ''size'') else Inr (Some m))"

definition readSnapshotFile :: "gob \<Rightarrow> bytes option \<Rightarrow> raft_err + snapshotMeta \<times> bytes list" where
  "readSnapshotFile G file = (case openSnapshotFile G file of
     Inl e \<Rightarrow> Inl e
   | Inr None \<Rightarrow> Inl (ErrIO ''not exist'')
   | Inr (Some m) \<Rightarrow> (case readAllRecords (newSnapshotReader (the file) m) of
       Inl e \<Rightarrow> Inl e
     | Inr rs \<Rightarrow> Inr (m, rs)))"

definition verifySnapshotFile :: "gob \<Rightarrow> bytes option \<Rightarrow> raft_err + snapshotMeta" where
  "verifySnapshotFile G file = map_sum id fst (readSnapshotFile G file)"

section \<open>Round trip\<close>

text \<open>The metas the header can carry; a file size is an \<open>int64\<close> in the operating system.\<close>

definition storableSnap :: "snapshotMeta \<Rightarrow> bool" where
  "storableSnap m \<longleftrightarrow> (smKind m = payloadStream \<or> smKind m = payloadLegacyBlob) \<and>
     smIndex m < 2 ^ 64 \<and> smTerm m < 2 ^ 64 \<and> smConfigIndex m < 2 ^ 64 \<and> smID m < 2 ^ 64 \<and>
     smBodyLen m < 2 ^ 63 \<and> smBodyCRC m < 2 ^ 32 \<and> smCount m < 2 ^ 64"

lemma FileSize_storable: "storableSnap m \<Longrightarrow> FileSize m = snapHeaderSize + smBodyLen m"
  by (simp add: FileSize_def storableSnap_def snapHeaderSize_def)

lemma length_snapMagic [simp]: "length snapMagic = 4"
  by (simp add: snapMagic_def)

lemma length_snapHeaderBody:
  "snapHeaderFixed + length cfg \<le> snapHeaderCRCOff \<Longrightarrow>
   length (snapHeaderBody m cfg) = snapHeaderCRCOff"
  by (simp add: snapHeaderBody_def snap_consts)

lemma snapHeader_fields:
  assumes "storableSnap m" "length cfg < 2 ^ 32"
  shows "take 4 (snapHeaderBody m cfg @ t) = snapMagic"
    "unle (take 4 (drop 4 (snapHeaderBody m cfg @ t))) = snapFormatVersion"
    "unle (take 4 (drop 8 (snapHeaderBody m cfg @ t))) = smKind m"
    "unle (take 8 (drop 16 (snapHeaderBody m cfg @ t))) = smIndex m"
    "unle (take 8 (drop 24 (snapHeaderBody m cfg @ t))) = smTerm m"
    "unle (take 8 (drop 32 (snapHeaderBody m cfg @ t))) = smConfigIndex m"
    "unle (take 8 (drop 40 (snapHeaderBody m cfg @ t))) = smID m"
    "unle (take 8 (drop 48 (snapHeaderBody m cfg @ t))) = smBodyLen m"
    "unle (take 4 (drop 56 (snapHeaderBody m cfg @ t))) = smBodyCRC m"
    "unle (take 8 (drop 60 (snapHeaderBody m cfg @ t))) = smCount m"
    "unle (take 4 (drop 68 (snapHeaderBody m cfg @ t))) = length cfg"
    "take (length cfg) (drop snapHeaderFixed (snapHeaderBody m cfg @ t)) = cfg"
proof -
  have b: "smIndex m < 256 ^ 8" "smTerm m < 256 ^ 8" "smConfigIndex m < 256 ^ 8" "smID m < 256 ^ 8"
      "smBodyLen m < 256 ^ 8" "smBodyCRC m < 256 ^ 4" "smCount m < 256 ^ 8" "length cfg < 256 ^ 4"
    using assms by (simp_all add: storableSnap_def)
  have k: "smKind m < 256 ^ 4" "snapFormatVersion < 256 ^ 4"
    using assms by (auto simp: storableSnap_def payloadStream_def payloadLegacyBlob_def
        snapFormatVersion_def)
  note unle_le_id [OF b(1)] unle_le_id [OF b(2)] unle_le_id [OF b(3)] unle_le_id [OF b(4)]
    unle_le_id [OF b(5)] unle_le_id [OF b(6)] unle_le_id [OF b(7)] unle_le_id [OF b(8)]
    unle_le_id [OF k(1)] unle_le_id [OF k(2)]
  note f = this and hdr = snapHeaderBody_def snapHeaderFixed_def
  show "take 4 (snapHeaderBody m cfg @ t) = snapMagic" by (simp add: hdr)
  show "unle (take 4 (drop 4 (snapHeaderBody m cfg @ t))) = snapFormatVersion" by (simp add: hdr f)
  show "unle (take 4 (drop 8 (snapHeaderBody m cfg @ t))) = smKind m" by (simp add: hdr f)
  show "unle (take 8 (drop 16 (snapHeaderBody m cfg @ t))) = smIndex m" by (simp add: hdr f)
  show "unle (take 8 (drop 24 (snapHeaderBody m cfg @ t))) = smTerm m" by (simp add: hdr f)
  show "unle (take 8 (drop 32 (snapHeaderBody m cfg @ t))) = smConfigIndex m" by (simp add: hdr f)
  show "unle (take 8 (drop 40 (snapHeaderBody m cfg @ t))) = smID m" by (simp add: hdr f)
  show "unle (take 8 (drop 48 (snapHeaderBody m cfg @ t))) = smBodyLen m" by (simp add: hdr f)
  show "unle (take 4 (drop 56 (snapHeaderBody m cfg @ t))) = smBodyCRC m" by (simp add: hdr f)
  show "unle (take 8 (drop 60 (snapHeaderBody m cfg @ t))) = smCount m" by (simp add: hdr f)
  show "unle (take 4 (drop 68 (snapHeaderBody m cfg @ t))) = length cfg" by (simp add: hdr f)
  show "take (length cfg) (drop snapHeaderFixed (snapHeaderBody m cfg @ t)) = cfg"
    by (simp add: hdr)
qed

lemma decode_encodeSnapHeader:
  assumes "storableSnap m" and "encodeSnapHeader G m = Inr h"
    and "\<forall>c cfg. gobEncode G c = Some cfg \<longrightarrow> gobDecode G cfg = Some c"
  shows "decodeSnapHeader G h = Inr m \<and> length h = snapHeaderSize"
proof -
  obtain cfg where cfg: "gobEncode G (smConfig m) = Some cfg"
      "snapHeaderFixed + length cfg \<le> snapHeaderCRCOff"
      "h = snapHeaderBody m cfg @ le 4 (crc32c (snapHeaderBody m cfg))"
    using assms(2) by (auto simp: encodeSnapHeader_def Let_def split: option.splits if_splits)
  have len: "length (snapHeaderBody m cfg) = snapHeaderCRCOff"
    using cfg(2) by (rule length_snapHeaderBody)
  have lh: "length h = snapHeaderSize"
    using len cfg(3) by (simp add: snap_consts)
  have crc: "crc32c (take snapHeaderCRCOff h) = unle (take 4 (drop snapHeaderCRCOff h))"
    using len cfg(3) crc32c_less [of "snapHeaderBody m cfg"] by simp
  have lc: "length cfg < 2 ^ 32"
    using cfg(2) by (simp add: snap_consts)
  note f = snapHeader_fields [OF assms(1) lc, of "le 4 (crc32c (snapHeaderBody m cfg))",
      folded cfg(3)]
  have kind: "smKind m = payloadStream \<or> smKind m = payloadLegacyBlob"
    using assms(1) by (simp add: storableSnap_def)
  have "gobDecode G cfg = Some (smConfig m)"
    using assms(3) cfg(1) by blast
  then have "decodeSnapHeader G h = Inr m"
    unfolding decodeSnapHeader_def Let_def f using lh crc kind cfg(2) by auto
  with lh show ?thesis by blast
qed

text \<open>The records of a body, and reading them back.\<close>

definition snapRecord :: "bytes \<Rightarrow> bytes" where
  "snapRecord rec = le 4 (length rec) @ le 4 (crc32c rec) @ rec"

lemma length_snapRecord [simp]: "length (snapRecord rec) = 8 + length rec"
  by (simp add: snapRecord_def)

text \<open>The reader after the prefix \<open>pre\<close> of the body.\<close>

definition readerAt :: "snapshotMeta \<Rightarrow> bytes \<Rightarrow> bytes \<Rightarrow> nat \<Rightarrow> snapshotReader" where
  "readerAt m pre rest c = \<lparr>rRest = rest, rMeta = m, rCRC = crcUpdate 0 pre,
     rRead = length pre, rCount = c, rDone = False\<rparr>"

lemma readFull_at:
  "length b = n \<Longrightarrow> readFull n (readerAt m pre (b @ rest) c) = Some (b, readerAt m (pre @ b) rest c)"
  by (simp add: readFull_def readerAt_def Let_def)

lemma snapNext_record:
  assumes "length rec < maxSnapRecord"
  shows "snapNext None (readerAt m pre (snapRecord rec @ rest) c) =
    (NextRec rec, readerAt m (pre @ snapRecord rec) rest (c + 1))"
proof -
  have n: "length rec < 256 ^ 4" "length rec \<noteq> snapTrailerMarker"
    using assms by (simp_all add: snap_consts)
  have "snapRecord rec @ rest = le 4 (length rec) @ (le 4 (crc32c rec) @ (rec @ rest))"
    by (simp add: snapRecord_def)
  moreover have "\<not> rDone (readerAt m pre q c)" for q
    by (simp add: readerAt_def)
  ultimately have "snapNext None (readerAt m pre (snapRecord rec @ rest) c) =
    (NextRec rec, (readerAt m (pre @ le 4 (length rec) @ le 4 (crc32c rec) @ rec) rest c)
      \<lparr>rCount := c + 1\<rparr>)"
    using n assms crc32c_less [of rec]
    by (simp add: snapNext_def Let_def readFull_at) (simp add: readerAt_def)
  then show ?thesis
    by (simp add: readerAt_def snapRecord_def)
qed

lemma snapNext_trailer:
  assumes "c < 2 ^ 64" and "smCount m = c" "smBodyLen m = length (pre @ snapTrailer c)"
    "smBodyCRC m = crc32c (pre @ snapTrailer c)"
  shows "\<exists>r. snapNext None (readerAt m pre (snapTrailer c) c) = (NextEOF, r)"
proof -
  let ?h = "le 4 snapTrailerMarker" and ?t = "le 8 c @ le 4 (crc32c (le 4 snapTrailerMarker @ le 8 c))"
  have c: "c < 256 ^ 8" and mk: "unle ?h = snapTrailerMarker"
    using assms(1) by (simp_all add: snap_consts)
  have tr: "snapTrailer c = ?h @ (?t @ [])"
    by (simp add: snapTrailer_def)
  have "readFull 12 (readerAt m (pre @ ?h) (?t @ []) c) = Some (?t, readerAt m (pre @ ?h @ ?t) [] c)"
    using readFull_at [of ?t 12 m "pre @ ?h" "[]" c] by simp
  moreover have "rRead (readerAt m (pre @ ?h @ ?t) [] c) = smBodyLen m"
      "unat (rCRC (readerAt m (pre @ ?h @ ?t) [] c)) = smBodyCRC m"
    using assms(3,4) by (simp_all add: readerAt_def tr crc32c_update)
  moreover have "rCount (readerAt m (pre @ ?h @ ?t) [] c) = c"
      "rMeta (readerAt m (pre @ ?h @ ?t) [] c) = m"
    by (simp_all add: readerAt_def)
  ultimately have "readTrailer ?h (readerAt m (pre @ ?h) (?t @ []) c) =
      (NextEOF, (readerAt m (pre @ ?h @ ?t) [] c)\<lparr>rDone := True\<rparr>)"
    using c assms(2) crc32c_less [of "le 4 snapTrailerMarker @ le 8 c"]
    by (simp add: readTrailer_def)
  then have "snapNext None (readerAt m pre (?h @ (?t @ [])) c) =
      (NextEOF, (readerAt m (pre @ ?h @ ?t) [] c)\<lparr>rDone := True\<rparr>)"
    using mk by (simp add: snapNext_def readFull_at Let_def) (simp add: readerAt_def)
  then show ?thesis
    unfolding tr by blast
qed

lemma readAllRecords_body:
  assumes "\<forall>r \<in> set recs. length r < maxSnapRecord" and "c + length recs < 2 ^ 64"
    and "smCount m = c + length recs"
    and "smBodyLen m = length (pre @ concat (map snapRecord recs) @ snapTrailer (c + length recs))"
    and "smBodyCRC m = crc32c (pre @ concat (map snapRecord recs) @ snapTrailer (c + length recs))"
  shows "readAllRecords
    (readerAt m pre (concat (map snapRecord recs) @ snapTrailer (c + length recs)) c) = Inr recs"
  using assms
proof (induction recs arbitrary: pre c)
  case Nil
  then obtain r where "snapNext None (readerAt m pre (snapTrailer c) c) = (NextEOF, r)"
    using snapNext_trailer [of c m pre] by auto
  then show ?case
    by (subst readAllRecords.simps) simp
next
  case (Cons rec recs)
  let ?rest = "concat (map snapRecord recs) @ snapTrailer (Suc c + length recs)"
  have step: "snapNext None (readerAt m pre (snapRecord rec @ ?rest) c) =
      (NextRec rec, readerAt m (pre @ snapRecord rec) ?rest (c + 1))"
    using Cons.prems(1) by (intro snapNext_record) simp
  have "readAllRecords (readerAt m (pre @ snapRecord rec) ?rest (c + 1)) = Inr recs"
    using Cons.IH [of "Suc c" "pre @ snapRecord rec"] Cons.prems by simp
  with step show ?case
    by (subst readAllRecords.simps) simp
qed

text \<open>Writing records one after the other.\<close>

fun writeRecords :: "bytes list \<Rightarrow> snapshotWriter \<Rightarrow> raft_err option \<times> snapshotWriter" where
  "writeRecords [] w = (None, w)"
| "writeRecords (r # rs) w = (case writeRecord None r w of
     (Some e, w1) \<Rightarrow> (Some e, w1)
   | (None, w1) \<Rightarrow> writeRecords rs w1)"

definition writerAt :: "bytes \<Rightarrow> nat \<Rightarrow> snapshotWriter" where
  "writerAt body c = \<lparr>wBody = body, wCRC = crcUpdate 0 body, wN = length body, wCount = c\<rparr>"

lemma writeRecords_at:
  assumes "writeRecords recs (writerAt body c) = (None, w)"
  shows "w = writerAt (body @ concat (map snapRecord recs)) (c + length recs) \<and>
    (\<forall>r \<in> set recs. length r < maxSnapRecord)"
  using assms
proof (induction recs arbitrary: body c)
  case (Cons r rs)
  have "writeRecord None r (writerAt body c) =
      (if length r \<ge> maxSnapRecord then (Some (ErrIO ''snapshot record too large''), writerAt body c)
       else (None, writerAt (body @ snapRecord r) (c + 1)))"
    by (simp add: writeRecord_def writerAt_def writeBody_def snapRecord_def Let_def)
  with Cons.prems have "length r < maxSnapRecord"
      "writeRecords rs (writerAt (body @ snapRecord r) (c + 1)) = (None, w)"
    by (auto split: if_splits)
  with Cons.IH [of "body @ snapRecord r" "c + 1"] show ?case by simp
qed simp

section \<open>Properties of the format\<close>

lemma finishWriter_reads:
  assumes w: "writeRecords recs createSnapshotWriter = (None, w)"
    and fin: "finishWriter G m w = Inr (m', file)" and st: "storableSnap m'"
    and gob: "\<forall>c cfg. gobEncode G c = Some cfg \<longrightarrow> gobDecode G cfg = Some c"
  shows "readSnapshotFile G (Some file) = Inr (m', recs)" "length file = FileSize m'"
proof -
  let ?body = "concat (map snapRecord recs)"
  let ?all = "?body @ snapTrailer (length recs)"
  have w': "w = writerAt ?body (length recs)" and sz: "\<forall>r \<in> set recs. length r < maxSnapRecord"
    using writeRecords_at [of recs "[]" 0 w] w by (simp_all add: createSnapshotWriter_def writerAt_def)
  obtain h where h: "encodeSnapHeader G m' = Inr h" "file = h @ ?all"
      and m': "m' = m\<lparr>smBodyLen := length ?all, smBodyCRC := crc32c ?all, smCount := length recs\<rparr>"
    using fin
    by (auto simp: finishWriter_def w' writerAt_def writeBody_def Let_def crc32c_update
        split: sum.splits)
  have dec: "decodeSnapHeader G h = Inr m'" "length h = snapHeaderSize"
    using decode_encodeSnapHeader [OF st h(1) gob] by auto
  show len: "length file = FileSize m'"
    using h(2) dec(2) m' FileSize_storable [OF assms(3)] by simp
  have "newSnapshotReader file m' = readerAt m' [] ?all 0"
    using h(2) dec(2) m' by (simp add: newSnapshotReader_def readerAt_def)
  moreover have "readAllRecords (readerAt m' [] ?all 0) = Inr recs"
    using readAllRecords_body [of recs 0 m' "[]"] sz st m' by (simp add: storableSnap_def)
  moreover have "openSnapshotFile G (Some file) = Inr (Some m')"
    using h(2) dec len by (simp add: openSnapshotFile_def)
  ultimately show "readSnapshotFile G (Some file) = Inr (m', recs)"
    by (simp add: readSnapshotFile_def)
qed

text \<open>A codec and a file that meet the hypotheses below.\<close>

definition exampleGob :: gob where
  "exampleGob = \<lparr>gobEncode = (\<lambda>c. if c = emptyConfiguration then Some [] else None),
     gobDecode = (\<lambda>b. if b = [] then Some emptyConfiguration else None),
     gobDecodeState = (\<lambda>_. None)\<rparr>"

definition exampleSnap :: snapshotMeta where
  "exampleSnap = \<lparr>smKind = payloadStream, smIndex = 5, smTerm = 2, smConfigIndex = 0,
     smConfig = emptyConfiguration, smID = 9, smBodyLen = 0, smBodyCRC = 0, smCount = 0\<rparr>"

lemma exampleSnap_finish:
  "\<exists>w m' file. writeRecords [[1], [2, 3]] createSnapshotWriter = (None, w) \<and>
     finishWriter exampleGob exampleSnap w = Inr (m', file) \<and> storableSnap m'"
proof -
  let ?recs = "[[1], [2, 3]] :: bytes list"
  obtain w where w: "writeRecords ?recs createSnapshotWriter = (None, w)"
    by (simp add: writeRecord_def maxSnapRecord_def Let_def)
  let ?all = "concat (map snapRecord ?recs) @ snapTrailer (length ?recs)"
  have "w = writerAt (concat (map snapRecord ?recs)) (length ?recs)"
    using writeRecords_at [of ?recs "[]" 0 w] w by (simp add: createSnapshotWriter_def writerAt_def)
  then have "\<exists>file. finishWriter exampleGob exampleSnap w =
      Inr (exampleSnap\<lparr>smBodyLen := length ?all, smBodyCRC := crc32c ?all, smCount := 2\<rparr>, file)"
    by (simp add: finishWriter_def writerAt_def writeBody_def Let_def crc32c_update
        encodeSnapHeader_def exampleGob_def exampleSnap_def snap_consts)
  moreover have "length ?all < 2 ^ 63" "crc32c ?all < 2 ^ 32"
    by (simp_all add: snapTrailer_def Let_def)
  ultimately show ?thesis
    using w by (fastforce simp: storableSnap_def exampleSnap_def payloadStream_def)
qed

text \<open>
  C22: a snapshot file finished by the writer verifies, and reading it to
  the end gives back exactly the meta and the records that were written, in order.
\<close>

theorem snapshot_roundtrip:
  assumes "writeRecords recs createSnapshotWriter = (None, w)"
    and "finishWriter G m w = Inr (m', file)" and "storableSnap m'"
    and "\<forall>c cfg. gobEncode G c = Some cfg \<longrightarrow> gobDecode G cfg = Some c"
  shows "verifySnapshotFile G (Some file) = Inr m' \<and>
    readSnapshotFile G (Some file) = Inr (m', recs)"
  using finishWriter_reads(1) [OF assms] by (simp add: verifySnapshotFile_def)

theorem snapshot_roundtrip_witness:
  "\<exists>w m' file. writeRecords [[1], [2, 3]] createSnapshotWriter = (None, w) \<and>
     finishWriter exampleGob exampleSnap w = Inr (m', file) \<and>
     readSnapshotFile exampleGob (Some file) = Inr (m', [[1], [2, 3]])"
proof -
  obtain w m' bs where f: "writeRecords [[1], [2, 3]] createSnapshotWriter = (None, w)"
      "finishWriter exampleGob exampleSnap w = Inr (m', bs)" "storableSnap m'"
    using exampleSnap_finish by blast
  have "\<forall>c cfg. gobEncode exampleGob c = Some cfg \<longrightarrow> gobDecode exampleGob cfg = Some c"
    by (simp add: exampleGob_def)
  from f snapshot_roundtrip [OF f this] show ?thesis by blast
qed

text \<open>
  C23: a file cut short anywhere is refused when it is opened, whatever
  part of it is missing.
\<close>

theorem snapshot_truncated:
  assumes "writeRecords recs createSnapshotWriter = (None, w)"
    and "finishWriter G m w = Inr (m', file)" and "storableSnap m'"
    and "\<forall>c cfg. gobEncode G c = Some cfg \<longrightarrow> gobDecode G cfg = Some c"
    and "strict_prefix t file"
  shows "\<exists>why. verifySnapshotFile G (Some t) = Inl (ErrCorrupt why)"
proof -
  obtain u where u: "file = t @ u" "u \<noteq> []"
    using assms(5) by (auto simp: strict_prefix_def prefix_def)
  have len: "length file = FileSize m'" and rd: "readSnapshotFile G (Some file) = Inr (m', recs)"
    using finishWriter_reads [OF assms(1-4)] by auto
  have dec: "decodeSnapHeader G (take snapHeaderSize file) = Inr m'"
    using rd by (auto simp: readSnapshotFile_def openSnapshotFile_def
        split: sum.splits option.splits if_splits)
  have "\<exists>why. openSnapshotFile G (Some t) = Inl (ErrCorrupt why)"
  proof (cases "length t < snapHeaderSize")
    case False
    then have "take snapHeaderSize t = take snapHeaderSize file"
      using u by simp
    moreover have "length t < length file"
      using u by simp
    ultimately show ?thesis
      using False dec len by (simp add: openSnapshotFile_def)
  qed (simp add: openSnapshotFile_def)
  then show ?thesis
    by (auto simp: verifySnapshotFile_def readSnapshotFile_def)
qed

theorem snapshot_truncated_witness:
  "\<exists>w m' file. finishWriter exampleGob exampleSnap w = Inr (m', file) \<and>
     (\<exists>why. verifySnapshotFile exampleGob (Some (butlast file)) = Inl (ErrCorrupt why))"
proof -
  obtain w m' bs where f: "writeRecords [[1], [2, 3]] createSnapshotWriter = (None, w)"
      "finishWriter exampleGob exampleSnap w = Inr (m', bs)" "storableSnap m'"
    using exampleSnap_finish by blast
  have gob: "\<forall>c cfg. gobEncode exampleGob c = Some cfg \<longrightarrow> gobDecode exampleGob cfg = Some c"
    by (simp add: exampleGob_def)
  have "bs \<noteq> []"
    using finishWriter_reads(2) [OF f gob] by (auto simp: FileSize_storable [OF f(3)] snapHeaderSize_def)
  then have "strict_prefix (butlast bs) bs"
    by (cases bs rule: rev_cases) (auto simp: strict_prefix_def)
  then show ?thesis
    using f(2) snapshot_truncated [OF f gob] by blast
qed

end
