(* ===== verification/RaftMembership.thy ===== *)
theory RaftMembership
  imports RaftApply SnapshotFile
begin

text \<open>
  Online membership changes (\<open>src/consensus/membership.go\<close>): proposing a configuration entry,
  adding a learner, promoting it to voter, removing a member. \<open>AddMember\<close> and \<open>RemoveMember\<close>
  release the lock while they wait for contact with a quorum, so each is a check before the
  wait and a proposal after it.
\<close>

definition quorumContactWindow :: int where "quorumContactWindow = 2 * electionTimeoutMax"
definition promoteRoundMax :: int where "promoteRoundMax = 10 ^ 9"

definition leaderContactGrace :: int where "leaderContactGrace = 2 * electionTimeoutMax"

definition maxConfigBytes :: nat where
  "maxConfigBytes = snapHeaderCRCOff - snapHeaderFixed - 64"

definition reachableQuorumLocked :: "int \<Rightarrow> Configuration \<Rightarrow> RaftNode \<Rightarrow> bool" where
  "reachableQuorumLocked now cfg rn \<longleftrightarrow>
     length (filter (\<lambda>s. s = rnId rn \<or>
         (case lastAck rn s of None \<Rightarrow> False | Some t \<Rightarrow> now - t \<le> quorumContactWindow))
       (Servers cfg)) \<ge> length (Servers cfg) div 2 + 1"

definition proposeConfigLocked ::
  "gob \<Rightarrow> Configuration \<Rightarrow> RaftNode \<Rightarrow> (raft_err + LogEntry \<times> nat) \<times> RaftNode" where
  "proposeConfigLocked G nxt rn = (case gobEncode G nxt of
     None \<Rightarrow> (Inl ErrEncodeConfiguration, rn)
   | Some cmd \<Rightarrow>
       if length cmd > maxConfigBytes then (Inl ErrConfigTooLarge, rn)
       else
         let ((entry, ch), rn1) = appendEntryLocked EntryConfig cmd rn;
             (err, rn2) = enqueueLocked [entry] rn1
         in case err of
              Some e \<Rightarrow>
                (Inl (ErrPersistLog e),
                 (setLog (butlast (rlog rn2)) rn2)
                   \<lparr>waiters := filter (\<lambda>(i, c). i \<noteq> eIndex entry) (waiters rn2)\<rparr>)
            | None \<Rightarrow>
                (Inr (entry, ch),
                 kickReplicatorsOnAppendLocked
                   (kickSyncerLocked (setConfig nxt (eIndex entry) rn2))))"

definition beginChangeLocked :: "RaftNode \<Rightarrow> raft_err option" where
  "beginChangeLocked rn =
     (if role rn \<noteq> RoleLeader then Some ErrNotLeader
      else if configIndex rn > commitIndex rn then Some ErrConfigChangeInProgress
      else None)"

text \<open>
  One pass of \<open>waitQuorumLocked\<close>'s loop. \<open>WaitMore\<close> is the sleep with \<open>rn.mu\<close> released;
  the other outcomes keep the lock, so what the caller does next is in the same section.
\<close>

datatype wait_poll = WaitYes | WaitNo | WaitMore

definition waitQuorumLocked :: "int \<Rightarrow> int \<Rightarrow> Configuration \<Rightarrow> RaftNode \<Rightarrow> wait_poll" where
  "waitQuorumLocked now deadline cfg rn =
     (if reachableQuorumLocked now cfg rn then WaitYes
      else if now > deadline \<or> role rn \<noteq> RoleLeader then WaitNo
      else WaitMore)"

text \<open>Where a membership call stands after one section under \<open>rn.mu\<close>.\<close>

datatype change =
    ChangeErr raft_err
  | ChangeWaitQuorum int
  | ChangeWaitApplied LogEntry nat
  | ChangeWaitPromoted

definition proposed :: "(raft_err + LogEntry \<times> nat) \<times> RaftNode \<Rightarrow> change \<times> RaftNode" where
  "proposed r = (case r of
     (Inl e, rn) \<Rightarrow> (ChangeErr e, rn)
   | (Inr (entry, ch), rn) \<Rightarrow> (ChangeWaitApplied entry ch, rn))"

definition addrOf :: "Configuration \<Rightarrow> string \<Rightarrow> string" where
  "addrOf c i = (case map_of (Addrs c) i of None \<Rightarrow> [] | Some a \<Rightarrow> a)"

definition fillAddrs :: "(string \<times> string) list \<Rightarrow> Configuration \<Rightarrow> Configuration" where
  "fillAddrs known nxt =
     fold (\<lambda>(m, a) c. if IsMember c m \<and> addrOf c m = [] \<and> a \<noteq> []
                      then c\<lparr>Addrs := AList.update m a (Addrs c)\<rparr> else c) known nxt"

definition withLearner ::
  "string \<Rightarrow> string \<Rightarrow> (string \<times> string) list \<Rightarrow> Configuration \<Rightarrow> Configuration" where
  "withLearner i addr known c =
     (let nxt = fillAddrs known (c\<lparr>Learners := Learners c @ [i]\<rparr>)
      in if addr \<noteq> [] then nxt\<lparr>Addrs := AList.update i addr (Addrs nxt)\<rparr> else nxt)"

definition AddMember_resume ::
  "gob \<Rightarrow> int \<Rightarrow> int \<Rightarrow> string \<Rightarrow> string \<Rightarrow> (string \<times> string) list \<Rightarrow> RaftNode \<Rightarrow>
   change \<times> RaftNode" where
  "AddMember_resume G now deadline i addr known rn =
     (case waitQuorumLocked now deadline (config rn) rn of
        WaitMore \<Rightarrow> (ChangeWaitQuorum deadline, rn)
      | WaitNo \<Rightarrow> (ChangeErr ErrNoQuorum, rn)
      | WaitYes \<Rightarrow> (case beginChangeLocked rn of
            Some e \<Rightarrow> (ChangeErr e, rn)
          | None \<Rightarrow> proposed (proposeConfigLocked G (withLearner i addr known (config rn)) rn)))"

definition AddMember ::
  "gob \<Rightarrow> int \<Rightarrow> string \<Rightarrow> string \<Rightarrow> (string \<times> string) list \<Rightarrow> RaftNode \<Rightarrow> change \<times> RaftNode" where
  "AddMember G now i addr known rn =
     (if i = [] then (ChangeErr ErrEmptyMemberID, rn)
      else case beginChangeLocked rn of
        Some e \<Rightarrow> (ChangeErr e, rn)
      | None \<Rightarrow>
          if containsVoter (config rn) i then (ChangeErr ErrMemberExists, rn)
          else if isLearner (config rn) i
          then if addr \<noteq> [] \<and> addrOf (config rn) i \<noteq> [] \<and> addrOf (config rn) i \<noteq> addr
               then (ChangeErr ErrMemberExists, rn)
               else (ChangeWaitPromoted, rn)
          else AddMember_resume G now (now + leaderContactGrace) i addr known rn)"

text \<open>One pass of \<open>waitPromoted\<close>: \<open>None\<close> sleeps; \<open>done\<close> is the node's stop channel.\<close>

definition waitPromoted :: "int \<Rightarrow> int \<Rightarrow> string \<Rightarrow> RaftNode \<Rightarrow> (raft_err + unit) option" where
  "waitPromoted now deadline i rn =
     (if containsVoter (config rn) i \<and> configIndex rn \<le> commitIndex rn then Some (Inr ())
      else if \<not> IsMember (config rn) i then Some (Inl ErrRemovedWhileCatchingUp)
      else if now > deadline then Some (Inl ErrPromotionPending)
      else if stopped rn then Some (Inl ErrStopped)
      else None)"

definition withoutMember :: "string \<Rightarrow> Configuration \<Rightarrow> Configuration" where
  "withoutMember i c =
     c\<lparr>Servers := removeID (Servers c) i, Learners := removeID (Learners c) i,
       Addrs := AList.delete i (Addrs c)\<rparr>"

definition RemoveMember_propose :: "gob \<Rightarrow> string \<Rightarrow> RaftNode \<Rightarrow> change \<times> RaftNode" where
  "RemoveMember_propose G i rn = (case beginChangeLocked rn of
     Some e \<Rightarrow> (ChangeErr e, rn)
   | None \<Rightarrow>
       if \<not> IsMember (config rn) i then (ChangeErr ErrMemberNotFound, rn)
       else proposed (proposeConfigLocked G (withoutMember i (config rn)) rn))"

definition RemoveMember_resume ::
  "gob \<Rightarrow> int \<Rightarrow> int \<Rightarrow> string \<Rightarrow> RaftNode \<Rightarrow> change \<times> RaftNode" where
  "RemoveMember_resume G now deadline i rn =
     (case waitQuorumLocked now deadline (withoutMember i (config rn)) rn of
        WaitMore \<Rightarrow> (ChangeWaitQuorum deadline, rn)
      | WaitNo \<Rightarrow> (ChangeErr ErrNoQuorum, rn)
      | WaitYes \<Rightarrow> RemoveMember_propose G i rn)"

definition RemoveMember :: "gob \<Rightarrow> int \<Rightarrow> string \<Rightarrow> RaftNode \<Rightarrow> change \<times> RaftNode" where
  "RemoveMember G now i rn = (case beginChangeLocked rn of
     Some e \<Rightarrow> (ChangeErr e, rn)
   | None \<Rightarrow>
       if \<not> IsMember (config rn) i then (ChangeErr ErrMemberNotFound, rn)
       else if containsVoter (config rn) i \<and> length (Servers (config rn)) = 1
       then (ChangeErr ErrLastVoter, rn)
       else if containsVoter (config rn) i
       then RemoveMember_resume G now (now + leaderContactGrace) i rn
       else RemoveMember_propose G i rn)"

text \<open>Promotion of caught-up learners, one configuration change at a time.\<close>

fun promoteLoop :: "gob \<Rightarrow> int \<Rightarrow> string list \<Rightarrow> RaftNode \<Rightarrow> RaftNode" where
  "promoteLoop G now [] rn = rn"
| "promoteLoop G now (i # ids) rn =
     (if i = rnId rn then promoteLoop G now ids rn
      else
        let fresh = rn\<lparr>learnerRounds :=
              (learnerRounds rn)(i \<mapsto> \<lparr>lrTarget = lastLogIndex rn, lrStart = now\<rparr>)\<rparr>
        in case learnerRounds rn i of
             None \<Rightarrow> promoteLoop G now ids fresh
           | Some r \<Rightarrow>
               if matchIndex rn i < lrTarget r then promoteLoop G now ids rn
               else if now - lrStart r > promoteRoundMax then promoteLoop G now ids fresh
               else
                 let nxt = (config rn)\<lparr>Learners := removeID (Learners (config rn)) i,
                                       Servers := Servers (config rn) @ [i]\<rparr>
                 in if \<not> reachableQuorumLocked now nxt rn then promoteLoop G now ids fresh
                    else case proposeConfigLocked G nxt rn of
                      (Inl _, rn1) \<Rightarrow> rn1
                    | (Inr _, rn1) \<Rightarrow>
                        rn1\<lparr>learnerRounds := (learnerRounds rn1)(i := None)\<rparr>)"

definition maybePromoteLearnersLocked :: "gob \<Rightarrow> int \<Rightarrow> RaftNode \<Rightarrow> RaftNode" where
  "maybePromoteLearnersLocked G now rn =
     (if role rn \<noteq> RoleLeader then rn
      else if Learners (config rn) = [] then rn\<lparr>learnerRounds := (\<lambda>_. None)\<rparr>
      else
        let rn1 = rn\<lparr>learnerRounds :=
              (\<lambda>i. if isLearner (config rn) i then learnerRounds rn i else None)\<rparr>
        in if configIndex rn1 > commitIndex rn1 then rn1
           else promoteLoop G now (Learners (config rn1)) rn1)"

definition tickHeartbeat :: "gob \<Rightarrow> int \<Rightarrow> RaftNode \<Rightarrow> RaftNode" where
  "tickHeartbeat G now rn =
     (if role rn = RoleLeader
      then maybePromoteLearnersLocked G now (heartbeatLocked rn) else rn)"

definition AddPeer :: "string \<Rightarrow> RaftNode \<Rightarrow> RaftNode" where
  "AddPeer i rn =
     (if containsVoter (config rn) i then rn
      else
        let rn1 = (if \<not> containsVoter (baseConfig rn) i
                   then rn\<lparr>baseConfig := (baseConfig rn)\<lparr>Servers := Servers (baseConfig rn) @ [i]\<rparr>\<rparr>
                   else rn)
        in setConfig ((config rn)\<lparr>Servers := Servers (config rn) @ [i]\<rparr>) (configIndex rn) rn1)"

end
