(* ===== verification/RaftSnapshot.thy ===== *)
theory RaftSnapshot
  imports RaftMembership
begin

text \<open>
  Log compaction and InstallSnapshot (\<open>src/consensus/snapshot.go\<close>). Capturing and restoring
  the state machine is the state machine's own code; what Raft does around it is modelled:
  the fence that labels a capture, the truncation of the covered prefix, the chunked transfer
  on both sides, and the install. Long operations run outside \<open>rn.mu\<close>; each section under the
  lock is one function. The single-shot transfer to older followers is not modelled.
\<close>

section \<open>Capture and compaction\<close>

definition maybeSnapshot :: "int \<Rightarrow> RaftNode \<Rightarrow> bool \<times> RaftNode" where
  "maybeSnapshot now rn =
     (if snapshotThreshold rn = 0 \<or> \<not> snapCapable rn then (False, rn)
      else
        let trigger = (\<not> snapshotting rn \<and> length (rlog rn) \<ge> snapshotThreshold rn \<and>
              lastApplied rn > lastIncludedIndex rn \<and>
              (case captureRetryAt rn of None \<Rightarrow> True | Some t \<Rightarrow> now \<ge> t))
        in if trigger \<and> \<not> stopped rn then (True, rn\<lparr>snapshotting := True\<rparr>) else (False, rn))"

datatype fence_result = FenceNotDue | FenceNoTerm | FenceAt nat nat Configuration nat

definition snapFence :: "gob \<Rightarrow> RaftNode \<Rightarrow> fence_result" where
  "snapFence G rn =
     (let idx = lastApplied rn
      in if idx \<le> lastIncludedIndex rn then FenceNotDue
         else let term = logTerm rn idx; (cfg, cfgIdx) = configAt G rn idx
           in if term = 0 then FenceNoTerm else FenceAt idx term cfg cfgIdx)"

definition compactLocked ::
  "atomic_outcome \<Rightarrow> bool \<Rightarrow> snapshotMeta \<Rightarrow> RaftNode \<Rightarrow> RaftNode" where
  "compactLocked out reopenOk meta rn =
     (if smIndex meta > lastIncludedIndex rn
      then
        let first = logFirstIndex rn;
            rn1 = (if smIndex meta \<ge> first
                   then setLog (drop (smIndex meta - first + 1) (rlog rn)) rn else rn);
            rn2 = rn1\<lparr>lastIncludedIndex := smIndex meta, lastIncludedTerm := smTerm meta,
                      baseConfig := smConfig meta, baseConfigIndex := smConfigIndex meta\<rparr>
        in snd (rewriteLogLocked out reopenOk rn2)
      else rn)"

definition captureRetryMax :: int where "captureRetryMax = 60 * 10 ^ 9"

definition captureEnd :: "bool \<Rightarrow> int \<Rightarrow> RaftNode \<Rightarrow> RaftNode" where
  "captureEnd ok now rn =
     (let rn1 = rn\<lparr>snapshotting := False\<rparr>
      in if ok then rn1\<lparr>captureFailures := 0, captureRetryAt := None\<rparr>
         else let n = captureFailures rn1 + 1;
                  back = 2 ^ min n 16 * (100 * 10 ^ 6) :: int
           in rn1\<lparr>captureFailures := n,
                  captureRetryAt := Some (now + (if back > captureRetryMax then captureRetryMax else back))\<rparr>)"

text \<open>
  The end of \<open>takeSnapshot\<close>: the finished file replaces \<open>raft_snapshot.dat\<close>, then the covered
  prefix of the log goes.
\<close>

definition takeSnapshot_install ::
  "atomic_outcome \<Rightarrow> atomic_outcome \<Rightarrow> bool \<Rightarrow> int \<Rightarrow> snapshotMeta \<Rightarrow> bytes \<Rightarrow> RaftNode \<Rightarrow> RaftNode" where
  "takeSnapshot_install rename out reopenOk now meta bs rn = (case rename of
     AtomicOk \<Rightarrow> captureEnd True now (compactLocked out reopenOk meta (rn\<lparr>snapFile := Some bs\<rparr>))
   | AtomicFail \<Rightarrow> captureEnd False now rn
   | AtomicDirSyncFail \<Rightarrow> captureEnd False now (rn\<lparr>snapFile := Some bs\<rparr>))"

section \<open>Leader: transfer\<close>

definition capSnapshotChunks :: nat where "capSnapshotChunks = 1"
definition snapshotRetryMax :: int where "snapshotRetryMax = 10 ^ 9"
definition DefaultSnapshotChunkSize :: nat where "DefaultSnapshotChunkSize = 2 * 2 ^ 20"

definition sendSnapshot_begin :: "string \<Rightarrow> nat \<Rightarrow> RaftNode \<Rightarrow> bool \<times> RaftNode" where
  "sendSnapshot_begin peer term rn =
     (if snapInFlight rn peer \<or> role rn \<noteq> RoleLeader \<or> curTerm rn \<noteq> term then (False, rn)
      else (capsKnown rn peer, rn\<lparr>snapInFlight := (snapInFlight rn)(peer := True)\<rparr>))"

definition sendSnapshot_end :: "string \<Rightarrow> nat \<Rightarrow> snapshotMeta \<Rightarrow> RaftNode \<Rightarrow> bool \<times> RaftNode" where
  "sendSnapshot_end peer term meta rn =
     (if role rn \<noteq> RoleLeader \<or> curTerm rn \<noteq> term then (False, rn)
      else
        let rn1 = (if smIndex meta > matchIndex rn peer
                   then rn\<lparr>matchIndex := (matchIndex rn)(peer := smIndex meta)\<rparr> else rn);
            rn2 = (if nextIndex rn1 peer \<le> smIndex meta
                   then rn1\<lparr>nextIndex := (nextIndex rn1)(peer := smIndex meta + 1)\<rparr> else rn1)
        in (True, maybeAdvanceCommit rn2))"

definition sendSnapshot_release :: "string \<Rightarrow> RaftNode \<Rightarrow> RaftNode" where
  "sendSnapshot_release peer rn = rn\<lparr>snapInFlight := (snapInFlight rn)(peer := False)\<rparr>"

definition transferEnd :: "nat \<Rightarrow> bool \<Rightarrow> bool \<Rightarrow> int \<Rightarrow> RaftNode \<Rightarrow> RaftNode" where
  "transferEnd r installed confirmed now rn =
     updPR r (\<lambda>pr. wake (let pr1 = pr\<lparr>prSnapshotting := False, prEpoch := prEpoch pr + 1,
                                      prProbing := True\<rparr>
                         in if (\<not> installed \<or> \<not> confirmed) \<and> \<not> prStopped pr1
                            then pr1\<lparr>prSnapRetryAt := Some (now + snapshotRetryMax)\<rparr> else pr1)) rn"

definition restartTransfer :: "string \<Rightarrow> snapshotMeta \<Rightarrow> nat \<Rightarrow> RaftNode \<Rightarrow> bool" where
  "restartTransfer peer meta off rn =
     (if capsKnown rn peer \<and> even (peerCaps rn peer) then True
      else off = 0 \<and> lastIncludedIndex rn > smIndex meta)"

definition stillLeading :: "nat \<Rightarrow> nat \<Rightarrow> RaftNode \<Rightarrow> bool \<times> RaftNode" where
  "stillLeading term replyTerm rn =
     (if replyTerm > curTerm rn then (False, becomeFollower replyTerm rn)
      else (\<not> stopped rn \<and> role rn = RoleLeader \<and> curTerm rn = term, rn))"

record InstallSnapshotChunkArgs =
  icTerm :: nat
  icLeaderID :: string
  icIndex :: nat
  icLastTerm :: nat
  icID :: nat
  icSize :: nat
  icOffset :: nat
  icData :: bytes
  icDone :: bool

record InstallSnapshotChunkReply =
  icrTerm :: nat
  icrNextOffset :: nat
  icrInstalling :: bool
  icrInstalled :: bool
  icrBusy :: bool
  icrFailed :: bool

text \<open>The request the leader sends at offset \<open>off\<close> of the pinned file \<open>bs\<close>.\<close>

definition chunkArgs ::
  "nat \<Rightarrow> string \<Rightarrow> snapshotMeta \<Rightarrow> nat \<Rightarrow> bytes \<Rightarrow> nat \<Rightarrow> InstallSnapshotChunkArgs" where
  "chunkArgs term leader meta chunk bs off =
     (let size = FileSize meta; n = (if off + chunk > size then size - off else chunk)
      in \<lparr>icTerm = term, icLeaderID = leader, icIndex = smIndex meta, icLastTerm = smTerm meta,
          icID = smID meta, icSize = size, icOffset = off,
          icData = (if off < size then take n (drop off bs) else []),
          icDone = (if off < size then off + n = size else True)\<rparr>)"

datatype chunk_next = ChunkInstalled | ChunkFailed | ChunkAt nat

definition chunkReply :: "nat \<Rightarrow> InstallSnapshotChunkReply \<Rightarrow> chunk_next" where
  "chunkReply sz reply =
     (if icrInstalled reply then ChunkInstalled
      else if icrFailed reply then ChunkFailed
      else if icrInstalling reply \<or> icrBusy reply then ChunkAt sz
      else ChunkAt (if icrNextOffset reply > sz then 0 else icrNextOffset reply))"

text \<open>
  One round of \<open>sendSnapshotChunks\<close>: the request, prepared after the check that the node
  still leads, and what the reply makes of the offset. \<open>None\<close> for the reply is a send that
  failed; \<open>sleepOk\<close> is false when the wait before the next round is cut short by a stop.
\<close>

definition sendSnapshotChunks_prepare ::
  "bool \<Rightarrow> bool \<Rightarrow> nat \<Rightarrow> nat \<Rightarrow> snapshotMeta \<Rightarrow> bytes \<Rightarrow> nat \<Rightarrow> RaftNode \<Rightarrow>
   InstallSnapshotChunkArgs option \<times> RaftNode" where
  "sendSnapshotChunks_prepare cancelled readOk term chunkSize meta bs off rn =
     (if cancelled then (None, rn)
      else
        let chunk = (if chunkSize = 0 then DefaultSnapshotChunkSize else chunkSize);
            (leading, rn1) = stillLeading term 0 rn
        in if \<not> leading \<or> (off < FileSize meta \<and> \<not> readOk) then (None, rn1)
           else (Some (chunkArgs term (rnId rn1) meta chunk bs off), rn1))"

datatype chunk_step = ChunkStop bool | ChunkNext nat

definition sendSnapshotChunks_reply ::
  "string \<Rightarrow> nat \<Rightarrow> snapshotMeta \<Rightarrow> InstallSnapshotChunkArgs \<Rightarrow> InstallSnapshotChunkReply option \<Rightarrow>
   bool \<Rightarrow> RaftNode \<Rightarrow> chunk_step \<times> RaftNode" where
  "sendSnapshotChunks_reply peer term meta args reply sleepOk rn = (case reply of
     None \<Rightarrow>
       (if restartTransfer peer meta (icOffset args) rn \<or> \<not> sleepOk then ChunkStop False
        else ChunkNext (icOffset args), rn)
   | Some r \<Rightarrow>
       let (leading, rn1) = stillLeading term (icrTerm r) rn
       in (if \<not> leading then ChunkStop False
           else case chunkReply (FileSize meta) r of
               ChunkInstalled \<Rightarrow> ChunkStop True
             | ChunkFailed \<Rightarrow> ChunkStop False
             | ChunkAt nxt \<Rightarrow>
                 if (icrInstalling r \<or> icrBusy r \<or> (nxt \<le> icOffset args \<and> icData args \<noteq> [])) \<and>
                    \<not> sleepOk
                 then ChunkStop False else ChunkNext nxt, rn1))"

section \<open>Follower: receive\<close>

definition matches :: "snapRecv \<Rightarrow> InstallSnapshotChunkArgs \<Rightarrow> bool" where
  "matches st a \<longleftrightarrow> srIndex st = icIndex a \<and> srTerm st = icLastTerm a \<and> srID st = icID a \<and>
     srSize st = icSize a"

definition acceptLeaderLocked :: "int \<Rightarrow> nat \<Rightarrow> string \<Rightarrow> RaftNode \<Rightarrow> bool \<times> RaftNode" where
  "acceptLeaderLocked now term leader rn =
     (if stopped rn \<or> term < curTerm rn then (False, rn)
      else
        let (err, rn1) = (if term > curTerm rn then persistMetaLocked (becomeFollower term rn)
                          else (None, rn))
        in if err \<noteq> None then (False, rn1)
           else (True, noteLeaderContactLocked now
                  (resetElectionTimer (rn1\<lparr>role := RoleFollower, LeaderID := leader\<rparr>))))"

text \<open>A chunk for the transfer \<open>st\<close>; the whole file starts the install goroutine.\<close>

definition receiveChunk ::
  "bool \<Rightarrow> InstallSnapshotChunkArgs \<Rightarrow> snapRecv \<Rightarrow> InstallSnapshotChunkReply \<Rightarrow> RaftNode \<Rightarrow>
   InstallSnapshotChunkReply \<times> RaftNode" where
  "receiveChunk writeOk args st reply rn =
     (if icOffset args \<noteq> srWritten st \<or> srWritten st + length (icData args) > srSize st
      then (reply\<lparr>icrNextOffset := srWritten st\<rparr>, rn\<lparr>recv := Some st\<rparr>)
      else if icData args \<noteq> [] \<and> \<not> writeOk then (reply, rn\<lparr>recv := None\<rparr>)
      else
        let st1 = st\<lparr>srFile := srFile st @ icData args,
                     srWritten := srWritten st + length (icData args)\<rparr>;
            reply1 = reply\<lparr>icrNextOffset := srWritten st1\<rparr>
        in if \<not> icDone args \<or> srWritten st1 \<noteq> srSize st1
           then (reply1, rn\<lparr>recv := Some st1\<rparr>)
           else if stopped rn
           then (reply1, rn\<lparr>recv := Some (st1\<lparr>srState := recvFailed\<rparr>)\<rparr>)
           else (reply1\<lparr>icrInstalling := True\<rparr>,
                 rn\<lparr>recv := Some (st1\<lparr>srState := recvInstalling\<rparr>),
                    installing := installing rn + 1\<rparr>))"

definition HandleInstallSnapshotChunk ::
  "int \<Rightarrow> bool \<Rightarrow> bool \<Rightarrow> InstallSnapshotChunkArgs \<Rightarrow> RaftNode \<Rightarrow>
   InstallSnapshotChunkReply \<times> RaftNode" where
  "HandleInstallSnapshotChunk now openOk writeOk args rn =
     (let reply0 = \<lparr>icrTerm = curTerm rn, icrNextOffset = 0, icrInstalling = False,
                    icrInstalled = False, icrBusy = False, icrFailed = False\<rparr>
      in if legacyPeer rn then (reply0, rn)
         else
           let (ok, rn1) = acceptLeaderLocked now (icTerm args) (icLeaderID args) rn
           in if \<not> ok then (reply0, rn1)
              else
                let reply = reply0\<lparr>icrTerm := curTerm rn1\<rparr>;
                    covered = (icIndex args \<le> lastIncludedIndex rn1 \<or>
                               icIndex args \<le> lastApplied rn1);
                    fresh = \<lparr>srIndex = icIndex args, srTerm = icLastTerm args,
                             srID = icID args, srSize = icSize args, srFile = [],
                             srWritten = 0, srState = recvReceiving\<rparr>;
                    start = (if covered then (reply\<lparr>icrInstalled := True\<rparr>, rn1)
                             else if (case recv rn1 of None \<Rightarrow> False
                                      | Some st \<Rightarrow> srState st = recvInstalling)
                             then (reply\<lparr>icrBusy := True\<rparr>, rn1)
                             else if icOffset args \<noteq> 0 then (reply, rn1)
                             else if \<not> openOk then (reply, rn1\<lparr>recv := None\<rparr>)
                             else receiveChunk writeOk args fresh reply rn1)
                in case recv rn1 of
                     None \<Rightarrow> start
                   | Some st \<Rightarrow>
                       if \<not> matches st args then start
                       else (case srState st of
                           recvInstalling \<Rightarrow> (reply\<lparr>icrInstalling := True\<rparr>, rn1)
                         | recvInstalled \<Rightarrow> (reply\<lparr>icrInstalled := True\<rparr>, rn1)
                         | recvFailed \<Rightarrow> (reply\<lparr>icrFailed := True\<rparr>, rn1\<lparr>recv := None\<rparr>)
                         | recvReceiving \<Rightarrow> receiveChunk writeOk args st reply rn1))"

text \<open>The checks the install goroutine makes on the received file.\<close>

definition verifyReceived :: "gob \<Rightarrow> bool \<Rightarrow> bool \<Rightarrow> snapRecv \<Rightarrow> raft_err + snapshotMeta" where
  "verifyReceived G syncOk renameOk st =
     (if \<not> syncOk then Inl (ErrIO ''sync'')
      else case verifySnapshotFile G (Some (srFile st)) of
        Inl e \<Rightarrow> Inl e
      | Inr meta \<Rightarrow>
          if \<not> (smIndex meta = srIndex st \<and> smTerm meta = srTerm st \<and> smID meta = srID st \<and>
                smBodyLen meta = srSize st - snapHeaderSize)
          then Inl (ErrCorrupt ''header does not match the transfer'')
          else if \<not> renameOk then Inl (ErrIO ''rename'') else Inr meta)"

definition finishReceive :: "recvState \<Rightarrow> RaftNode \<Rightarrow> RaftNode" where
  "finishReceive st rn =
     rn\<lparr>recv := map_option (\<lambda>r. r\<lparr>srState := st\<rparr>) (recv rn), installing := installing rn - 1\<rparr>"

section \<open>Install\<close>

definition installStale :: "snapshotMeta \<Rightarrow> RaftNode \<Rightarrow> bool" where
  "installStale meta rn \<longleftrightarrow> smIndex meta \<le> lastIncludedIndex rn \<or> smIndex meta \<le> lastApplied rn"

definition installLog ::
  "gob \<Rightarrow> atomic_outcome \<Rightarrow> bool \<Rightarrow> snapshotMeta \<Rightarrow> RaftNode \<Rightarrow>
   (nat \<times> AppendEntriesReply) list \<times> RaftNode" where
  "installLog G out reopenOk meta rn =
     (let rn1 = setLog (if smIndex meta < lastLogIndex rn \<and> logTerm rn (smIndex meta) = smTerm meta
                        then entriesFrom rn (smIndex meta + 1) else []) rn;
          rn2 = rn1\<lparr>lastIncludedIndex := smIndex meta, lastIncludedTerm := smTerm meta,
                    commitIndex := (if commitIndex rn1 < smIndex meta then smIndex meta
                                    else commitIndex rn1),
                    baseConfig := smConfig meta, baseConfigIndex := smConfigIndex meta\<rparr>;
          rn3 = snd (rewriteLogLocked out reopenOk (refreshConfigFromLog G rn2))
      in takeDecidedWaitersLocked rn3)"

text \<open>
  The restore loop. \<open>err\<close> is the error variable of the code, declared outside the loop and
  assigned by \<open>BeginRestore\<close> only when the state machine records an applied index. The list
  gives the outcome of each attempt; when it ends, the node is stopping.
\<close>

datatype restore_try = BeginFails | RestoreFails | RestoreOk

fun restoreLoop ::
  "bool \<Rightarrow> snapshotMeta \<Rightarrow> bool \<Rightarrow> restore_try list \<Rightarrow> sm_call list \<Rightarrow> bool \<times> sm_call list" where
  "restoreLoop applied meta err [] calls = (False, calls)"
| "restoreLoop applied meta err (t # ts) calls =
     (let err1 = (if applied then t = BeginFails else err);
          calls1 = (if applied then calls @ [SMBeginRestore] else calls);
          (err2, calls2) = (if \<not> err1
             then (t = RestoreFails, calls1 @ [SMRestore (smIndex meta) (smTerm meta)])
             else (err1, calls1))
      in if \<not> err2 then (True, calls2) else restoreLoop applied meta err2 ts calls2)"

definition installApplied :: "snapshotMeta \<Rightarrow> RaftNode \<Rightarrow> RaftNode" where
  "installApplied meta rn =
     notifyApplier (if lastApplied rn < smIndex meta then rn\<lparr>lastApplied := smIndex meta\<rparr> else rn)"

definition installSnapshot ::
  "gob \<Rightarrow> atomic_outcome \<Rightarrow> atomic_outcome \<Rightarrow> bool \<Rightarrow> restore_try list \<Rightarrow> snapshotMeta \<Rightarrow> bytes \<Rightarrow>
   RaftNode \<Rightarrow> raft_err option \<times> (nat \<times> AppendEntriesReply) list \<times> RaftNode" where
  "installSnapshot G rename out reopenOk tries meta bs rn =
     (if stopped rn then (Some ErrStopped, [], resetElectionTimer rn)
      else if installStale meta rn then (None, [], resetElectionTimer rn)
      else if rename \<noteq> AtomicOk
      then (Some (ErrIO ''persist snapshot''), [],
            resetElectionTimer (if rename = AtomicDirSyncFail then rn\<lparr>snapFile := Some bs\<rparr> else rn))
      else
        let (decided, rn1) = installLog G out reopenOk meta (rn\<lparr>snapFile := Some bs\<rparr>);
            (ok, calls) = restoreLoop (hasAppliedSM rn1) meta False tries (smCalls rn1);
            rn2 = rn1\<lparr>smCalls := calls\<rparr>
        in if \<not> ok then (Some ErrStopped, decided, resetElectionTimer rn2)
           else
             let rn3 = (if hasAppliedSM rn2
                        then rn2\<lparr>smCalls := smCalls rn2 @
                                  [SMSetApplied (smIndex meta) (smTerm meta) True]\<rparr> else rn2)
             in (None, decided, resetElectionTimer (installApplied meta rn3)))"

end
