(* ===== verification/RaftStartup.thy ===== *)
theory RaftStartup
  imports RaftSnapshot
begin

text \<open>
  Starting a node: \<open>openLogStore\<close> (\<open>src/consensus/raft_storage.go\<close>), \<open>loadSnapshot\<close>
  (\<open>snapshot.go\<close>), the applied-index rules (\<open>applied.go\<close>), \<open>loadState\<close> and
  \<open>NewRaftNodeWithOptions\<close> (\<open>raft.go\<close>), and the reads that fence on the applied index
  (\<open>read_index.go\<close>).

  The files a start finds are the record \<open>disk\<close>. \<open>dLogSynced\<close> is how much of \<open>raft_log.dat\<close> is
  known to be on stable storage: all of it after a crash of the machine, possibly less when
  only the process died and the page cache survived. Of the term and vote file \<open>disk\<close> has the
  one version a start reads; a store that was opened starts with that version as the only one a
  later crash may bring back, which holds after a crash of the machine, and after a restart of
  the process alone when the last \<open>saveMeta\<close> had fsynced the directory. The conversion of \<open>raft_snapshot.gob\<close>
  and the removal of temporary files are not modelled.
\<close>

section \<open>Opening the store\<close>

record disk =
  dMeta :: "bytes option"
  dLog :: "bytes option"
  dLogSynced :: nat
  dLegacy :: "bytes option"
  dSnap :: "bytes option"

record openIO =
  oRewrite :: atomic_outcome
  oMeta :: atomic_outcome
  oRetire :: atomic_outcome
  oOpen :: bool
  oTruncate :: bool

record loadedState =
  lsMeta :: raftMeta
  lsEntries :: "LogEntry list"
  lsTorn :: nat
  lsGap :: nat
  lsMigrated :: bool

definition putLog :: "atomic_outcome \<Rightarrow> LogEntry list \<Rightarrow> disk \<Rightarrow> raft_err option \<times> disk" where
  "putLog out es d =
     (let b = logFileBytes es; d1 = d\<lparr>dLog := Some b, dLogSynced := length b\<rparr>
      in case out of AtomicOk \<Rightarrow> (None, d1) | AtomicFail \<Rightarrow> (Some ErrRewrite, d)
         | AtomicDirSyncFail \<Rightarrow> (Some ErrRewrite, d1))"

definition putMeta :: "atomic_outcome \<Rightarrow> raftMeta \<Rightarrow> disk \<Rightarrow> raft_err option \<times> disk" where
  "putMeta out m d =
     (if length (mVote m) > 65535 then (Some ErrVoteTooLong, d)
      else let d1 = d\<lparr>dMeta := Some (encodeMeta m)\<rparr>
        in case out of AtomicOk \<Rightarrow> (None, d1) | AtomicFail \<Rightarrow> (Some ErrMetaWrite, d)
           | AtomicDirSyncFail \<Rightarrow> (Some ErrMetaWrite, d1))"

definition retireLegacy :: "atomic_outcome \<Rightarrow> disk \<Rightarrow> raft_err option \<times> disk" where
  "retireLegacy out d = (case out of
     AtomicOk \<Rightarrow> (None, d\<lparr>dLegacy := None\<rparr>)
   | AtomicFail \<Rightarrow> (Some (ErrIO ''retire legacy''), d)
   | AtomicDirSyncFail \<Rightarrow> (Some (ErrIO ''retire legacy''), d\<lparr>dLegacy := None\<rparr>))"

text \<open>Conversion of the old whole-state file: log first, meta last, then the old file goes.\<close>

definition migrateLegacy ::
  "gob \<Rightarrow> openIO \<Rightarrow> bytes \<Rightarrow> disk \<Rightarrow> (raft_err + raftMeta \<times> bool) \<times> disk" where
  "migrateLegacy G io b d = (case gobDecodeState G b of
     None \<Rightarrow> (Inl (ErrCorrupt ''read legacy''), d)
   | Some p \<Rightarrow> (case putLog (oRewrite io) (Log p) d of
       (Some e, d1) \<Rightarrow> (Inl e, d1)
     | (None, d1) \<Rightarrow>
         let m = \<lparr>mTerm = CurrentTerm p, mVote = VotedFor p\<rparr>
         in (case putMeta (oMeta io) m d1 of
             (Some e, d2) \<Rightarrow> (Inl e, d2)
           | (None, d2) \<Rightarrow> (case retireLegacy (oRetire io) d2 of
               (Some e, d3) \<Rightarrow> (Inl e, d3)
             | (None, d3) \<Rightarrow> (Inr (m, True), d3)))))"

definition prepareMeta ::
  "gob \<Rightarrow> openIO \<Rightarrow> raftMeta option \<Rightarrow> disk \<Rightarrow> (raft_err + raftMeta \<times> bool) \<times> disk" where
  "prepareMeta G io mo d = (case (mo, dLegacy d) of
     (None, Some b) \<Rightarrow> migrateLegacy G io b d
   | (Some m, Some b) \<Rightarrow> (case retireLegacy (oRetire io) d of
       (Some e, d1) \<Rightarrow> (Inl e, d1)
     | (None, d1) \<Rightarrow> (Inr (m, False), d1))
   | (None, None) \<Rightarrow> (case putMeta (oMeta io) \<lparr>mTerm = 0, mVote = []\<rparr> d of
       (Some e, d1) \<Rightarrow> (Inl e, d1)
     | (None, d1) \<Rightarrow> (Inr (\<lparr>mTerm = 0, mVote = []\<rparr>, False), d1))
   | (Some m, None) \<Rightarrow> (Inr (m, False), d))"

definition replayLog ::
  "openIO \<Rightarrow> disk \<Rightarrow> (raft_err + LogEntry list \<times> nat \<times> nat) \<times> disk" where
  "replayLog io d = (case dLog d of
     None \<Rightarrow> (case putLog (oRewrite io) [] d of
         (Some e, d1) \<Rightarrow> (Inl e, d1)
       | (None, d1) \<Rightarrow> (Inr ([], raftLogHdrLen, 0), d1))
   | Some b \<Rightarrow> (replayBytes b, d))"

text \<open>A torn tail is cut off and the cut is fsynced; a file without one is not fsynced.\<close>

definition openFile ::
  "openIO \<Rightarrow> raftMeta \<Rightarrow> nat \<Rightarrow> disk \<Rightarrow> raft_err + logStore \<times> nat" where
  "openFile io m good d =
     (if \<not> oOpen io then Inl (ErrIO ''open'')
      else case dLog d of
        None \<Rightarrow> Inl (ErrIO ''open'')
      | Some b \<Rightarrow>
          let torn = length b - good
          in if torn > 0 \<and> \<not> oTruncate io then Inl (ErrIO ''truncate'')
             else Inr (\<lparr>sHandle = take good b, sSynced = (if torn > 0 then good else dLogSynced d),
                        sDetached = None, sMetaFile = dMeta d, sMetaMay = [], sSize = good,
                        sGen = 0, sFailed = None, sClosed = False, sDirty = False, sMeta = m,
                        sHasMeta = True, sPend = [], sQFailed = None, sQClosed = False\<rparr>, torn))"

definition openLogStore ::
  "gob \<Rightarrow> openIO \<Rightarrow> disk \<Rightarrow> (raft_err + logStore \<times> loadedState) \<times> disk" where
  "openLogStore G io d = (case readMeta (dMeta d) of
     Inl e \<Rightarrow> (Inl e, d)
   | Inr mo \<Rightarrow> (case prepareMeta G io mo d of
       (Inl e, d1) \<Rightarrow> (Inl e, d1)
     | (Inr (m, migrated), d1) \<Rightarrow> (case replayLog io d1 of
         (Inl e, d2) \<Rightarrow> (Inl e, d2)
       | (Inr (entries, good, gap), d2) \<Rightarrow> (case openFile io m good d2 of
           Inl e \<Rightarrow> (Inl e, d2)
         | Inr (st, torn) \<Rightarrow>
             (Inr (st, \<lparr>lsMeta = m, lsEntries = entries, lsTorn = torn, lsGap = gap,
                       lsMigrated = migrated\<rparr>), d2)))))"

section \<open>Loading the node\<close>

definition dropCovered :: "RaftNode \<Rightarrow> bool \<times> RaftNode" where
  "dropCovered rn =
     (if lastIncludedIndex rn > 0 \<and> rlog rn \<noteq> [] \<and> lastIncludedIndex rn \<ge> eIndex (hd (rlog rn))
      then (True, setLog (drop (lastIncludedIndex rn - eIndex (hd (rlog rn)) + 1) (rlog rn)) rn)
      else (False, rn))"

definition raiseTerm :: "RaftNode \<Rightarrow> raft_err option \<times> RaftNode" where
  "raiseTerm rn =
     (if lastLogTerm rn > curTerm rn
      then persistMetaLocked (rn\<lparr>ps := (ps rn)\<lparr>CurrentTerm := lastLogTerm rn, VotedFor := []\<rparr>\<rparr>)
      else (None, rn))"

definition loadState ::
  "gob \<Rightarrow> openIO \<Rightarrow> atomic_outcome \<Rightarrow> bool \<Rightarrow> disk \<Rightarrow> RaftNode \<Rightarrow> raft_err option \<times> RaftNode" where
  "loadState G io out reopenOk d rn = (case openLogStore G io d of
     (Inl e, _) \<Rightarrow> (Some e, rn)
   | (Inr (st, ld), _) \<Rightarrow>
       let rn1 = rn\<lparr>store := st, ps := \<lparr>CurrentTerm = mTerm (lsMeta ld),
                      VotedFor = mVote (lsMeta ld), Log = lsEntries ld\<rparr>\<rparr>
       in if lsGap ld > lastIncludedIndex rn1 then (Some (ErrCorrupt ''index gap''), rn1)
          else
            let (cut, rn2) = dropCovered rn1
            in if rlog rn2 \<noteq> [] \<and> eIndex (hd (rlog rn2)) > lastIncludedIndex rn2 + 1
               then (Some (ErrCorrupt ''first entry does not follow the snapshot''), rn2)
               else (case raiseTerm rn2 of
                   (Some e, rn3) \<Rightarrow> (Some e, rn3)
                 | (None, rn3) \<Rightarrow>
                     let (err, s4) = (if lsGap ld > 0 \<or> cut
                                      then rewrite out reopenOk (rlog rn3) (store rn3)
                                      else (None, store rn3));
                         rn4 = rn3\<lparr>store := s4\<rparr>
                     in if err \<noteq> None then (err, rn4)
                        else (None, rn4\<lparr>durableIndex := lastLogIndex rn4\<rparr>)))"

text \<open>What the state machine recorded; \<open>None\<close> is \<open>ok = false\<close>.\<close>

record AppliedIndexState =
  aiIndex :: nat
  aiTerm :: nat
  aiRestoring :: bool

definition trustApplied :: "AppliedIndexState option \<Rightarrow> RaftNode \<Rightarrow> bool" where
  "trustApplied a rn = (case a of
     None \<Rightarrow> False
   | Some st \<Rightarrow> \<not> aiRestoring st \<and>
       \<not> (logTerm rn (aiIndex st) \<noteq> 0 \<and> logTerm rn (aiIndex st) \<noteq> aiTerm st))"

text \<open>\<open>smOk\<close> gives the outcome of each call of the state machine.\<close>

definition startupRestore ::
  "(sm_call \<Rightarrow> bool) \<Rightarrow> snapshotMeta \<Rightarrow> RaftNode \<Rightarrow> raft_err option \<times> RaftNode" where
  "startupRestore smOk m rn =
     (let rn1 = (if hasAppliedSM rn then rn\<lparr>smCalls := smCalls rn @ [SMBeginRestore]\<rparr> else rn)
      in if hasAppliedSM rn \<and> \<not> smOk SMBeginRestore
         then (Some (ErrIO ''mark restore in progress''), rn1)
         else
           let call = SMRestore (smIndex m) (smTerm m);
               rn2 = rn1\<lparr>smCalls := smCalls rn1 @ [call]\<rparr>
           in if \<not> smOk call then (Some (ErrIO ''restore state machine''), rn2)
              else (None, if hasAppliedSM rn
                then rn2\<lparr>smCalls := smCalls rn2 @ [SMSetApplied (smIndex m) (smTerm m) True]\<rparr>
                else rn2))"

text \<open>The third component is \<open>rn.startupSnap\<close>, a restore left to \<open>finishStartupRestore\<close>.\<close>

definition loadSnapshot ::
  "gob \<Rightarrow> (sm_call \<Rightarrow> bool) \<Rightarrow> AppliedIndexState option \<Rightarrow> disk \<Rightarrow> RaftNode \<Rightarrow>
   raft_err option \<times> RaftNode \<times> snapshotMeta option" where
  "loadSnapshot G smOk a d rn = (case dSnap d of
     None \<Rightarrow> (None, rn, None)
   | Some b \<Rightarrow> (case verifySnapshotFile G (Some b) of
       Inl e \<Rightarrow> (Some e, rn, None)
     | Inr m \<Rightarrow>
         if \<not> snapCapable rn then (Some (ErrIO ''not snapshot-capable''), rn, None)
         else
           let rn1 = rn\<lparr>snapFile := Some b, lastIncludedIndex := smIndex m,
                        lastIncludedTerm := smTerm m\<rparr>;
               rn2 = (if smConfigIndex m > 0
                      then rn1\<lparr>baseConfig := smConfig m, baseConfigIndex := smConfigIndex m\<rparr>
                      else rn1)
           in if (case a of None \<Rightarrow> False
                  | Some st \<Rightarrow> \<not> aiRestoring st \<and> aiIndex st \<ge> smIndex m)
              then (None, rn2, Some m)
              else (let (err, rn3) = startupRestore smOk m rn2 in (err, rn3, None))))"

definition finishStartupRestore ::
  "(sm_call \<Rightarrow> bool) \<Rightarrow> bool \<Rightarrow> snapshotMeta option \<Rightarrow> RaftNode \<Rightarrow> raft_err option \<times> RaftNode" where
  "finishStartupRestore smOk trusted snap rn = (case snap of
     None \<Rightarrow> (None, rn)
   | Some m \<Rightarrow> if \<not> trusted then startupRestore smOk m rn else (None, rn))"

fun smSequence :: "(sm_call \<Rightarrow> bool) \<Rightarrow> sm_call list \<Rightarrow> RaftNode \<Rightarrow> raft_err option \<times> RaftNode" where
  "smSequence smOk [] rn = (None, rn)"
| "smSequence smOk (c # cs) rn =
     (let rn1 = rn\<lparr>smCalls := smCalls rn @ [c]\<rparr>
      in if smOk c then smSequence smOk cs rn1 else (Some (ErrIO ''reset''), rn1))"

definition resetStateForReplay :: "(sm_call \<Rightarrow> bool) \<Rightarrow> RaftNode \<Rightarrow> raft_err option \<times> RaftNode" where
  "resetStateForReplay smOk rn =
     smSequence smOk [SMBeginRestore, SMResetState, SMSetApplied 0 0 True] rn"

definition forceSingleNodeConfigLocked ::
  "gob \<Rightarrow> atomic_outcome \<Rightarrow> bool \<Rightarrow> string \<Rightarrow> RaftNode \<Rightarrow> raft_err option \<times> RaftNode" where
  "forceSingleNodeConfigLocked G out reopenOk selfAddr rn =
     (let cur = addrOf (config rn) (rnId rn); addr = (if cur = [] then selfAddr else cur);
          cfg = \<lparr>Servers = [rnId rn], Learners = [],
                 Addrs = (if addr \<noteq> [] then [(rnId rn, addr)] else [])\<rparr>
      in case gobEncode G cfg of
           None \<Rightarrow> (Some ErrEncodeConfiguration, rn)
         | Some cmd \<Rightarrow> (case persistMetaLocked
               (rn\<lparr>ps := (ps rn)\<lparr>CurrentTerm := curTerm rn + 1, VotedFor := []\<rparr>\<rparr>) of
             (Some e, rn1) \<Rightarrow> (Some e, rn1)
           | (None, rn1) \<Rightarrow>
               let e = \<lparr>eTerm = curTerm rn1, eIndex = lastLogIndex rn1 + 1, eType = EntryConfig,
                        eCommand = cmd\<rparr>;
                   rn2 = setLog (rlog rn1 @ [e]) rn1
               in (case rewrite out reopenOk (rlog rn2) (store rn2) of
                   (Some err, s) \<Rightarrow> (Some err, rn2\<lparr>store := s\<rparr>)
                 | (None, s) \<Rightarrow> (None, rn2\<lparr>store := s, durableIndex := lastLogIndex rn2\<rparr>))))"

record Options =
  optJoin :: bool
  optSelfAddr :: string
  optBootstrapAddrs :: "(string \<times> string) list"
  optForceNewCluster :: bool

definition bootConfiguration :: "string \<Rightarrow> string list \<Rightarrow> Options \<Rightarrow> Configuration" where
  "bootConfiguration sid peers opts =
     (if optJoin opts then emptyConfiguration
      else \<lparr>Servers = sid # peers, Learners = [],
            Addrs =
              (let known = foldl (\<lambda>acc p. case map_of (optBootstrapAddrs opts) p of
                     None \<Rightarrow> acc | Some a \<Rightarrow> if a \<noteq> [] then AList.update p a acc else acc) [] peers
               in if optSelfAddr opts \<noteq> [] then AList.update sid (optSelfAddr opts) known
                  else known)\<rparr>)"

text \<open>\<open>rn0\<close> is the zeroed node with its options; \<open>replReady\<close> turns on with the goroutines.\<close>

definition startNode ::
  "gob \<Rightarrow> openIO \<Rightarrow> atomic_outcome \<Rightarrow> bool \<Rightarrow> (sm_call \<Rightarrow> bool) \<Rightarrow> Options \<Rightarrow>
   AppliedIndexState option \<Rightarrow> disk \<Rightarrow> RaftNode \<Rightarrow> raft_err option \<times> RaftNode" where
  "startNode G io out reopenOk smOk opts a d rn1 = (case loadSnapshot G smOk a d rn1 of
     (Some e, rn2, _) \<Rightarrow> (Some e, rn2)
   | (None, rn2, snap) \<Rightarrow> (case loadState G io out reopenOk d rn2 of
       (Some e, rn3) \<Rightarrow> (Some e, rn3)
     | (None, rn3) \<Rightarrow>
         let trusted = trustApplied a rn3
         in (case finishStartupRestore smOk trusted snap rn3 of
           (Some e, rn4) \<Rightarrow> (Some e, rn4)
         | (None, rn4) \<Rightarrow> (case (if hasAppliedSM rn4 \<and> \<not> trusted \<and> lastIncludedIndex rn4 = 0 \<and>
                                rlog rn4 \<noteq> [] then resetStateForReplay smOk rn4 else (None, rn4)) of
             (Some e, rn5) \<Rightarrow> (Some e, rn5)
           | (None, rn5) \<Rightarrow>
               let idx = (case a of None \<Rightarrow> 0 | Some st \<Rightarrow> aiIndex st);
                   li = (if trusted \<and> idx > lastIncludedIndex rn5 then idx
                         else lastIncludedIndex rn5);
                   rn6 = refreshConfigFromLog G (rn5\<lparr>commitIndex := li, lastApplied := li\<rparr>)
               in if optForceNewCluster opts
                  then (case forceSingleNodeConfigLocked G out reopenOk (optSelfAddr opts) rn6 of
                      (Some e, rn7) \<Rightarrow> (Some e, rn7)
                    | (None, rn7) \<Rightarrow> (None, (refreshConfigFromLog G rn7)\<lparr>replReady := True\<rparr>))
                  else (None, rn6\<lparr>replReady := True\<rparr>)))))"

text \<open>The intermediate nodes of a start that succeeds.\<close>

lemma startNode_steps:
  assumes "startNode G io out ok smOk opts a d rn1 = (None, rn')"
  obtains rn2 snap rn3 rn4 rn5 li rn6 where
    "loadSnapshot G smOk a d rn1 = (None, rn2, snap)" "loadState G io out ok d rn2 = (None, rn3)"
    "finishStartupRestore smOk (trustApplied a rn3) snap rn3 = (None, rn4)"
    "(if hasAppliedSM rn4 \<and> \<not> trustApplied a rn3 \<and> lastIncludedIndex rn4 = 0 \<and> rlog rn4 \<noteq> []
      then resetStateForReplay smOk rn4 else (None, rn4)) = (None, rn5)"
    "rn6 = refreshConfigFromLog G (rn5\<lparr>commitIndex := li, lastApplied := li\<rparr>)"
    "(if optForceNewCluster opts
      then (case forceSingleNodeConfigLocked G out ok (optSelfAddr opts) rn6 of
          (Some e, rn7) \<Rightarrow> (Some e, rn7)
        | (None, rn7) \<Rightarrow> (None, (refreshConfigFromLog G rn7)\<lparr>replReady := True\<rparr>))
      else (None, rn6\<lparr>replReady := True\<rparr>)) = (None, rn')"
proof -
  obtain rn2 snap where s: "loadSnapshot G smOk a d rn1 = (None, rn2, snap)"
    using assms by (auto simp: startNode_def split: prod.splits option.splits)
  obtain rn3 where l: "loadState G io out ok d rn2 = (None, rn3)"
    using assms by (auto simp: startNode_def s split: prod.splits option.splits)
  obtain rn4 where f: "finishStartupRestore smOk (trustApplied a rn3) snap rn3 = (None, rn4)"
    using assms by (auto simp: startNode_def s l Let_def split: prod.splits option.splits)
  obtain rn5 where e: "(if hasAppliedSM rn4 \<and> \<not> trustApplied a rn3 \<and> lastIncludedIndex rn4 = 0 \<and>
      rlog rn4 \<noteq> [] then resetStateForReplay smOk rn4 else (None, rn4)) = (None, rn5)"
    using assms unfolding startNode_def s l Let_def prod.case option.case f
    by (auto split: prod.splits option.splits)
  from that [OF s l f e refl] assms show thesis
    unfolding startNode_def s l Let_def prod.case option.case f e by blast
qed

definition NewRaftNodeWithOptions ::
  "gob \<Rightarrow> openIO \<Rightarrow> atomic_outcome \<Rightarrow> bool \<Rightarrow> (sm_call \<Rightarrow> bool) \<Rightarrow> Options \<Rightarrow>
   AppliedIndexState option \<Rightarrow> disk \<Rightarrow> string list \<Rightarrow> RaftNode \<Rightarrow> raft_err option \<times> RaftNode" where
  "NewRaftNodeWithOptions G io out reopenOk smOk opts a d peers rn0 =
     (let boot = bootConfiguration (rnId rn0) peers opts
      in startNode G io out reopenOk smOk opts (if hasAppliedSM rn0 then a else None) d
           (setConfig boot 0 (rn0\<lparr>baseConfig := boot, baseConfigIndex := 0\<rparr>)))"

text \<open>A start on an empty directory in which every system call succeeds.\<close>

definition emptyDisk :: disk where
  "emptyDisk = \<lparr>dMeta = None, dLog = None, dLogSynced = 0, dLegacy = None, dSnap = None\<rparr>"

definition goodIO :: openIO where
  "goodIO = \<lparr>oRewrite = AtomicOk, oMeta = AtomicOk, oRetire = AtomicOk, oOpen = True, oTruncate = True\<rparr>"

definition plainOptions :: Options where
  "plainOptions = \<lparr>optJoin = False, optSelfAddr = [], optBootstrapAddrs = [],
     optForceNewCluster = False\<rparr>"

definition exampleStart :: "string \<Rightarrow> string list \<Rightarrow> raft_err option \<times> RaftNode" where
  "exampleStart i peers = NewRaftNodeWithOptions exampleGob goodIO AtomicOk True (\<lambda>_. True)
     plainOptions None emptyDisk peers ((exampleNode i [])\<lparr>replReady := False\<rparr>)"

lemma emptyDisk_open:
  "openLogStore exampleGob goodIO emptyDisk =
     (Inr (freshStore, \<lparr>lsMeta = \<lparr>mTerm = 0, mVote = []\<rparr>, lsEntries = [], lsTorn = 0, lsGap = 0,
        lsMigrated = False\<rparr>),
      \<lparr>dMeta = Some (encodeMeta \<lparr>mTerm = 0, mVote = []\<rparr>), dLog = Some (logFileBytes []),
       dLogSynced = length (logFileBytes []), dLegacy = None, dSnap = None\<rparr>)"
  by (simp add: openLogStore_def emptyDisk_def goodIO_def readMeta_def prepareMeta_def putMeta_def
      replayLog_def putLog_def openFile_def Let_def freshStore_def logFileBytes_eq)

lemma emptyDisk_snap: "dSnap emptyDisk = None"
  by (simp add: emptyDisk_def)

lemma exampleStart_ok:
  "exampleStart ''a'' [] = (None, (exampleNode ''a'' [''a'']))"
  by (simp add: exampleStart_def NewRaftNodeWithOptions_def bootConfiguration_def plainOptions_def
      setConfig_def startNode_def loadSnapshot_def emptyDisk_snap loadState_def emptyDisk_open
      dropCovered_def raiseTerm_def trustApplied_def finishStartupRestore_def refreshConfigFromLog_def
      exampleNode_def syncReplicatorsLocked_def IsMember_def isLearner_def containsVoter_def
      lastLogTerm_def lastLogIndex_def Let_def)

section \<open>Reads\<close>

text \<open>\<open>ReadIndex\<close> up to its heartbeat round: the fence, the voters to ask, the acks needed.\<close>

record readRound =
  rrTerm :: nat
  rrIndex :: nat
  rrPeers :: "string list"
  rrQuorum :: nat
  rrAcks :: nat
  rrArgs :: AppendEntriesArgs

definition ReadIndex_begin :: "RaftNode \<Rightarrow> raft_err + readRound" where
  "ReadIndex_begin rn =
     (if role rn \<noteq> RoleLeader then Inl ErrNotLeader
      else if commitIndex rn = 0 \<or> logTerm rn (commitIndex rn) \<noteq> curTerm rn
      then Inl ErrLeadershipUnconfirmed
      else Inr \<lparr>rrTerm = curTerm rn, rrIndex = commitIndex rn, rrPeers = voterPeers rn,
                rrQuorum = quorumSize rn,
                rrAcks = (if containsVoter (config rn) (rnId rn) then 1 else 0),
                rrArgs = \<lparr>aeTerm = curTerm rn, aeLeaderID = rnId rn,
                  aePrevLogIndex = lastLogIndex rn, aePrevLogTerm = logTerm rn (lastLogIndex rn),
                  aeEntries = [], aeLeaderCommit = commitIndex rn, aeWantMatch = True\<rparr>\<rparr>)"

definition ReadIndex_reply ::
  "AppendEntriesReply \<Rightarrow> readRound \<Rightarrow> RaftNode \<Rightarrow> readRound \<times> RaftNode" where
  "ReadIndex_reply reply rr rn =
     (if aerTerm reply > rrTerm rr
      then (rr, if aerTerm reply > curTerm rn then becomeFollower (aerTerm reply) rn else rn)
      else (rr\<lparr>rrAcks := rrAcks rr + 1\<rparr>, rn))"

definition ReadIndex_confirm :: "readRound \<Rightarrow> RaftNode \<Rightarrow> raft_err option" where
  "ReadIndex_confirm rr rn =
     (if role rn = RoleLeader \<and> curTerm rn = rrTerm rr then None else Some ErrNotLeader)"

definition waitAppliedUntil :: "nat \<Rightarrow> int \<Rightarrow> int \<Rightarrow> RaftNode \<Rightarrow> (raft_err + unit) option" where
  "waitAppliedUntil idx now deadline rn =
     (if lastApplied rn \<ge> idx then Some (Inr ())
      else if now > deadline then Some (Inl ErrReadIndexTimeout) else None)"

definition WaitLeaderApplied :: "RaftNode \<Rightarrow> nat option" where
  "WaitLeaderApplied rn =
     (if leaderReady rn \<or> role rn \<noteq> RoleLeader then None else Some (termStartIndex rn))"

end
