(* ===== verification/RaftFrame.thy ===== *)
theory RaftFrame
  imports RaftStartup
begin

text \<open>
  What each operation of a node does to the state that elections depend on: identity, term,
  vote, role, the meta file, and the configuration. \<open>view\<close> collects these; the equations
  \<open>view (f rn) = view rn\<close> of the operations that leave them alone are the collection \<open>frame\<close>.
  The other operations are shown \<open>calm\<close>: they keep the vote invariant \<open>nodeInv\<close> and never
  make the node a leader.
\<close>

definition metaView :: "logStore \<Rightarrow> bytes option \<times> bytes option list \<times> raftMeta \<times> bool" where
  "metaView s = (sMetaFile s, sMetaMay s, sMeta s, sHasMeta s)"

definition view where
  "view rn = (rnId rn, curTerm rn, votedFor rn, metaView (store rn), config rn, voterPeers rn,
     role (rn :: RaftNode))"

section \<open>Operations that leave the view alone\<close>

lemma metaView_enqueue [frame]: "metaView (snd (enqueue es s)) = metaView s"
  by (simp add: enqueue_def metaView_def)

lemma metaView_setFailed [frame]: "metaView (setFailedLocked e s) = metaView s"
  by (simp add: setFailedLocked_def metaView_def)

lemma metaView_flush [frame]: "metaView (snd (flush wr ok s)) = metaView s"
  by (auto simp: flush_def flushWrite_def flushSync_def setFailedLocked_def metaView_def Let_def
      split: write_outcome.splits)

lemma metaView_rewrite [frame]: "metaView (snd (rewrite out ok es s)) = metaView s"
  by (auto simp: rewrite_def rewriteFile_def setFailedLocked_def metaView_def Let_def
      split: atomic_outcome.splits)

lemma metaView_close [frame]: "metaView (closeStore s) = metaView s"
  by (simp add: closeStore_def metaView_def)

lemma view_setLog [frame]: "view (setLog es rn) = view rn"
  by (simp add: setLog_def view_def)

lemma view_kickSyncer [frame]: "view (kickSyncerLocked rn) = view rn"
  by (simp add: kickSyncerLocked_def view_def)

lemma view_resetTimer [frame]: "view (resetElectionTimer rn) = view rn"
  by (simp add: resetElectionTimer_def view_def)

lemma view_notifyApplier [frame]: "view (notifyApplier rn) = view rn"
  by (simp add: notifyApplier_def view_def)

lemma view_failWaiters [frame]: "view (failWaitersLocked e rn) = view rn"
  by (simp add: failWaitersLocked_def view_def)

lemma view_removeWaiter [frame]: "view (removeWaiter i ch rn) = view rn"
  by (simp add: removeWaiter_def view_def)

lemma view_updPR [frame]: "view (updPR r f rn) = view rn"
  by (simp add: updPR_def view_def)

lemma view_fold_updPR [frame]: "view (fold (\<lambda>(p, r). updPR r f) rs rn) = view rn"
  by (induction rs arbitrary: rn) (auto simp: frame)

lemma view_kickReplicators [frame]: "view (kickReplicatorsLocked rn) = view rn"
  unfolding kickReplicatorsLocked_def by (rule view_fold_updPR)

lemma view_kickOnAppend [frame]: "view (kickReplicatorsOnAppendLocked rn) = view rn"
  by (simp add: kickReplicatorsOnAppendLocked_def frame)

lemma view_heartbeat [frame]: "view (heartbeatLocked rn) = view rn"
  unfolding heartbeatLocked_def by (rule view_fold_updPR)

lemma view_startReplicators [frame]: "view (startReplicators t ps' rn) = view rn"
proof (induction ps' arbitrary: rn)
  case (Cons p ps')
  have "view (rn\<lparr>prHeap := h, repl := rs, prNext := n\<rparr>) = view rn" for h rs n
    by (simp add: view_def)
  then show ?case by (simp add: Cons.IH)
qed simp

lemma view_syncReplicators [frame]: "view (syncReplicatorsLocked rn) = view rn"
proof -
  have "view (rn\<lparr>repl := rs, prHeap := h\<rparr>) = view rn" for h rs
    by (simp add: view_def)
  then show ?thesis
    by (simp add: syncReplicatorsLocked_def Let_def frame split: prod.splits)
qed

lemma view_appendEntry [frame]: "view (snd (appendEntryLocked t c rn)) = view rn"
  by (simp add: appendEntryLocked_def Let_def setLog_def view_def)

lemma view_store: "metaView s = metaView (store rn) \<Longrightarrow> view (rn\<lparr>store := s\<rparr>) = view rn"
  by (simp add: view_def)

lemma view_enqueue [frame]: "view (snd (enqueueLocked es rn)) = view rn"
  using metaView_enqueue [of es "store rn"]
  by (cases "enqueue es (store rn)") (simp add: enqueueLocked_def view_store)

lemma view_appendAll [frame]: "view (snd (appendAllLocked cs rn)) = view rn"
proof (induction cs arbitrary: rn)
  case (Cons c cs)
  then show ?case
    using view_appendEntry [of EntryNormal c rn]
    by (simp add: Let_def split: prod.splits) (metis snd_conv)
qed simp

lemma view_waiters [frame]: "view (rn\<lparr>waiters := w\<rparr>) = view rn"
  by (simp add: view_def)

lemma view_flushBatch [frame]: "view (snd (flushBatch b rn)) = view rn"
proof -
  obtain ecs rn1 where a: "appendAllLocked b rn = (ecs, rn1)" by fastforce
  obtain err rn2 where e: "enqueueLocked (drop (length (rlog rn)) (rlog rn1)) rn1 = (err, rn2)"
    by fastforce
  have "view rn2 = view rn"
    using view_appendAll [of b rn] view_enqueue [of "drop (length (rlog rn)) (rlog rn1)" rn1] a e
    by simp
  then show ?thesis
    by (simp add: flushBatch_def a e frame split: option.splits)
qed

lemma view_maybeAdvanceCommit [frame]: "view (maybeAdvanceCommit rn) = view rn"
  by (auto simp: maybeAdvanceCommit_def notifyApplier_def view_def split: option.splits)

lemma view_durableIndex [frame]: "view (rn\<lparr>durableIndex := d\<rparr>) = view rn"
  by (simp add: view_def)

lemma view_markDurable [frame]: "view (markDurableLocked i t rn) = view rn"
  by (simp add: markDurableLocked_def Let_def frame)

lemma view_rewriteLog [frame]: "view (snd (rewriteLogLocked out ok rn)) = view rn"
proof -
  obtain err s where r: "rewrite out ok (rlog rn) (store rn) = (err, s)" by fastforce
  then have v: "view (rn\<lparr>store := s\<rparr>) = view rn"
    using metaView_rewrite [of out ok "rlog rn" "store rn"] by (simp add: view_store)
  then have "view (rn\<lparr>store := s, durableIndex := d\<rparr>) = view rn" for d
    by (simp add: view_def)
  with v show ?thesis
    by (auto simp: rewriteLogLocked_def r Let_def frame split: option.splits)
qed

lemma view_takeDecided [frame]: "view (snd (takeDecidedWaitersLocked rn)) = view rn"
  by (simp add: takeDecidedWaitersLocked_def view_def)

lemma view_followerCommit [frame]: "view (advanceFollowerCommit lc t rn) = view rn"
  by (simp add: advanceFollowerCommit_def notifyApplier_def view_def Let_def)

lemma view_noteLeader [frame]: "view (noteLeaderContactLocked now rn) = view rn"
  by (simp add: noteLeaderContactLocked_def view_def)

lemma view_noteAck [frame]: "view (noteAckLocked p now rn) = view rn"
  by (simp add: noteAckLocked_def view_def)

lemma view_nextIndex [frame]: "view (rn\<lparr>nextIndex := n\<rparr>) = view rn"
  by (simp add: view_def)

lemma view_matchIndex [frame]: "view (rn\<lparr>matchIndex := n\<rparr>) = view rn"
  by (simp add: view_def)

lemma view_replicateStep:
  "(case replicateStep r w now rn of ReplStop b rn' \<Rightarrow> view rn' | ReplSend s rn' \<Rightarrow> view rn') = view rn"
  by (simp add: replicateStep_def Let_def frame split: option.splits)

lemma view_replicateLoop [frame]: "view (snd (snd (replicateLoop r w now sends rn))) = view rn"
proof (induction r w now sends rn rule: replicateLoop.induct)
  case (1 r window now sends rn)
  show ?case
    using 1 view_replicateStep [of r window now rn]
    by (subst replicateLoop.simps) (auto split: repl_step.splits)
qed

lemma view_replicate [frame]: "view (snd (snd (replicate_peer r now rn))) = view rn"
proof -
  have "view rn' = view rn" if "replicateLoop r w now [] (updPR r f rn) = (sends, snap, rn')"
    for w f sends snap rn'
    using view_replicateLoop [of r w now "[]" "updPR r f rn"] that by (simp add: frame)
  then show ?thesis
    by (auto simp: replicate_peer_def Let_def frame split: option.splits prod.splits)
qed

lemma view_onAppendSuccess [frame]: "view (onAppendSuccess r p s rep rn) = view rn"
  by (simp add: onAppendSuccess_def Let_def frame split: option.splits)

lemma view_onAppendReject [frame]: "view (onAppendReject r p s rep rn) = view rn"
  by (simp add: onAppendReject_def Let_def frame)

lemma view_onAppendLost [frame]: "view (onAppendLost r pr s rn) = view rn"
  by (simp add: onAppendLost_def Let_def frame)

end
