(* ===== verification/RaftVotes.thy ===== *)
theory RaftVotes
  imports RaftFrame
begin

text \<open>
  The vote invariant of one node. \<open>H\<close> is the set of votes the node has given so far, as pairs
  of term and candidate. Memory and every version of the meta file a crash can bring back
  must remember each of them, or be past its term. Every operation other than an election or
  a vote keeps this for the same \<open>H\<close> and does not make the node a leader (\<open>calm\<close>).
\<close>

section \<open>The invariant\<close>

definition covers :: "raftMeta \<Rightarrow> nat \<Rightarrow> string \<Rightarrow> bool" where
  "covers m t c \<longleftrightarrow> mTerm m > t \<or> mTerm m = t \<and> mVote m = c"

definition memMeta :: "RaftNode \<Rightarrow> raftMeta" where
  "memMeta rn = \<lparr>mTerm = curTerm rn, mVote = votedFor rn\<rparr>"

definition metaFiles :: "logStore \<Rightarrow> bytes option set" where
  "metaFiles s = insert (sMetaFile s) (set (sMetaMay s))"

type_synonym votes = "(nat \<times> string) set"

definition diskInv :: "votes \<Rightarrow> RaftNode \<Rightarrow> bool" where
  "diskInv H rn \<longleftrightarrow> (\<forall>f \<in> metaFiles (store rn). \<exists>m. readMeta f = Inr (Some m) \<and>
     mTerm m \<le> curTerm rn \<and> (\<forall>(t, c) \<in> H. covers m t c))"

definition cacheInv :: "RaftNode \<Rightarrow> bool" where
  "cacheInv rn \<longleftrightarrow> (let s = store rn in sHasMeta s \<longrightarrow> mTerm (sMeta s) \<le> curTerm rn \<and>
     (mTerm (sMeta s) = curTerm rn \<and> mVote (sMeta s) \<noteq> [] \<longrightarrow>
        votedFor rn = mVote (sMeta s) \<and> (\<forall>f \<in> metaFiles s. readMeta f = Inr (Some (sMeta s)))))"

definition memInv :: "votes \<Rightarrow> RaftNode \<Rightarrow> bool" where
  "memInv H rn \<longleftrightarrow> (\<forall>(t, c) \<in> H. c \<noteq> [] \<and> covers (memMeta rn) t c)"

definition peersInv :: "RaftNode \<Rightarrow> bool" where
  "peersInv rn \<longleftrightarrow> voterPeers rn = filter (\<lambda>s. s \<noteq> rnId rn) (Servers (config rn))"

definition nodeInv :: "votes \<Rightarrow> RaftNode \<Rightarrow> bool" where
  "nodeInv H rn \<longleftrightarrow> memInv H rn \<and> diskInv H rn \<and> cacheInv rn \<and> peersInv rn"

lemma view_fields:
  assumes "view rn' = view rn"
  shows "rnId rn' = rnId rn" "curTerm rn' = curTerm rn" "votedFor rn' = votedFor rn"
    "sMetaFile (store rn') = sMetaFile (store rn)" "sMetaMay (store rn') = sMetaMay (store rn)"
    "sMeta (store rn') = sMeta (store rn)" "sHasMeta (store rn') = sHasMeta (store rn)"
    "config rn' = config rn" "voterPeers rn' = voterPeers rn" "role rn' = role rn"
  using assms by (simp_all add: view_def metaView_def)

lemma nodeInv_view:
  assumes "view rn' = view rn"
  shows "nodeInv H rn' \<longleftrightarrow> nodeInv H rn"
  unfolding nodeInv_def memInv_def diskInv_def cacheInv_def peersInv_def metaFiles_def
    memMeta_def Let_def view_fields [OF assms] by (rule refl)

section \<open>Persisting term and vote\<close>

lemma covers_mem: "memInv H rn \<Longrightarrow> (t, c) \<in> H \<Longrightarrow> covers (memMeta rn) t c"
  by (auto simp: memInv_def)

definition popped :: "RaftNode \<Rightarrow> RaftNode" where
  "popped rn = snd (popMetaIO rn)"

lemma view_popped: "view (popped rn) = view rn"
  by (simp add: popped_def popMetaIO_def view_def split: list.splits)

lemma persistMeta_eq:
  "\<exists>out. persistMetaLocked rn =
     (fst (saveMeta out (memMeta rn) (store rn)),
      (popped rn)\<lparr>store := snd (saveMeta out (memMeta rn) (store rn))\<rparr>)"
proof -
  obtain out where o: "popMetaIO rn = (out, popped rn)"
    by (metis popped_def prod.collapse)
  have "store (popped rn) = store rn"
    by (simp add: popped_def popMetaIO_def split: list.splits)
  with o show ?thesis
    by (intro exI [of _ out]) (simp add: persistMetaLocked_def memMeta_def case_prod_unfold Let_def)
qed

lemma saveMeta_cases:
  assumes "saveMeta out m s = (r, s')" and "mTerm m < 2 ^ 64"
  obtains (cached) "r = None" "s' = s" "sHasMeta s" "sMeta s = m"
  | (written) "r = None" "sMeta s' = m" "sHasMeta s'" "metaFiles s' = {Some (encodeMeta m)}"
      "storableMeta m"
  | (failed) e where "r = Some e" "sMeta s' = sMeta s" "sHasMeta s' = sHasMeta s"
      "metaFiles s' \<subseteq> insert (Some (encodeMeta m)) (metaFiles s)"
      "metaFiles s' \<noteq> metaFiles s \<longrightarrow> storableMeta m \<and> \<not> (sHasMeta s \<and> sMeta s = m)"
proof -
  consider "sClosed s" | "\<not> sClosed s" "sHasMeta s \<and> sMeta s = m"
    | "\<not> sClosed s" "\<not> (sHasMeta s \<and> sMeta s = m)" by blast
  then show thesis
  proof cases
    case 1
    with assms(1) show thesis by (intro failed) (auto simp: saveMeta_def)
  next
    case 2
    with assms(1) show thesis by (intro cached) (auto simp: saveMeta_def)
  next
    case 3
    show thesis
    proof (cases "length (mVote m) > 65535 \<or> out \<noteq> AtomicOk")
      case True
      note d = saveMeta_def writeMeta_def metaFiles_def storableMeta_def
      have "\<exists>e. r = Some e" "sMeta s' = sMeta s" "sHasMeta s' = sHasMeta s"
        using assms(1) 3 True by (cases out; auto simp: d split: if_splits)+
      moreover have "metaFiles s' \<subseteq> insert (Some (encodeMeta m)) (metaFiles s)"
        using assms(1) 3 True by (cases out; auto simp: d split: if_splits)
      moreover have "metaFiles s' \<noteq> metaFiles s \<longrightarrow> storableMeta m"
        using assms 3 True by (cases out; auto simp: d split: if_splits)
      ultimately show thesis
        using 3(2) failed by blast
    next
      case False
      with assms 3 show thesis
        by (intro written)
           (auto simp: saveMeta_def writeMeta_def metaFiles_def storableMeta_def)
    qed
  qed
qed

lemma persist_keeps:
  assumes inv: "memInv H rn" "diskInv H rn" "cacheInv rn" and t: "curTerm rn < 2 ^ 64"
    and p: "persistMetaLocked rn = (r, rn')"
  shows "memInv H rn' \<and> diskInv H rn' \<and> cacheInv rn' \<and>
    (r = None \<and> votedFor rn \<noteq> [] \<longrightarrow>
       (\<forall>f \<in> metaFiles (store rn'). readMeta f = Inr (Some (memMeta rn))))"
proof -
  obtain out where o: "r = fst (saveMeta out (memMeta rn) (store rn))"
      "rn' = (popped rn)\<lparr>store := snd (saveMeta out (memMeta rn) (store rn))\<rparr>"
    using persistMeta_eq [of rn] p by auto
  let ?s = "snd (saveMeta out (memMeta rn) (store rn))"
  have sv: "saveMeta out (memMeta rn) (store rn) = (r, ?s)" and st: "store rn' = ?s"
    using o by simp_all
  have ps': "curTerm rn' = curTerm rn" "votedFor rn' = votedFor rn"
    using o(2) view_fields [OF view_popped [of rn]] by simp_all
  then have mem: "memMeta rn' = memMeta rn"
    by (simp add: memMeta_def)
  have tm: "mTerm (memMeta rn) < 2 ^ 64" "mTerm (memMeta rn) = curTerm rn"
      "mVote (memMeta rn) = votedFor rn"
    using t by (simp_all add: memMeta_def)
  have enc: "storableMeta (memMeta rn) \<Longrightarrow>
      readMeta (Some (encodeMeta (memMeta rn))) = Inr (Some (memMeta rn))"
    by (rule readMeta_encodeMeta)
  have m: "memInv H rn'"
    using inv(1) mem by (simp add: memInv_def)
  from sv tm(1) show ?thesis
  proof (cases rule: saveMeta_cases)
    case cached
    then show ?thesis
      using inv m st ps' tm by (auto simp: diskInv_def cacheInv_def Let_def)
  next
    case written
    then have "diskInv H rn'"
      using enc covers_mem [OF inv(1)] st tm(2) ps' by (fastforce simp: diskInv_def)
    moreover have "cacheInv rn'"
      using written enc st tm ps' by (simp add: cacheInv_def)
    ultimately show ?thesis
      using written m enc st by simp
  next
    case (failed e)
    have "diskInv H rn'"
      unfolding diskInv_def
    proof
      fix f
      assume f: "f \<in> metaFiles (store rn')"
      show "\<exists>m. readMeta f = Inr (Some m) \<and> mTerm m \<le> curTerm rn' \<and> (\<forall>(t, c) \<in> H. covers m t c)"
      proof (cases "f \<in> metaFiles (store rn)")
        case True
        then show ?thesis using inv(2) ps' by (simp add: diskInv_def)
      next
        case False
        then have "f = Some (encodeMeta (memMeta rn))" "storableMeta (memMeta rn)"
          using f failed(4,5) st by auto
        then show ?thesis
          using enc covers_mem [OF inv(1)] tm(2) ps' by fastforce
      qed
    qed
    moreover have "cacheInv rn'"
    proof (cases "metaFiles ?s = metaFiles (store rn)")
      case True
      then show ?thesis
        using inv(3) failed st ps' by (simp add: cacheInv_def Let_def)
    next
      case False
      then have "\<not> (sHasMeta (store rn) \<and> sMeta (store rn) = memMeta rn)"
        using failed(5) by blast
      then have "sHasMeta (store rn) \<Longrightarrow> mTerm (sMeta (store rn)) = curTerm rn \<Longrightarrow>
          mVote (sMeta (store rn)) = []"
        using inv(3) by (auto simp: cacheInv_def Let_def memMeta_def)
      then show ?thesis
        using inv(3) failed st ps' by (auto simp: cacheInv_def Let_def)
    qed
    ultimately show ?thesis
      using m failed(1) by simp
  qed
qed

lemma persist_fields:
  assumes "persistMetaLocked rn = (r, rn')"
  shows "rnId rn' = rnId rn" "curTerm rn' = curTerm rn" "votedFor rn' = votedFor rn"
    "role rn' = role rn" "config rn' = config rn" "voterPeers rn' = voterPeers rn"
  using assms persistMeta_eq [of rn] view_fields [OF view_popped [of rn]] by auto

text \<open>Moving to a later term: whatever the vote in it, the invariant holds before the write.\<close>

lemma later_term:
  assumes "memInv H rn" "diskInv H rn" "cacheInv rn" and "curTerm rn < curTerm rn'"
    and "metaView (store rn') = metaView (store rn)"
  shows "memInv H rn' \<and> diskInv H rn' \<and> cacheInv rn'"
proof -
  have s: "metaFiles (store rn') = metaFiles (store rn)" "sMeta (store rn') = sMeta (store rn)"
      "sHasMeta (store rn') = sHasMeta (store rn)"
    using assms(5) by (simp_all add: metaView_def metaFiles_def)
  have "memInv H rn'"
    using assms(1,4) by (fastforce simp: memInv_def covers_def memMeta_def)
  moreover have "diskInv H rn'"
    using assms(2,4) s by (fastforce simp: diskInv_def)
  moreover have "cacheInv rn'"
    using assms(3,4) s by (auto simp: cacheInv_def Let_def)
  ultimately show ?thesis by simp
qed

section \<open>Calm operations\<close>

definition calm :: "RaftNode \<Rightarrow> RaftNode \<Rightarrow> bool" where
  "calm rn rn' \<longleftrightarrow> rnId rn' = rnId rn \<and> curTerm rn \<le> curTerm rn' \<and>
     (curTerm rn' < 2 ^ 64 \<longrightarrow> (\<forall>H. nodeInv H rn \<longrightarrow> nodeInv H rn')) \<and>
     (role rn' = RoleLeader \<longrightarrow> role rn = RoleLeader \<and> curTerm rn' = curTerm rn)"

lemma calm_refl [intro]: "calm rn rn"
  by (simp add: calm_def)

lemma calm_trans [trans]: "calm a b \<Longrightarrow> calm b c \<Longrightarrow> calm a c"
  unfolding calm_def by (intro conjI impI allI) auto

lemma calm_view:
  assumes "view rn' = view rn"
  shows "calm rn rn'"
  using view_fields [OF assms] nodeInv_view [OF assms] by (simp add: calm_def)

lemma calm_then_view: "calm a b \<Longrightarrow> view c = view b \<Longrightarrow> calm a c"
  using calm_trans calm_view by blast

lemma view_then_calm: "view b = view a \<Longrightarrow> calm b c \<Longrightarrow> calm a c"
  using calm_trans calm_view by blast

text \<open>Term, vote and store unchanged; the leader role at most given up.\<close>

lemma calm_core:
  assumes "rnId rn' = rnId rn" "ps rn' = ps rn" "store rn' = store rn"
    "peersInv rn \<longrightarrow> peersInv rn'" "role rn' = RoleLeader \<longrightarrow> role rn = RoleLeader"
  shows "calm rn rn'"
proof -
  have "memInv H rn' = memInv H rn" "diskInv H rn' = diskInv H rn" "cacheInv rn' = cacheInv rn" for H
    using assms(2,3) by (simp_all add: memInv_def diskInv_def cacheInv_def memMeta_def)
  then show ?thesis
    using assms by (auto simp: calm_def nodeInv_def)
qed

lemma calm_role:
  assumes "rnId rn' = rnId rn" "ps rn' = ps rn" "store rn' = store rn" "config rn' = config rn"
    "voterPeers rn' = voterPeers rn" "role rn' \<noteq> RoleLeader"
  shows "calm rn rn'"
  by (rule calm_core) (use assms in \<open>simp_all add: peersInv_def\<close>)

lemma calm_setConfig: "calm rn (setConfig cfg i rn)"
proof -
  define rn1 where "rn1 = rn\<lparr>config := cfg, configIndex := i,
      rnPeers := filter (\<lambda>s. s \<noteq> rnId rn) (Servers cfg) @ filter (\<lambda>s. s \<noteq> rnId rn) (Learners cfg),
      voterPeers := filter (\<lambda>s. s \<noteq> rnId rn) (Servers cfg),
      removed := \<not> IsMember cfg (rnId rn), voter := containsVoter cfg (rnId rn)\<rparr>"
  have c: "calm rn rn1"
    by (rule calm_core) (simp_all add: rn1_def peersInv_def)
  have v: "view (rn1\<lparr>configNotified := b, configEvents := ev\<rparr>) = view rn1" for b ev
    by (simp add: view_def)
  have "view (setConfig cfg i rn) = view rn1"
    unfolding setConfig_def Let_def rn1_def [symmetric] by (simp add: frame v)
  with c show ?thesis by (rule calm_then_view)
qed

lemma calm_refreshConfig: "calm rn (refreshConfigFromLog G rn)"
  by (auto simp: refreshConfigFromLog_def calm_setConfig split: option.splits)

lemma calm_stepDown: "calm rn (stepDownLocked rn)"
  unfolding stepDownLocked_def
  by (rule calm_then_view [of _ "rn\<lparr>role := RoleFollower, LeaderID := []\<rparr>"])
     (auto simp: frame intro: calm_role)

lemma becomeFollower_fields:
  "curTerm (becomeFollower t rn) = t" "role (becomeFollower t rn) = RoleFollower"
  "rnId (becomeFollower t rn) = rnId rn" "config (becomeFollower t rn) = config rn"
proof -
  define rn1 where "rn1 = (if t > curTerm rn then rn\<lparr>LeaderID := []\<rparr> else rn)"
  define rn2 where
    "rn2 = rn1\<lparr>ps := (ps rn1)\<lparr>CurrentTerm := t, VotedFor := []\<rparr>, role := RoleFollower\<rparr>"
  define rn4 where
    "rn4 = kickSyncerLocked (syncReplicatorsLocked (failWaitersLocked ErrNotLeader rn2))"
  have b: "persistMetaLocked rn4 = (fst (persistMetaLocked rn4), becomeFollower t rn)"
    unfolding becomeFollower_def Let_def rn1_def [symmetric] rn2_def [symmetric] rn4_def [symmetric]
    by simp
  have "view rn4 = view rn2"
    by (simp add: rn4_def frame)
  note v = view_fields [OF this]
  note f = persist_fields [OF b]
  have r: "curTerm rn2 = t" "role rn2 = RoleFollower" "rnId rn2 = rnId rn" "config rn2 = config rn"
    by (simp_all add: rn2_def rn1_def)
  show "curTerm (becomeFollower t rn) = t" "role (becomeFollower t rn) = RoleFollower"
    "rnId (becomeFollower t rn) = rnId rn" "config (becomeFollower t rn) = config rn"
    using v f r by simp_all
qed

lemma calm_becomeFollower:
  assumes "term > curTerm rn"
  shows "calm rn (becomeFollower term rn)"
proof -
  define rn2 where "rn2 = rn\<lparr>LeaderID := [], ps := (ps rn)\<lparr>CurrentTerm := term, VotedFor := []\<rparr>,
      role := RoleFollower\<rparr>"
  define rn4 where
    "rn4 = kickSyncerLocked (syncReplicatorsLocked (failWaitersLocked ErrNotLeader rn2))"
  obtain r rn5 where p: "persistMetaLocked rn4 = (r, rn5)"
    by (cases "persistMetaLocked rn4")
  have bf: "becomeFollower term rn = rn5"
    using assms p unfolding becomeFollower_def Let_def rn4_def rn2_def by simp
  have v: "view rn4 = view rn2"
    by (simp add: rn4_def frame)
  have f: "rnId rn4 = rnId rn" "curTerm rn4 = term" "role rn4 = RoleFollower"
      "config rn4 = config rn" "voterPeers rn4 = voterPeers rn"
    using view_fields [OF v] by (simp_all add: rn2_def)
  have mv: "metaView (store rn4) = metaView (store rn)"
    using v by (simp add: view_def rn2_def)
  note pf = persist_fields [OF p]
  have "nodeInv H rn5" if "nodeInv H rn" "term < 2 ^ 64" for H
  proof -
    have "memInv H rn4 \<and> diskInv H rn4 \<and> cacheInv rn4"
      using that(1) assms f(2) mv by (intro later_term [of H rn]) (simp_all add: nodeInv_def)
    then have "memInv H rn5 \<and> diskInv H rn5 \<and> cacheInv rn5"
      using persist_keeps [of H rn4 r rn5] p that(2) f(2) by simp
    moreover have "peersInv rn5"
      using that(1) pf f by (simp add: peersInv_def nodeInv_def)
    ultimately show ?thesis by (simp add: nodeInv_def)
  qed
  then show ?thesis
    using assms pf f by (auto simp: calm_def bf)
qed

lemma calm_persist:
  assumes "persistMetaLocked rn = (r, rn')"
  shows "calm rn rn'"
proof -
  note f = persist_fields [OF assms]
  have "nodeInv H rn'" if "nodeInv H rn" "curTerm rn < 2 ^ 64" for H
    using that persist_keeps [of H rn r rn'] assms f by (simp add: nodeInv_def peersInv_def)
  then show ?thesis
    using f by (simp add: calm_def)
qed

end
