(* ===== verification/RaftOps.thy ===== *)
theory RaftOps
  imports RaftVotes
begin

text \<open>
  Every operation of a node that is not a vote or an election is \<open>calm\<close>. The relation
  \<open>nodeOp\<close> collects them: it is the set of things a running node can do on its own or in
  answer to a message.
\<close>

section \<open>AppendEntries and the syncer\<close>

lemma view_truncate: "view ((setLog es rn)\<lparr>durableIndex := d\<rparr>) = view rn"
  by (simp add: setLog_def view_def)

lemma calm_appendLoop: "calm rn (snd (appendLoop G prev es rn))"
proof (induction es arbitrary: prev rn)
  case (Cons e es)
  let ?i = "prev + 1"
  show ?case
  proof (cases "?i \<le> lastLogIndex rn \<and> logTerm rn ?i = eTerm e")
    case True
    then show ?thesis using Cons.IH by simp
  next
    case False
    define rn1 where "rn1 = (if ?i \<le> lastLogIndex rn
        then (setLog (take (?i - logFirstIndex rn) (rlog rn)) rn)
          \<lparr>durableIndex := (if durableIndex rn \<ge> ?i then ?i - 1 else durableIndex rn)\<rparr> else rn)"
    define rn2 where "rn2 = setLog (rlog rn1 @ (e # es)) rn1"
    obtain err rn3 where e: "enqueueLocked (e # es) rn2 = (err, rn3)"
      by (cases "enqueueLocked (e # es) rn2")
    have "view rn1 = view rn"
      by (simp add: rn1_def view_truncate)
    then have "view rn2 = view rn"
      by (simp add: rn2_def frame)
    then have v: "view rn3 = view rn"
      using view_enqueue [of "e # es" rn2] e by simp
    have "appendLoop G prev (e # es) rn =
        (if err \<noteq> None
         then (False, refreshConfigFromLog G (setLog (take (?i - logFirstIndex rn3) (rlog rn3)) rn3))
         else (True, kickSyncerLocked (refreshConfigFromLog G rn3)))"
      unfolding appendLoop.simps(2) Let_def rn1_def [symmetric] rn2_def [symmetric] e prod.case
      using False by (rule if_not_P)
    moreover have "calm rn (refreshConfigFromLog G rn')" if "view rn' = view rn" for rn'
      using view_then_calm [OF that calm_refreshConfig] .
    moreover from this have "calm rn (kickSyncerLocked (refreshConfigFromLog G rn3))"
      using v calm_then_view view_kickSyncer by blast
    ultimately show ?thesis
      using v by (simp add: frame del: appendLoop.simps)
  qed
qed auto

lemma calm_acceptEntries: "calm rn (snd (acceptEntries G args reply rn))"
proof -
  have "calm rn (snd (appendLoop G prev es rn))" for prev es
    by (rule calm_appendLoop)
  moreover have "calm rn (advanceFollowerCommit lc t rn')" if "calm rn rn'" for lc t rn'
    using calm_then_view [OF that] by (simp add: frame)
  moreover have "calm rn (advanceFollowerCommit lc t rn)" for lc t
    by (rule calm_view) (simp add: frame)
  ultimately show ?thesis
    by (simp add: acceptEntries_def Let_def case_prod_unfold calm_refl)
qed

lemma calm_adoptTerm:
  "calm rn (snd (if t > curTerm rn then persistMetaLocked (becomeFollower t rn) else (None, rn)))"
proof (cases "t > curTerm rn")
  case True
  have "calm (becomeFollower t rn) (snd (persistMetaLocked (becomeFollower t rn)))"
    by (rule calm_persist) (rule prod.collapse [symmetric])
  with calm_becomeFollower [OF True] show ?thesis
    using True calm_trans by simp
qed auto

lemma calm_contact:
  "calm rn (noteLeaderContactLocked now (resetElectionTimer (rn\<lparr>role := RoleFollower, LeaderID := l\<rparr>)))"
  by (rule calm_then_view [OF calm_role]) (simp_all add: frame)

lemma calm_appendEntries: "calm rn (snd (appendEntriesLocked G now args rn))"
proof -
  define a where
    "a = (if aeTerm args > curTerm rn then persistMetaLocked (becomeFollower (aeTerm args) rn)
          else (None, rn))"
  define rn2 where "rn2 = noteLeaderContactLocked now
      (resetElectionTimer ((snd a)\<lparr>role := RoleFollower, LeaderID := aeLeaderID args\<rparr>))"
  have a: "calm rn (snd a)"
    unfolding a_def by (rule calm_adoptTerm)
  then have "calm rn rn2"
    unfolding rn2_def using calm_contact calm_trans by blast
  then have "calm rn (snd (acceptEntries G args rep rn2))" for rep
    using calm_acceptEntries calm_trans by blast
  with a show ?thesis
    unfolding appendEntriesLocked_def Let_def a_def [symmetric] case_prod_unfold rn2_def [symmetric]
    by auto
qed

lemma view_aeWaiters [frame]: "view (rn\<lparr>aeWaiters := w\<rparr>) = view rn"
  by (simp add: view_def)

lemma calm_HandleAppendEntries: "calm rn (snd (HandleAppendEntriesAsync G now args resp rn))"
proof -
  obtain reply w rn1 where a: "appendEntriesLocked G now args rn = ((reply, w), rn1)"
    by (metis prod.collapse)
  then have "calm rn rn1"
    using calm_appendEntries [of rn G now args] by simp
  then show ?thesis
    by (rule calm_then_view)
       (simp add: HandleAppendEntriesAsync_def a case_prod_unfold Let_def frame split: option.splits)
qed

lemma calm_persistFailure: "calm rn (onPersistFailureLocked G err rn)"
proof -
  have v: "view (rn\<lparr>persistFailed := True\<rparr>) = view rn"
    by (simp add: view_def)
  have w: "view (rn\<lparr>persistFailed := True, notified := n, waiters := ws\<rparr>) = view rn" for n ws
    by (simp add: view_def)
  have "calm rn (refreshConfigFromLog G (setLog es (rn\<lparr>persistFailed := True\<rparr>)))" for es
    by (rule view_then_calm [OF _ calm_refreshConfig]) (simp add: frame v)
  then show ?thesis
    using v w by (auto simp: onPersistFailureLocked_def Let_def intro: calm_view)
qed

lemma calm_syncEnd: "calm rn (snd (syncEnd G err idx t rn))"
proof -
  have "calm rn (if \<not> pipeline (markDurableLocked idx t rn) \<and> role (markDurableLocked idx t rn) = RoleLeader
      then kickReplicatorsLocked (markDurableLocked idx t rn) else markDurableLocked idx t rn)"
    by (rule calm_view) (simp add: frame)
  then have "calm rn (case err of
       None \<Rightarrow> (let r = markDurableLocked idx t rn
          in if \<not> pipeline r \<and> role r = RoleLeader then kickReplicatorsLocked r else r)
     | Some e \<Rightarrow> if e = ErrLogStoreClosed then rn else onPersistFailureLocked G e rn)"
    using calm_persistFailure [of rn G] by (auto simp: Let_def split: option.splits)
  then show ?thesis
    unfolding syncEnd_def Let_def by (rule calm_then_view) (simp add: frame)
qed

lemma calm_syncOnce: "calm rn (snd (syncOnce G wr ok rn))"
proof -
  obtain err s where f: "flush wr ok (store rn) = (err, s)"
    by (cases "flush wr ok (store rn)")
  then have "view (rn\<lparr>store := s\<rparr>) = view rn"
    using metaView_flush [of wr ok "store rn"] by (simp add: view_store)
  then show ?thesis
    using calm_syncEnd view_then_calm by (simp add: syncOnce_def syncBegin_def f)
qed

section \<open>Replies to the leader\<close>

lemma view_peerCaps [frame]: "view (rn\<lparr>peerCaps := c, capsKnown := k\<rparr>) = view rn"
  by (simp add: view_def)

lemma calm_handleAppendReply: "calm rn (handleAppendReply r pr now s reply rn)"
proof (cases "aerTerm reply > curTerm rn")
  case True
  then show ?thesis
    by (simp add: handleAppendReply_def calm_becomeFollower)
next
  case False
  then have "view (handleAppendReply r pr now s reply rn) = view rn"
    by (simp add: handleAppendReply_def Let_def frame)
  then show ?thesis by (rule calm_view)
qed

lemma calm_onAppendReply: "calm rn (onAppendReply r now s res rn)"
proof (cases "prHeap rn r")
  case (Some pr)
  define rn1 where "rn1 = (if asEntries s
      then updPR r (\<lambda>pr. pr\<lparr>prInflight := prInflight pr - 1\<rparr>) rn else rn)"
  define rn2 where "rn2 = (case res of None \<Rightarrow> onAppendLost r pr s rn1
      | Some reply \<Rightarrow> handleAppendReply r pr now s reply rn1)"
  have "view rn1 = view rn"
    by (simp add: rn1_def frame)
  moreover have "calm rn1 rn2"
    using calm_handleAppendReply [of rn1] calm_view [of "onAppendLost r pr s rn1" rn1]
    by (auto simp: rn2_def frame split: option.splits)
  ultimately have "calm rn rn2"
    by (rule view_then_calm)
  moreover have "\<exists>b. onAppendReply r now s res rn = (if b then updPR r wake rn2 else rn2)"
    unfolding onAppendReply_def Some Let_def option.case rn1_def rn2_def by (rule exI, rule refl)
  ultimately show ?thesis
    using calm_then_view [of rn rn2 "updPR r wake rn2"] by (auto simp: frame)
qed (simp add: onAppendReply_def calm_refl)

lemma calm_ReadIndex_reply: "calm rn (snd (ReadIndex_reply reply rr rn))"
  by (auto simp: ReadIndex_reply_def calm_becomeFollower)

lemma calm_preVote_reply: "calm rn (snd (preVote_reply reply pv rn))"
  by (auto simp: preVote_reply_def calm_becomeFollower)

lemma calm_stillLeading: "calm rn (snd (stillLeading t rt rn))"
  by (auto simp: stillLeading_def calm_becomeFollower)

section \<open>Timers\<close>

lemma view_preVote_end [frame]: "view (snd (preVote_end now td pv rn)) = view rn"
  by (simp add: preVote_end_def view_def)

lemma view_preVoteFailed [frame]: "view (preVoteFailed rn) = view rn"
  by (simp add: preVoteFailed_def frame)

lemma view_tickElection [frame]: "view (snd (tickElection gen rn)) = view rn"
  by (simp add: tickElection_def frame)

section \<open>Applying\<close>

lemma view_smCalls [frame]: "view (rn\<lparr>smCalls := c\<rparr>) = view rn"
  by (simp add: view_def)

lemma calm_onConfigCommitted: "calm rn (onConfigCommitted e rn)"
proof -
  have "view (rn\<lparr>removed := b\<rparr>) = view rn" for b
    by (simp add: view_def)
  then have "calm rn (stepDownLocked (rn\<lparr>removed := b\<rparr>))" "calm rn (rn\<lparr>removed := b\<rparr>)" for b
    using view_then_calm calm_stepDown calm_view by blast+
  then show ?thesis
    using calm_stepDown by (auto simp: onConfigCommitted_def Let_def)
qed

lemma calm_finishApplied: "calm rn (finishApplied e rn)"
proof -
  define rn3 where "rn3 = (let rn1 = rn\<lparr>lastApplied := eIndex e\<rparr>;
          rn2 = (if role rn1 = RoleLeader \<and> eIndex e \<ge> termStartIndex rn1
                 then rn1\<lparr>leaderReady := True\<rparr> else rn1)
       in rn2\<lparr>notified := notified rn2 @
                map (\<lambda>(i, ch). (ch, None)) (filter (\<lambda>(i, ch). i = eIndex e) (waiters rn2)),
              waiters := filter (\<lambda>(i, ch). i \<noteq> eIndex e) (waiters rn2)\<rparr>)"
  have "view rn3 = view rn"
    by (simp add: rn3_def Let_def view_def)
  then have "calm rn rn3" "calm rn (onConfigCommitted e rn3)"
    using calm_view view_then_calm calm_onConfigCommitted by blast+
  then show ?thesis
    by (simp add: finishApplied_def rn3_def Let_def)
qed

lemma calm_fold_finish: "calm rn (fold finishApplied es rn)"
proof (induction es arbitrary: rn)
  case (Cons e es)
  show ?case
    using calm_trans [OF calm_finishApplied Cons.IH] by simp
qed auto

lemma calm_applyBatchRun: "calm rn (applyBatchRun es rn)"
  unfolding applyBatchRun_def by (rule view_then_calm [OF _ calm_fold_finish]) (simp add: frame)

lemma calm_applySingle: "calm rn (applySingle e rn)"
  unfolding applySingle_def by (rule view_then_calm [OF _ calm_finishApplied]) (simp add: frame)

lemma calm_applyEntries: "calm rn (applyEntries es rn)"
proof (induction es rn rule: applyEntries.induct)
  case (2 e es rn)
  show ?case
  proof (cases "hasBatchSM rn \<and> batchable e")
    case True
    then show ?thesis
      using calm_trans [OF calm_applyBatchRun "2.IH"(1) [OF True]] by simp
  next
    case False
    then show ?thesis
      using calm_trans [OF calm_applySingle "2.IH"(2) [OF False]] by (simp only: applyEntries.simps if_False)
  qed
qed auto

lemma calm_applyOneRun: "calm rn (snd (applyOneRun rn))"
proof -
  have "calm rn (recordApplied e (applyEntries es rn))" for e es
    by (rule calm_then_view [OF calm_applyEntries [of rn es]]) (simp add: recordApplied_def frame)
  then show ?thesis
    by (auto simp: applyOneRun_def Let_def)
qed

section \<open>Membership\<close>

lemma calm_proposeConfig: "calm rn (snd (proposeConfigLocked G nxt rn))"
proof (cases "gobEncode G nxt")
  case (Some cmd)
  obtain entry ch rn1 where a: "appendEntryLocked EntryConfig cmd rn = ((entry, ch), rn1)"
    by (metis prod.collapse)
  obtain err rn2 where e: "enqueueLocked [entry] rn1 = (err, rn2)"
    by (cases "enqueueLocked [entry] rn1")
  have v: "view rn2 = view rn"
    using view_appendEntry [of EntryConfig cmd rn] view_enqueue [of "[entry]" rn1] a e by simp
  then have "calm rn (setConfig nxt i rn2)" for i
    using view_then_calm calm_setConfig by blast
  then have "calm rn (kickReplicatorsOnAppendLocked (kickSyncerLocked (setConfig nxt i rn2)))" for i
    by (rule calm_then_view) (simp add: frame)
  moreover have "calm rn ((setLog es rn2)\<lparr>waiters := w\<rparr>)" for es w
    using v by (intro calm_view) (simp add: frame)
  ultimately show ?thesis
    by (auto simp: proposeConfigLocked_def Some a e split: option.splits)
qed (auto simp: proposeConfigLocked_def)

lemma calm_proposed: "calm rn (snd r) \<Longrightarrow> calm rn (snd (proposed r))"
  by (auto simp: proposed_def split: prod.splits sum.splits)

lemma calm_AddMember_resume: "calm rn (snd (AddMember_resume G now dl i addr known rn))"
  using calm_proposed [OF calm_proposeConfig]
  by (auto simp: AddMember_resume_def split: wait_poll.splits option.splits)

lemma calm_AddMember: "calm rn (snd (AddMember G now i addr known rn))"
  using calm_AddMember_resume by (auto simp: AddMember_def split: option.splits)

lemma calm_RemoveMember_propose: "calm rn (snd (RemoveMember_propose G i rn))"
  using calm_proposed [OF calm_proposeConfig]
  by (auto simp: RemoveMember_propose_def split: option.splits)

lemma calm_RemoveMember_resume: "calm rn (snd (RemoveMember_resume G now dl i rn))"
  using calm_RemoveMember_propose by (auto simp: RemoveMember_resume_def split: wait_poll.splits)

lemma calm_RemoveMember: "calm rn (snd (RemoveMember G now i rn))"
  using calm_RemoveMember_resume calm_RemoveMember_propose
  by (auto simp: RemoveMember_def split: option.splits)

lemma view_learnerRounds [frame]: "view (rn\<lparr>learnerRounds := l\<rparr>) = view rn"
  by (simp add: view_def)

lemma calm_promoteLoop: "calm rn (promoteLoop G now ids rn)"
proof (induction ids arbitrary: rn)
  case (Cons i ids)
  have f: "calm rn (promoteLoop G now ids (rn\<lparr>learnerRounds := l\<rparr>))" for l
    by (rule view_then_calm [OF _ Cons.IH]) (simp add: frame)
  have p: "calm rn rn1" "calm rn (rn1\<lparr>learnerRounds := l\<rparr>)"
    if "proposeConfigLocked G nxt rn = (x, rn1)" for nxt x rn1 l
    using calm_proposeConfig [of rn G nxt] that calm_then_view [of rn rn1] by (auto simp: frame)
  show ?case
    using f p Cons.IH [of rn] by (auto simp: Let_def split: option.split prod.split sum.split)
qed auto

lemma calm_maybePromote: "calm rn (maybePromoteLearnersLocked G now rn)"
proof -
  have "calm rn (promoteLoop G now ids (rn\<lparr>learnerRounds := l\<rparr>))" for ids l
    by (rule view_then_calm [OF _ calm_promoteLoop]) (simp add: frame)
  then show ?thesis
    by (auto simp: maybePromoteLearnersLocked_def Let_def frame intro: calm_view)
qed

lemma calm_tickHeartbeat: "calm rn (tickHeartbeat G now rn)"
  using view_then_calm [OF view_heartbeat calm_maybePromote] by (auto simp: tickHeartbeat_def)

lemma calm_AddPeer: "calm rn (AddPeer i rn)"
proof -
  have "view (rn\<lparr>baseConfig := c\<rparr>) = view rn" for c
    by (simp add: view_def)
  then have "calm rn (setConfig c i' (rn\<lparr>baseConfig := b\<rparr>))" for c i' b
    using view_then_calm calm_setConfig by blast
  then show ?thesis
    using calm_setConfig by (auto simp: AddPeer_def Let_def)
qed

section \<open>Snapshots\<close>

lemma view_captureEnd [frame]: "view (captureEnd ok now rn) = view rn"
  by (simp add: captureEnd_def Let_def view_def)

lemma view_maybeSnapshot [frame]: "view (snd (maybeSnapshot now rn)) = view rn"
  by (simp add: maybeSnapshot_def Let_def view_def)

lemma view_snapFile [frame]: "view (rn\<lparr>snapFile := f\<rparr>) = view rn"
  by (simp add: view_def)

lemma view_compact [frame]: "view (compactLocked out ok meta rn) = view rn"
proof -
  have "view ((if b then setLog es rn else rn)\<lparr>lastIncludedIndex := i, lastIncludedTerm := t,
      baseConfig := c, baseConfigIndex := ci\<rparr>) = view rn" for b es i t c ci
    by (simp add: setLog_def view_def)
  then show ?thesis
    by (simp add: compactLocked_def Let_def frame)
qed

lemma view_takeSnapshot [frame]: "view (takeSnapshot_install rename out ok now meta bs rn) = view rn"
  by (simp add: takeSnapshot_install_def frame split: atomic_outcome.split)

lemma view_sendSnapshot [frame]:
  "view (snd (sendSnapshot_begin p t rn)) = view rn"
  "view (snd (sendSnapshot_end p t meta rn)) = view rn"
  "view (sendSnapshot_release p rn) = view rn"
  "view (transferEnd r i c now rn) = view rn"
  by (simp_all add: sendSnapshot_begin_def sendSnapshot_end_def sendSnapshot_release_def
      transferEnd_def Let_def frame) (simp_all add: view_def)

lemma calm_acceptLeader: "calm rn (snd (acceptLeaderLocked now t l rn))"
proof -
  define a where
    "a = (if t > curTerm rn then persistMetaLocked (becomeFollower t rn) else (None, rn))"
  have a: "calm rn (snd a)"
    unfolding a_def by (rule calm_adoptTerm)
  then have "calm rn (noteLeaderContactLocked now
      (resetElectionTimer ((snd a)\<lparr>role := RoleFollower, LeaderID := l\<rparr>)))"
    using calm_contact calm_trans by blast
  with a show ?thesis
    unfolding acceptLeaderLocked_def a_def [symmetric] case_prod_unfold Let_def
    by (simp add: calm_refl)
qed

lemma view_recv [frame]: "view (rn\<lparr>recv := r\<rparr>) = view rn"
  by (simp add: view_def)

lemma view_receiveChunk [frame]: "view (snd (receiveChunk ok args st rep rn)) = view rn"
  by (simp add: receiveChunk_def Let_def frame) (simp add: view_def)

lemma view_finishReceive [frame]: "view (finishReceive st rn) = view rn"
  by (simp add: finishReceive_def view_def)

lemma calm_InstallChunk: "calm rn (snd (HandleInstallSnapshotChunk now oo wo args rn))"
proof (cases "legacyPeer rn")
  case False
  obtain ok rn1 where a: "acceptLeaderLocked now (icTerm args) (icLeaderID args) rn = (ok, rn1)"
    by (cases "acceptLeaderLocked now (icTerm args) (icLeaderID args) rn")
  have c: "calm rn rn1"
    using calm_acceptLeader [of rn now "icTerm args" "icLeaderID args"] a by simp
  have "view (snd (HandleInstallSnapshotChunk now oo wo args rn)) = view rn1"
    unfolding HandleInstallSnapshotChunk_def a Let_def prod.case
    using False by (simp add: frame split: option.split recvState.split)
  with c show ?thesis by (rule calm_then_view)
qed (simp add: HandleInstallSnapshotChunk_def calm_refl)

lemma calm_installLog: "calm rn (snd (installLog G out ok meta rn))"
proof -
  have "view ((setLog es rn)\<lparr>lastIncludedIndex := i, lastIncludedTerm := t, commitIndex := ci,
      baseConfig := c, baseConfigIndex := bi\<rparr>) = view rn" for es i t ci c bi
    by (simp add: setLog_def view_def)
  then have "calm rn (refreshConfigFromLog G ((setLog es rn)\<lparr>lastIncludedIndex := i,
      lastIncludedTerm := t, commitIndex := ci, baseConfig := c, baseConfigIndex := bi\<rparr>))"
    for es i t ci c bi
    using view_then_calm calm_refreshConfig by blast
  then show ?thesis
    unfolding installLog_def Let_def by (rule calm_then_view) (simp add: frame)
qed

lemma view_installApplied [frame]: "view (installApplied meta rn) = view rn"
  by (simp add: installApplied_def frame) (simp add: view_def)

lemma calm_installSnapshot:
  "calm rn (snd (snd (installSnapshot G rename out ok tries meta bs rn)))"
proof -
  obtain dec rn1 where i: "installLog G out ok meta (rn\<lparr>snapFile := Some bs\<rparr>) = (dec, rn1)"
    by (cases "installLog G out ok meta (rn\<lparr>snapFile := Some bs\<rparr>)")
  have "calm (rn\<lparr>snapFile := Some bs\<rparr>) rn1"
    using calm_installLog [of "rn\<lparr>snapFile := Some bs\<rparr>" G out ok meta] i by simp
  then have c: "calm rn rn1"
    by (rule view_then_calm [OF view_snapFile])
  consider "view (snd (snd (installSnapshot G rename out ok tries meta bs rn))) = view rn"
    | "view (snd (snd (installSnapshot G rename out ok tries meta bs rn))) = view rn1"
    unfolding installSnapshot_def i Let_def prod.case
    by (cases "stopped rn \<or> installStale meta rn \<or> rename \<noteq> AtomicOk")
       (auto simp: frame case_prod_unfold)
  then show ?thesis
    using c calm_view calm_then_view by cases blast+
qed

section \<open>All operations\<close>

text \<open>The operations of a running node other than voting and campaigning.\<close>

inductive nodeOp :: "gob \<Rightarrow> RaftNode \<Rightarrow> RaftNode \<Rightarrow> bool" for G where
  appendEntries: "nodeOp G rn (snd (HandleAppendEntriesAsync G now args resp rn))"
| flushStore: "nodeOp G rn (rn\<lparr>store := snd (flush wr ok (store rn))\<rparr>)"
| syncEnd: "nodeOp G rn (snd (syncEnd G err idx t rn))"
| replicate: "nodeOp G rn (snd (snd (replicate_peer r now rn)))"
| appendReply: "nodeOp G rn (onAppendReply r now s res rn)"
| submit: "nodeOp G rn (snd (flushBatch batch rn))"
| timeout: "nodeOp G rn (removeWaiter idx ch rn)"
| preVoteReply: "nodeOp G rn (snd (preVote_reply reply pv rn))"
| preVoteEnd: "nodeOp G rn (snd (preVote_end now td pv rn))"
| preVoteFailed: "nodeOp G rn (preVoteFailed rn)"
| tickElection: "nodeOp G rn (snd (tickElection gen rn))"
| tickHeartbeat: "nodeOp G rn (tickHeartbeat G now rn)"
| finishApplied: "nodeOp G rn (finishApplied e rn)"
| applyOneRun: "nodeOp G rn (snd (applyOneRun rn))"
| addMember: "nodeOp G rn (snd (AddMember G now i addr known rn))"
| addResume: "nodeOp G rn (snd (AddMember_resume G now dl i addr known rn))"
| removeMember: "nodeOp G rn (snd (RemoveMember G now i rn))"
| removeResume: "nodeOp G rn (snd (RemoveMember_resume G now dl i rn))"
| addPeer: "nodeOp G rn (AddPeer i rn)"
| readReply: "nodeOp G rn (snd (ReadIndex_reply areply rr rn))"
| maybeSnapshot: "nodeOp G rn (snd (maybeSnapshot now rn))"
| takeSnapshot: "nodeOp G rn (takeSnapshot_install rename out ok now meta bs rn)"
| sendBegin: "nodeOp G rn (snd (sendSnapshot_begin p t rn))"
| sendEnd: "nodeOp G rn (snd (sendSnapshot_end p t meta rn))"
| sendRelease: "nodeOp G rn (sendSnapshot_release p rn)"
| transferEnd: "nodeOp G rn (transferEnd r inst conf now rn)"
| stillLeading: "nodeOp G rn (snd (stillLeading t rt rn))"
| installChunk: "nodeOp G rn (snd (HandleInstallSnapshotChunk now oo wo cargs rn))"
| finishReceive: "nodeOp G rn (finishReceive st rn)"
| installSnapshot: "nodeOp G rn (snd (snd (installSnapshot G rename out ok tries meta bs rn)))"

lemma nodeOp_calm: "nodeOp G rn rn' \<Longrightarrow> calm rn rn'"
proof (induction rule: nodeOp.induct)
  case (flushStore rn wr ok)
  then show ?case by (intro calm_view view_store metaView_flush)
qed (intro calm_HandleAppendEntries calm_syncEnd calm_onAppendReply calm_preVote_reply
    calm_tickHeartbeat calm_finishApplied calm_applyOneRun calm_AddMember calm_AddMember_resume
    calm_RemoveMember calm_RemoveMember_resume calm_AddPeer calm_ReadIndex_reply calm_stillLeading
    calm_InstallChunk calm_installSnapshot calm_view; simp add: frame)+

end
