(* ===== verification/RaftElectionSafety.thy ===== *)
theory RaftElectionSafety
  imports RaftOps
begin

text \<open>
  Votes, campaigns and restarts of one node against the vote invariant of \<open>RaftVotes\<close>: a
  granted vote is in memory and in every version of the meta file before the reply leaves,
  a campaign begins with a durable vote for itself, and a restart from any version of the
  files that a crash can leave forgets none of the votes.
\<close>

section \<open>Voting\<close>

definition functional :: "votes \<Rightarrow> bool" where
  "functional H \<longleftrightarrow> (\<forall>t c c'. (t, c) \<in> H \<longrightarrow> (t, c') \<in> H \<longrightarrow> c = c')"

lemma functional_insert:
  assumes "functional H" "memInv (insert (curTerm rn, c) H) rn"
  shows "functional (insert (curTerm rn, c) H)"
proof -
  have "c' = votedFor rn" if "(curTerm rn, c') \<in> insert (curTerm rn, c) H" for c'
    using assms(2) that by (auto simp: memInv_def covers_def memMeta_def)
  then show ?thesis
    using assms(1) unfolding functional_def by (metis insert_iff prod.inject)
qed

lemma diskInv_insert:
  assumes "diskInv H rn" "\<forall>f \<in> metaFiles (store rn). readMeta f = Inr (Some (memMeta rn))"
  shows "diskInv (insert (curTerm rn, votedFor rn) H) rn"
  unfolding diskInv_def
proof
  fix f
  assume f: "f \<in> metaFiles (store rn)"
  have "readMeta f = Inr (Some (memMeta rn))"
    using assms(2) f by blast
  moreover obtain m where "readMeta f = Inr (Some m)" "\<forall>(t, c) \<in> H. covers m t c"
    using assms(1) f by (auto simp: diskInv_def)
  ultimately show "\<exists>m. readMeta f = Inr (Some m) \<and> mTerm m \<le> curTerm rn \<and>
      (\<forall>(t, c) \<in> insert (curTerm rn, votedFor rn) H. covers m t c)"
    by (intro exI [of _ "memMeta rn"]) (auto simp: covers_def memMeta_def)
qed

text \<open>A vote that was written: memory and every possible meta file remember it.\<close>

lemma persisted_vote:
  assumes inv: "memInv H rn" "diskInv H rn" "cacheInv rn" "peersInv rn"
    and t: "curTerm rn < 2 ^ 64" and v: "votedFor rn \<noteq> []"
    and p: "persistMetaLocked rn = (None, rn')"
  shows "nodeInv (insert (curTerm rn, votedFor rn) H) rn'"
proof -
  note f = persist_fields [OF p]
  have k: "memInv H rn'" "diskInv H rn'" "cacheInv rn'"
      "\<forall>f \<in> metaFiles (store rn'). readMeta f = Inr (Some (memMeta rn'))"
    using persist_keeps [of H rn None rn'] inv t p v f(2,3) by (simp_all add: memMeta_def)
  have "memInv (insert (curTerm rn', votedFor rn') H) rn'"
    using k(1) v f(3) by (auto simp: memInv_def covers_def memMeta_def)
  moreover have "peersInv rn'"
    using inv(4) f by (simp add: peersInv_def)
  ultimately show ?thesis
    using k diskInv_insert [of H rn'] f(2,3) by (simp add: nodeInv_def)
qed

lemma grantVote_ok:
  assumes g: "grantVote args rn = (g, rn')" and inv: "nodeInv H rn" and t: "curTerm rn < 2 ^ 64"
    and c: "rvCandidateID args \<noteq> []"
  shows "nodeInv (if g then insert (curTerm rn, rvCandidateID args) H else H) rn' \<and>
    rnId rn' = rnId rn \<and> curTerm rn' = curTerm rn \<and> role rn' = role rn \<and> config rn' = config rn"
proof (cases "(votedFor rn = [] \<or> votedFor rn = rvCandidateID args) \<and>
    logUpToDate rn (rvLastLogTerm args) (rvLastLogIndex args)")
  case False
  then have "g = False \<and> rn' = rn"
    using g unfolding grantVote_def Let_def by (metis (no_types, lifting) prod.inject)
  then show ?thesis using inv by simp
next
  case True
  let ?c = "rvCandidateID args"
  define rnv where "rnv = rn\<lparr>ps := (ps rn)\<lparr>VotedFor := ?c\<rparr>\<rparr>"
  obtain err rn1 where p: "persistMetaLocked rnv = (err, rn1)"
    by (cases "persistMetaLocked rnv")
  have g': "(g, rn') = (if err \<noteq> None then (False, rn1\<lparr>ps := (ps rn1)\<lparr>VotedFor := votedFor rn\<rparr>\<rparr>)
      else (True, resetElectionTimer rn1))"
    using g True p unfolding grantVote_def Let_def rnv_def by simp
  note f = persist_fields [OF p]
  have fv: "curTerm rnv = curTerm rn" "votedFor rnv = ?c" "store rnv = store rn"
      "config rnv = config rn" "voterPeers rnv = voterPeers rn" "rnId rnv = rnId rn" "role rnv = role rn"
    by (simp_all add: rnv_def)
  have old: "memInv H rn" "diskInv H rn" "cacheInv rn" "peersInv rn"
    using inv by (simp_all add: nodeInv_def)
  have v: "votedFor rn = [] \<or> votedFor rn = ?c"
    using True by blast
  have "memInv H rnv"
    using old(1) v by (fastforce simp: memInv_def covers_def memMeta_def rnv_def)
  moreover have "diskInv H rnv"
    using old(2) by (simp add: diskInv_def rnv_def)
  moreover have "cacheInv rnv"
    using old(3) v by (auto simp: cacheInv_def rnv_def Let_def)
  moreover have "peersInv rnv"
    using old(4) by (simp add: peersInv_def rnv_def)
  ultimately have pre: "memInv H rnv" "diskInv H rnv" "cacheInv rnv" "peersInv rnv"
    by simp_all
  show ?thesis
  proof (cases "err = None")
    case True
    then have "nodeInv (insert (curTerm rn, ?c) H) rn1"
      using persisted_vote [OF pre, of rn1] p t c fv by simp
    moreover have "g" "rn' = resetElectionTimer rn1"
      using g' True by simp_all
    ultimately show ?thesis
      using nodeInv_view [OF view_resetTimer, of _ rn1] view_fields [OF view_resetTimer [of rn1]] f fv
      by simp
  next
    case False
    then have r: "g = False" "rn' = rn1\<lparr>ps := (ps rn1)\<lparr>VotedFor := votedFor rn\<rparr>\<rparr>"
      using g' by simp_all
    have k: "memInv H rn1" "diskInv H rn1" "cacheInv rn1"
      using persist_keeps [of H rnv err rn1] pre p t fv by simp_all
    have ct: "curTerm rn' = curTerm rn" "votedFor rn' = votedFor rn" "store rn' = store rn1"
      using r f fv by simp_all
    have "memInv H rn'"
      using old(1) ct by (simp add: memInv_def memMeta_def)
    moreover have "diskInv H rn'"
      using k(2) ct f fv by (simp add: diskInv_def)
    moreover have "cacheInv rn'"
    proof (cases "votedFor rn = ?c")
      case True
      then have "votedFor rn' = votedFor rn1" "curTerm rn' = curTerm rn1"
        using ct f fv by simp_all
      then show ?thesis using k(3) ct(3) by (simp add: cacheInv_def)
    next
      case False
      then have e: "votedFor rn = []" using v by blast
      have t64: "mTerm (memMeta rnv) < 2 ^ 64"
        using t fv by (simp add: memMeta_def)
      obtain out where "saveMeta out (memMeta rnv) (store rn) = (err, store rn1)"
        using persistMeta_eq [of rnv] p fv by auto
      from this t64 have s: "sMeta (store rn1) = sMeta (store rn)" "sHasMeta (store rn1) = sHasMeta (store rn)"
        by (cases rule: saveMeta_cases; use \<open>err \<noteq> None\<close> in simp)+
      have "sHasMeta (store rn) \<Longrightarrow> mTerm (sMeta (store rn)) = curTerm rn \<Longrightarrow> mVote (sMeta (store rn)) = []"
        using old(3) e by (auto simp: cacheInv_def Let_def)
      then show ?thesis
        using old(3) s ct by (auto simp: cacheInv_def Let_def)
    qed
    moreover have "peersInv rn'"
      using old(4) r f fv by (simp add: peersInv_def)
    ultimately show ?thesis
      using r f fv by (simp add: nodeInv_def)
  qed
qed

text \<open>
  What answering a RequestVote does: it records at most the one vote it grants.
\<close>

definition voteEffect :: "votes \<Rightarrow> RaftNode \<Rightarrow> votes \<Rightarrow> RaftNode \<Rightarrow> bool" where
  "voteEffect H rn H' rn' \<longleftrightarrow> H \<subseteq> H' \<and> nodeInv H' rn' \<and> functional H' \<and> rnId rn' = rnId rn \<and>
     (role rn' = RoleLeader \<longrightarrow> role rn = RoleLeader \<and> curTerm rn' = curTerm rn)"

lemma voteEffect_calm:
  assumes "calm rn rn'" "nodeInv H rn" "functional H" "curTerm rn' < 2 ^ 64"
  shows "voteEffect H rn H rn'"
  using assms by (auto simp: voteEffect_def calm_def)

lemma HandleRequestVote_ok:
  assumes h: "HandleRequestVote now args rn = (reply, rn')" and inv: "nodeInv H rn" "functional H"
    and t: "curTerm rn' < 2 ^ 64" and v: "[] \<notin> set (Servers (config rn))"
  shows "\<exists>H'. voteEffect H rn H' rn' \<and>
    (rvrVoteGranted reply \<and> \<not> rvPreVote args \<longrightarrow> (rvTerm args, rvCandidateID args) \<in> H')"
proof (cases "containsVoter (config rn) (rvCandidateID args) \<and> \<not> rvPreVote args \<and>
    rvTerm args \<ge> curTerm rn")
  case False
  then have "rn' = rn \<and> (rvPreVote args \<or> \<not> rvrVoteGranted reply)"
    using h by (auto simp: HandleRequestVote_def Let_def split: if_splits)
  then show ?thesis
    using inv t by (intro exI [of _ H]) (auto simp: voteEffect_def)
next
  case True
  define a where "a = (if rvTerm args > curTerm rn
      then persistMetaLocked (becomeFollower (rvTerm args) rn) else (None, rn))"
  have c: "calm rn (snd a)"
    unfolding a_def by (rule calm_adoptTerm)
  have ta: "curTerm (snd a) = rvTerm args" "config (snd a) = config rn"
    using True becomeFollower_fields [of "rvTerm args" rn]
      persist_fields [of "becomeFollower (rvTerm args) rn" "fst a" "snd a"]
    by (auto simp: a_def split: if_splits)
  show ?thesis
  proof (cases "fst a = None")
    case False
    then have r: "rn' = snd a" "\<not> rvrVoteGranted reply"
      using h True unfolding HandleRequestVote_def Let_def a_def [symmetric] case_prod_unfold
      by (auto split: if_splits)
    show ?thesis
      using voteEffect_calm [of rn "snd a" H] c inv t r by (intro exI [of _ H]) simp
  next
    case none: True
    obtain g rn2 where g: "grantVote args (snd a) = (g, rn2)"
      by (cases "grantVote args (snd a)")
    have r: "rn' = rn2" "rvrVoteGranted reply = g"
      using h True none g unfolding HandleRequestVote_def Let_def a_def [symmetric] case_prod_unfold
      by (auto split: if_splits)
    have cand: "rvCandidateID args \<noteq> []"
      using True v by (auto simp: containsVoter_def)
    define H' where "H' = (if g then insert (rvTerm args, rvCandidateID args) H else H)"
    have t64: "curTerm (snd a) < 2 ^ 64" and ia: "nodeInv H (snd a)"
    proof -
      have "curTerm rn2 = curTerm (snd a)"
        using g by (auto simp: grantVote_def Let_def resetElectionTimer_def case_prod_unfold
            persist_fields [OF prod.collapse [symmetric]] split: if_splits)
      then show t64: "curTerm (snd a) < 2 ^ 64" using t r by simp
      then show "nodeInv H (snd a)" using c inv(1) by (simp add: calm_def)
    qed
    note gv = grantVote_ok [OF g ia t64 cand]
    have n: "nodeInv H' rn2"
      using gv ta by (cases g) (simp_all add: H'_def)
    then have "functional H'"
      using inv(2) functional_insert [of H rn2 "rvCandidateID args"] gv ta
      by (auto simp: H'_def nodeInv_def)
    then have "voteEffect H rn H' rn'"
      using n gv c r by (auto simp: voteEffect_def calm_def H'_def)
    then show ?thesis
      using r by (intro exI [of _ H']) (simp add: H'_def)
  qed
qed

section \<open>Campaigning\<close>

lemma view_becomeLeader: "view (becomeLeader rn) = view (rn\<lparr>role := RoleLeader\<rparr>)"
proof -
  define rn1 where "rn1 = rn\<lparr>role := RoleLeader, LeaderID := rnId rn,
      nextIndex := (\<lambda>p. if p \<in> set (rnPeers rn) then lastLogIndex rn + 1 else nextIndex rn p),
      matchIndex := (\<lambda>p. if p \<in> set (rnPeers rn) then 0 else matchIndex rn p),
      lastAck := (\<lambda>_. None), learnerRounds := (\<lambda>_. None)\<rparr>"
  have "view ((setLog es rn1)\<lparr>termStartIndex := i, leaderReady := b\<rparr>) = view (rn\<lparr>role := RoleLeader\<rparr>)"
    for es i b
    by (simp add: rn1_def setLog_def view_def)
  then show ?thesis
    unfolding becomeLeader_def Let_def rn1_def [symmetric] case_prod_unfold by (simp add: frame)
qed

lemma nodeInv_role: "nodeInv H (rn\<lparr>role := r\<rparr>) = nodeInv H rn"
  by (simp add: nodeInv_def memInv_def diskInv_def cacheInv_def peersInv_def memMeta_def)

lemma becomeLeader_fields:
  "rnId (becomeLeader rn) = rnId rn" "curTerm (becomeLeader rn) = curTerm rn"
  "role (becomeLeader rn) = RoleLeader" "nodeInv H (becomeLeader rn) = nodeInv H rn"
  using view_fields [OF view_becomeLeader [of rn]] nodeInv_view [OF view_becomeLeader [of rn]]
  by (simp_all add: nodeInv_role)

text \<open>The three ways an election can begin: not at all, failed, or with a durable self-vote.\<close>

lemma startElection_ok:
  assumes s: "startElection rn = (r, rn')" and inv: "nodeInv H rn" "functional H"
    and t: "curTerm rn' < 2 ^ 64" and v: "[] \<notin> set (Servers (config rn))"
  shows "r = None \<and> role rn' \<noteq> RoleLeader \<and> voteEffect H rn H rn' \<or>
    r = None \<and> rn' = rn \<or>
    (let H' = insert (curTerm rn', rnId rn) H in
       H' \<supseteq> H \<and> nodeInv H' rn' \<and> functional H' \<and> rnId rn' = rnId rn \<and>
       containsVoter (config rn) (rnId rn) \<and>
       (role rn' = RoleLeader \<longrightarrow> quorumSize rn \<le> 1) \<and>
       (\<forall>el. r = Some el \<longrightarrow> elTerm el = curTerm rn' \<and> elVotes el = 1 \<and> elNeeded el = quorumSize rn \<and>
          elPeers el = filter (\<lambda>s. s \<noteq> rnId rn) (Servers (config rn)) \<and>
          rvTerm (elArgs el) = curTerm rn' \<and> rvCandidateID (elArgs el) = rnId rn \<and>
          \<not> rvPreVote (elArgs el)))"
proof (cases "removed rn \<or> \<not> containsVoter (config rn) (rnId rn) \<or> role rn = RoleLeader")
  case True
  then show ?thesis using s by (simp add: startElection_def)
next
  case False
  define rn0 where "rn0 = rn\<lparr>ps := (ps rn)\<lparr>CurrentTerm := curTerm rn + 1, VotedFor := rnId rn\<rparr>\<rparr>"
  obtain err rn1 where p: "persistMetaLocked rn0 = (err, rn1)"
    by (cases "persistMetaLocked rn0")
  note f = persist_fields [OF p]
  have f0: "rnId rn0 = rnId rn" "curTerm rn0 = curTerm rn + 1" "votedFor rn0 = rnId rn"
      "role rn0 = role rn" "config rn0 = config rn" "voterPeers rn0 = voterPeers rn"
      "metaView (store rn0) = metaView (store rn)"
    by (simp_all add: rn0_def)
  define rn2 where "rn2 = resetElectionTimer
      (kickSyncerLocked (rn1\<lparr>role := RoleCandidate, LeaderID := []\<rparr>))"
  have v2: "view rn2 = view (rn1\<lparr>role := RoleCandidate\<rparr>)"
    by (simp add: rn2_def frame) (simp add: view_def)
  note fv2 = view_fields [OF v2]
  have q: "quorumSize rn2 = quorumSize rn" "curTerm rn2 = curTerm rn + 1" "rnId rn2 = rnId rn"
      "voterPeers rn2 = voterPeers rn" "config rn2 = config rn" "role rn2 = RoleCandidate"
    using fv2 f f0 by (simp_all add: quorumSize_def)
  have st: "startElection rn = (if err \<noteq> None then (None, resetElectionTimer rn1)
      else if quorumSize rn2 \<le> 1 then (None, becomeLeader rn2)
      else (Some \<lparr>elTerm = curTerm rn2,
                  elArgs = \<lparr>rvTerm = curTerm rn2, rvCandidateID = rnId rn2,
                            rvLastLogIndex = lastLogIndex rn2,
                            rvLastLogTerm = lastLogTerm rn2, rvPreVote = False\<rparr>,
                  elPeers = voterPeers rn2, elNeeded = quorumSize rn2, elVotes = 1\<rparr>, rn2))"
    using False unfolding startElection_def Let_def rn0_def [symmetric] p prod.case
      rn2_def [symmetric] by simp
  have ct: "curTerm rn' = curTerm rn + 1"
    using s st q becomeLeader_fields [where rn = rn2] f f0 view_fields [OF view_resetTimer [of rn1]]
    by (auto split: if_splits)
  then have t0: "curTerm rn0 < 2 ^ 64"
    using t f0 by simp
  have pre: "memInv H rn0 \<and> diskInv H rn0 \<and> cacheInv rn0" and pp: "peersInv rn0"
    using later_term [of H rn rn0] inv f0 by (simp_all add: nodeInv_def peersInv_def)
  show ?thesis
  proof (cases "err = None")
    case False
    then have r: "r = None" "rn' = resetElectionTimer rn1"
      using s st by simp_all
    have "nodeInv H rn1"
      using persist_keeps [of H rn0 err rn1] pre t0 p pp f f0 by (simp add: nodeInv_def peersInv_def)
    then have "nodeInv H rn'" "role rn' = role rn" "rnId rn' = rnId rn"
      using nodeInv_view [OF view_resetTimer [of rn1]] view_fields [OF view_resetTimer [of rn1]] r f f0
      by simp_all
    then show ?thesis
      using \<open>\<not> (removed rn \<or> _)\<close> r inv(2) by (auto simp: voteEffect_def)
  next
    case True
    let ?H = "insert (curTerm rn + 1, rnId rn) H"
    have i: "rnId rn \<noteq> []"
      using v \<open>\<not> (removed rn \<or> _)\<close> by (auto simp: containsVoter_def)
    have "nodeInv ?H rn1"
      using persisted_vote [of H rn0 rn1] pre pp t0 p True f0 i by simp
    then have n2: "nodeInv ?H rn2"
      using nodeInv_view [OF v2] by (simp add: nodeInv_role)
    have "nodeInv ?H rn'" "rnId rn' = rnId rn"
      using s st True n2 q becomeLeader_fields [where rn = rn2] by (auto split: if_splits)
    moreover have "functional ?H"
      using functional_insert [of H rn' "rnId rn"] inv(2) calculation ct by (simp add: nodeInv_def)
    moreover have "role rn' = RoleLeader \<longrightarrow> quorumSize rn \<le> 1"
      using s st True q by (auto split: if_splits)
    moreover have "voterPeers rn = filter (\<lambda>s. s \<noteq> rnId rn) (Servers (config rn))"
      using inv(1) by (simp add: nodeInv_def peersInv_def)
    ultimately show ?thesis
      using s st True q ct \<open>\<not> (removed rn \<or> _)\<close> by (auto simp: Let_def split: if_splits)
  qed
qed

lemma electionReply_ok:
  assumes e: "electionReply reply el rn = (el', rn')" and inv: "nodeInv H rn" "functional H"
    and t: "curTerm rn' < 2 ^ 64"
  shows "nodeInv H rn' \<and> rnId rn' = rnId rn \<and>
    (elTerm el', elArgs el', elNeeded el') = (elTerm el, elArgs el, elNeeded el) \<and>
    (elVotes el' = elVotes el \<or> elVotes el' = elVotes el + 1 \<and> rvrVoteGranted reply) \<and>
    (role rn' = RoleLeader \<longrightarrow> role rn = RoleLeader \<and> curTerm rn' = curTerm rn \<or>
       curTerm rn' = elTerm el \<and> elVotes el' \<ge> elNeeded el)"
proof (cases "rvrTerm reply > curTerm rn")
  case True
  then have r: "el' = el" "rn' = becomeFollower (rvrTerm reply) rn"
    using e by (simp_all add: electionReply_def)
  then show ?thesis
    using calm_becomeFollower [OF True] inv t becomeFollower_fields(2) [of "rvrTerm reply" rn]
    by (simp add: calm_def)
next
  case False
  then show ?thesis
    using e inv becomeLeader_fields [where rn = rn]
    by (auto simp: electionReply_def Let_def split: if_splits)
qed

section \<open>Restart\<close>

lemma putLog_meta: "putLog out es d = (r, d') \<Longrightarrow> dMeta d' = dMeta d"
  by (auto simp: putLog_def Let_def split: atomic_outcome.splits)

lemma openLogStore_meta:
  assumes "openLogStore G io d = (Inr (st, ld), d')" "readMeta (dMeta d) = Inr (Some m)"
    "dLegacy d = None"
  shows "sMetaFile st = dMeta d \<and> sMetaMay st = [] \<and> sMeta st = m \<and> lsMeta ld = m"
proof -
  obtain entries good gap d2 torn where r: "replayLog io d = (Inr (entries, good, gap), d2)"
      and f: "openFile io m good d2 = Inr (st, torn)" and l: "lsMeta ld = m"
    using assms
    by (auto simp: openLogStore_def prepareMeta_def split: prod.splits sum.splits)
  have "dMeta d2 = dMeta d"
    using r putLog_meta by (auto simp: replayLog_def split: option.splits prod.splits)
  with f l show ?thesis
    by (auto simp: openFile_def Let_def split: if_splits option.splits)
qed

lemma view_dropCovered: "dropCovered rn = (b, rn') \<Longrightarrow> view rn' = view rn"
  by (auto simp: dropCovered_def frame split: if_splits)

text \<open>A step of the start: the invariant is kept and no leader appears.\<close>

definition starts :: "RaftNode \<Rightarrow> RaftNode \<Rightarrow> bool" where
  "starts rn rn' \<longleftrightarrow> rnId rn' = rnId rn \<and> curTerm rn \<le> curTerm rn' \<and>
     (role rn \<noteq> RoleLeader \<longrightarrow> role rn' \<noteq> RoleLeader) \<and>
     (curTerm rn' < 2 ^ 64 \<longrightarrow> (\<forall>H. nodeInv H rn \<longrightarrow> nodeInv H rn'))"

lemma starts_calm: "calm rn rn' \<Longrightarrow> starts rn rn'"
  by (auto simp: starts_def calm_def)

lemma starts_view: "view rn' = view rn \<Longrightarrow> starts rn rn'"
  by (intro starts_calm calm_view)

lemma starts_trans [trans]: "starts a b \<Longrightarrow> starts b c \<Longrightarrow> starts a c"
  unfolding starts_def by (intro conjI impI allI) auto

lemma starts_later:
  assumes p: "persistMetaLocked (rn\<lparr>ps := (ps rn)\<lparr>CurrentTerm := t, VotedFor := []\<rparr>\<rparr>) = (r, rn')"
    and t: "t > curTerm rn"
  shows "starts rn rn'"
proof -
  define rn0 where "rn0 = rn\<lparr>ps := (ps rn)\<lparr>CurrentTerm := t, VotedFor := []\<rparr>\<rparr>"
  have f0: "curTerm rn0 = t" "rnId rn0 = rnId rn" "role rn0 = role rn"
      "metaView (store rn0) = metaView (store rn)" "config rn0 = config rn"
      "voterPeers rn0 = voterPeers rn"
    by (simp_all add: rn0_def)
  have p0: "persistMetaLocked rn0 = (r, rn')"
    using p by (simp add: rn0_def)
  note f = persist_fields [OF p0]
  have "nodeInv H rn0" if "nodeInv H rn" for H
    using later_term [of H rn rn0] that t f0 by (simp add: nodeInv_def peersInv_def)
  moreover have "calm rn0 rn'"
    by (rule calm_persist [OF p0])
  ultimately show ?thesis
    using t f f0 by (simp add: starts_def calm_def)
qed

lemma starts_raiseTerm: "raiseTerm rn = (r, rn') \<Longrightarrow> starts rn rn'"
  using starts_later [where rn = rn and t = "lastLogTerm rn" and r = r and rn' = rn']
  by (auto simp: raiseTerm_def starts_view split: if_splits)

lemma starts_force:
  assumes "forceSingleNodeConfigLocked G out ok addr rn = (None, rn')"
  shows "starts rn rn'"
proof -
  obtain rn1 es s where p: "persistMetaLocked
        (rn\<lparr>ps := (ps rn)\<lparr>CurrentTerm := curTerm rn + 1, VotedFor := []\<rparr>\<rparr>) = (None, rn1)"
      and r: "rewrite out ok (rlog (setLog es rn1)) (store (setLog es rn1)) = (None, s)"
      and e: "rn' = (setLog es rn1)\<lparr>store := s, durableIndex := lastLogIndex (setLog es rn1)\<rparr>"
    using assms unfolding forceSingleNodeConfigLocked_def Let_def
    by (auto split: option.splits prod.splits)
  have "view rn' = view rn1"
    using metaView_rewrite [of out ok "rlog (setLog es rn1)" "store (setLog es rn1)"] r e
    by (simp add: view_def setLog_def)
  then show ?thesis
    using starts_trans [OF starts_later [OF p] starts_view] by simp
qed

text \<open>Loading term and vote from any meta file that covers the votes.\<close>

lemma loadState_ok:
  assumes l: "loadState G io out ok d rn = (None, rn')"
    and m: "readMeta (dMeta d) = Inr (Some m)" "dLegacy d = None"
    and H: "\<forall>(t, c) \<in> H. c \<noteq> [] \<and> covers m t c" and p: "peersInv rn" and t: "curTerm rn' < 2 ^ 64"
  shows "nodeInv H rn' \<and> rnId rn' = rnId rn \<and> (role rn \<noteq> RoleLeader \<longrightarrow> role rn' \<noteq> RoleLeader)"
proof -
  obtain st ld d' where o: "openLogStore G io d = (Inr (st, ld), d')"
    using l by (auto simp: loadState_def split: prod.splits sum.splits)
  have om: "sMetaFile st = dMeta d" "sMetaMay st = []" "sMeta st = m" "lsMeta ld = m"
    using openLogStore_meta [OF o m] by simp_all
  define rn1 where "rn1 = rn\<lparr>store := st, ps := \<lparr>CurrentTerm = mTerm (lsMeta ld),
      VotedFor = mVote (lsMeta ld), Log = lsEntries ld\<rparr>\<rparr>"
  obtain cut rn2 where dc: "dropCovered rn1 = (cut, rn2)"
    by (cases "dropCovered rn1")
  obtain e3 rn3 where rt3: "raiseTerm rn2 = (e3, rn3)"
    by (cases "raiseTerm rn2")
  note l1 = l [unfolded loadState_def o Let_def prod.case sum.case, folded rn1_def,
      unfolded dc prod.case]
  have "e3 = None"
    using l1 rt3 by (cases e3) (auto split: if_splits)
  with rt3 have rt: "raiseTerm rn2 = (None, rn3)"
    by simp
  obtain err s4 where rw: "(if lsGap ld > 0 \<or> cut then rewrite out ok (rlog rn3) (store rn3)
      else (None, store rn3)) = (err, s4)"
    by (cases "if lsGap ld > 0 \<or> cut then rewrite out ok (rlog rn3) (store rn3)
      else (None, store rn3)")
  have r': "rn' = (rn3\<lparr>store := s4\<rparr>)\<lparr>durableIndex := lastLogIndex (rn3\<lparr>store := s4\<rparr>)\<rparr>"
    using l1 by (auto simp: rt rw split: if_splits)
  have "metaView s4 = metaView (store rn3)"
    using metaView_rewrite [of out ok "rlog rn3" "store rn3"] rw by (auto split: if_splits)
  then have v: "view rn' = view rn3"
    by (simp add: r' view_def)
  have "starts rn1 rn3"
    using starts_trans [OF starts_view [OF view_dropCovered [OF dc]] starts_raiseTerm [OF rt]] .
  then have s: "starts rn1 rn'"
    using starts_trans [OF _ starts_view [OF v]] by blast
  have "memInv H rn1"
    using H om(4) by (simp add: memInv_def memMeta_def rn1_def covers_def)
  moreover have "diskInv H rn1"
    using H m(1) om by (auto simp: diskInv_def metaFiles_def rn1_def)
  moreover have "cacheInv rn1"
    using m(1) om by (simp add: cacheInv_def metaFiles_def rn1_def)
  moreover have "peersInv rn1"
    using p by (simp add: peersInv_def rn1_def)
  ultimately have "nodeInv H rn1"
    by (simp add: nodeInv_def)
  then show ?thesis
    using s t by (simp add: starts_def rn1_def)
qed

lemma view_startupRestore: "startupRestore smOk m rn = (r, rn') \<Longrightarrow> view rn' = view rn"
  by (auto simp: startupRestore_def Let_def frame split: if_splits)

lemma view_smSequence: "smSequence smOk cs rn = (r, rn') \<Longrightarrow> view rn' = view rn"
  by (induction cs arbitrary: rn) (auto simp: Let_def frame split: if_splits)

lemma loadSnapshot_fields:
  assumes "loadSnapshot G smOk a d rn = (r, rn', snap)"
  shows "view rn' = view rn"
proof -
  have "view (rn\<lparr>snapFile := b, lastIncludedIndex := i, lastIncludedTerm := t\<rparr>) = view rn"
    "view (rn\<lparr>snapFile := b, lastIncludedIndex := i, lastIncludedTerm := t, baseConfig := c,
       baseConfigIndex := ci\<rparr>) = view rn" for b i t c ci
    by (simp_all add: view_def)
  then show ?thesis
    using assms
    by (auto simp: loadSnapshot_def Let_def dest!: view_startupRestore
        split: option.splits sum.splits if_splits prod.splits)
qed

lemma starts_finish:
  assumes "startNode G io out ok smOk opts a d rn1 = (None, rn')"
  obtains rn2 rn3 where "view rn2 = view rn1" "loadState G io out ok d rn2 = (None, rn3)"
    "starts rn3 rn'"
proof -
  obtain rn2 snap rn3 rn4 rn5 li rn6 where s: "loadSnapshot G smOk a d rn1 = (None, rn2, snap)"
    and l: "loadState G io out ok d rn2 = (None, rn3)"
    and f: "finishStartupRestore smOk (trustApplied a rn3) snap rn3 = (None, rn4)"
    and e: "(if hasAppliedSM rn4 \<and> \<not> trustApplied a rn3 \<and> lastIncludedIndex rn4 = 0 \<and> rlog rn4 \<noteq> []
      then resetStateForReplay smOk rn4 else (None, rn4)) = (None, rn5)"
    and rn6_def: "rn6 = refreshConfigFromLog G (rn5\<lparr>commitIndex := li, lastApplied := li\<rparr>)"
    and fin: "(if optForceNewCluster opts
      then (case forceSingleNodeConfigLocked G out ok (optSelfAddr opts) rn6 of
          (Some e, rn7) \<Rightarrow> (Some e, rn7)
        | (None, rn7) \<Rightarrow> (None, (refreshConfigFromLog G rn7)\<lparr>replReady := True\<rparr>))
      else (None, rn6\<lparr>replReady := True\<rparr>)) = (None, rn')"
    using assms by (rule startNode_steps)
  have "view rn4 = view rn3"
    using f view_startupRestore by (auto simp: finishStartupRestore_def split: option.splits if_splits)
  moreover have "view rn5 = view rn4"
    using e view_smSequence [where rn = rn4 and rn' = rn5]
    by (auto simp: resetStateForReplay_def simp del: smSequence.simps split: if_splits)
  moreover have "view (rn5\<lparr>commitIndex := li, lastApplied := li\<rparr>) = view rn5"
    by (simp add: view_def)
  ultimately have s6: "starts rn3 rn6"
    unfolding rn6_def using starts_calm view_then_calm calm_refreshConfig by metis
  have rr: "view (rn\<lparr>replReady := True\<rparr>) = view rn" for rn
    by (simp add: view_def)
  have "starts rn6 rn'"
  proof (cases "optForceNewCluster opts")
    case True
    then obtain rn7 where "forceSingleNodeConfigLocked G out ok (optSelfAddr opts) rn6 = (None, rn7)"
        and r: "rn' = (refreshConfigFromLog G rn7)\<lparr>replReady := True\<rparr>"
      using fin by (auto split: prod.splits option.splits)
    then have "starts rn6 rn7" using starts_force by blast
    also have "starts rn7 rn'"
      unfolding r by (rule starts_calm [OF calm_then_view [OF calm_refreshConfig rr]])
    finally show ?thesis .
  next
    case False
    then have "rn' = rn6\<lparr>replReady := True\<rparr>"
      using fin by simp
    then show ?thesis using starts_view [OF rr] by simp
  qed
  with s6 have "starts rn3 rn'" by (rule starts_trans)
  with that loadSnapshot_fields [OF s] l show thesis by blast
qed

lemma restart_ok:
  assumes n: "NewRaftNodeWithOptions G io out ok smOk opts a d peers rn0 = (None, rn')"
    and d: "dMeta d \<in> metaFiles (store rn)" "dLegacy d = None"
    and inv: "nodeInv H rn" and r: "role rn0 \<noteq> RoleLeader" and t: "curTerm rn' < 2 ^ 64"
  shows "nodeInv H rn' \<and> rnId rn' = rnId rn0 \<and> role rn' \<noteq> RoleLeader"
proof -
  obtain m where m: "readMeta (dMeta d) = Inr (Some m)" "\<forall>(t, c) \<in> H. covers m t c"
    using inv d(1) by (auto simp: nodeInv_def diskInv_def)
  have H: "\<forall>(t, c) \<in> H. c \<noteq> [] \<and> covers m t c"
    using inv m(2) by (auto simp: nodeInv_def memInv_def)
  define boot where "boot = bootConfiguration (rnId rn0) peers opts"
  define rnb where "rnb = rn0\<lparr>baseConfig := boot, baseConfigIndex := 0\<rparr>"
  define rn1 where "rn1 = setConfig boot 0 rnb"
  obtain rn2 rn3 where s: "view rn2 = view rn1" "loadState G io out ok d rn2 = (None, rn3)"
      "starts rn3 rn'"
    using n starts_finish unfolding NewRaftNodeWithOptions_def Let_def boot_def rnb_def rn1_def
    by metis
  have c: "calm rnb rn1"
    unfolding rn1_def by (rule calm_setConfig)
  have "peersInv rn1"
  proof -
    have "view rn1 = view (rnb\<lparr>config := boot,
        voterPeers := filter (\<lambda>s. s \<noteq> rnId rnb) (Servers boot)\<rparr>)"
      unfolding rn1_def setConfig_def Let_def by (simp add: frame) (simp add: view_def)
    from view_fields [OF this] show ?thesis
      by (simp add: peersInv_def)
  qed
  then have p2: "peersInv rn2"
    using view_fields [OF s(1)] by (simp add: peersInv_def)
  have "curTerm rn3 < 2 ^ 64"
    using s(3) t by (simp add: starts_def)
  then have "nodeInv H rn3 \<and> rnId rn3 = rnId rn2 \<and> (role rn2 \<noteq> RoleLeader \<longrightarrow> role rn3 \<noteq> RoleLeader)"
    using loadState_ok [OF s(2) m(1) d(2) H p2] by blast
  moreover have "rnId rn2 = rnId rn0" "role rn2 \<noteq> RoleLeader"
    using c r view_fields [OF s(1)] by (auto simp: calm_def rnb_def)
  ultimately show ?thesis
    using s(3) t by (simp add: starts_def)
qed

end
