(* ===== verification/RaftCluster.thy ===== *)
theory RaftCluster
  imports RaftElectionSafety
begin

text \<open>
  The running cluster. Nodes take any operation of \<open>nodeOp\<close>, answer any RequestVote, start
  elections and count replies in any order; messages can be lost, repeated and delayed; any
  disk write can fail; a machine can crash at any moment and restart from any version of its
  files that the crash can leave. The voter set stays \<open>V\<close> throughout (\<open>static\<close>); nodes
  outside \<open>V\<close> may be learners.
\<close>

section \<open>Steps\<close>

record cluster =
  cNodes :: "string \<Rightarrow> RaftNode"
  cRounds :: "string \<Rightarrow> nat \<Rightarrow> (electionRound \<times> string list) option"
  cReplies :: "(string \<times> RequestVoteArgs \<times> RequestVoteReply) set"
  cElected :: "(nat \<times> string) set"

text \<open>
  \<open>cRounds\<close> holds the running election goroutines of a node by term, with the peers that have
  not answered yet; \<open>cReplies\<close> every reply ever sent; \<open>cElected\<close> who was ever leader of which
  term.
\<close>

definition put :: "string \<Rightarrow> RaftNode \<Rightarrow> cluster \<Rightarrow> cluster" where
  "put i rn c = c\<lparr>cNodes := (cNodes c)(i := rn),
     cElected := (if role rn = RoleLeader then insert (curTerm rn, i) (cElected c) else cElected c)\<rparr>"

definition static :: "string set \<Rightarrow> RaftNode \<Rightarrow> bool" where
  "static V rn \<longleftrightarrow> set (Servers (config rn)) = V \<and> distinct (Servers (config rn)) \<and>
     curTerm rn < 2 ^ 64"

definition opened :: "string \<Rightarrow> electionRound option \<Rightarrow> cluster \<Rightarrow> cluster" where
  "opened i r c = (case r of None \<Rightarrow> c
     | Some el \<Rightarrow> c\<lparr>cRounds := (cRounds c)(i := (cRounds c i)(elTerm el \<mapsto> (el, elPeers el)))\<rparr>)"

inductive step :: "string set \<Rightarrow> gob \<Rightarrow> cluster \<Rightarrow> cluster \<Rightarrow> bool" for V G where
  operate: "nodeOp G (cNodes c i) rn \<Longrightarrow> static V rn \<Longrightarrow> step V G c (put i rn c)"
| vote: "HandleRequestVote now args (cNodes c i) = (reply, rn) \<Longrightarrow> static V rn \<Longrightarrow>
    step V G c ((put i rn c)\<lparr>cReplies := insert (i, args, reply) (cReplies c)\<rparr>)"
| campaign: "startElection (cNodes c i) = (r, rn) \<Longrightarrow> static V rn \<Longrightarrow>
    step V G c (opened i r (put i rn c))"
| count: "cRounds c i t = Some (el, pend) \<Longrightarrow> j \<in> set pend \<Longrightarrow> (j, elArgs el, reply) \<in> cReplies c \<Longrightarrow>
    electionReply reply el (cNodes c i) = (el', rn) \<Longrightarrow> static V rn \<Longrightarrow>
    step V G c ((put i rn c)\<lparr>cRounds := (cRounds c)(i := (cRounds c i)(t \<mapsto> (el', remove1 j pend)))\<rparr>)"
| crash: "dMeta d \<in> metaFiles (store (cNodes c i)) \<Longrightarrow> dLegacy d = None \<Longrightarrow>
    rnId rn0 = i \<Longrightarrow> role rn0 = RoleFollower \<Longrightarrow>
    NewRaftNodeWithOptions G io out ok smOk opts a d peers rn0 = (None, rn) \<Longrightarrow> static V rn \<Longrightarrow>
    step V G c ((put i rn c)\<lparr>cRounds := (cRounds c)(i := (\<lambda>_. None))\<rparr>)"

text \<open>Every node starts on a fresh directory, in term 0 and without a vote.\<close>

definition initNode :: "string set \<Rightarrow> string \<Rightarrow> RaftNode \<Rightarrow> bool" where
  "initNode V i rn \<longleftrightarrow> rnId rn = i \<and> store rn = freshStore \<and> curTerm rn = 0 \<and> votedFor rn = [] \<and>
     role rn = RoleFollower \<and> voterPeers rn = filter (\<lambda>s. s \<noteq> i) (Servers (config rn)) \<and> static V rn"

definition initCluster :: "string set \<Rightarrow> cluster \<Rightarrow> bool" where
  "initCluster V c \<longleftrightarrow> (\<forall>i. initNode V i (cNodes c i)) \<and> cRounds c = (\<lambda>_ _. None) \<and>
     cReplies c = {} \<and> cElected c = {}"

inductive reachable :: "string set \<Rightarrow> gob \<Rightarrow> cluster \<Rightarrow> bool" for V G where
  init: "initCluster V c \<Longrightarrow> reachable V G c"
| step: "reachable V G c \<Longrightarrow> step V G c c' \<Longrightarrow> reachable V G c'"

section \<open>The invariant of the cluster\<close>

type_synonym ballots = "string \<Rightarrow> votes"

definition supporters :: "string set \<Rightarrow> ballots \<Rightarrow> nat \<Rightarrow> string \<Rightarrow> string set" where
  "supporters V H t i = {j \<in> V. (t, i) \<in> H j}"

definition won :: "string set \<Rightarrow> ballots \<Rightarrow> nat \<times> string \<Rightarrow> bool" where
  "won V H e \<longleftrightarrow> card V div 2 + 1 \<le> card (supporters V H (fst e) (snd e))"

definition roundOk :: "string set \<Rightarrow> ballots \<Rightarrow> string \<Rightarrow> nat \<Rightarrow> electionRound \<times> string list \<Rightarrow> bool" where
  "roundOk V H i t r \<longleftrightarrow> (let (el, pend) = r in elTerm el = t \<and> rvTerm (elArgs el) = t \<and>
     rvCandidateID (elArgs el) = i \<and> \<not> rvPreVote (elArgs el) \<and> elNeeded el = card V div 2 + 1 \<and>
     distinct pend \<and> set pend \<subseteq> V \<and> elVotes el \<le> card (supporters V H t i - set pend))"

definition nodesOk :: "string set \<Rightarrow> ballots \<Rightarrow> cluster \<Rightarrow> bool" where
  "nodesOk V H c \<longleftrightarrow> (\<forall>i. rnId (cNodes c i) = i \<and> static V (cNodes c i) \<and>
     nodeInv (H i) (cNodes c i) \<and> functional (H i))"

definition repliesOk :: "ballots \<Rightarrow> cluster \<Rightarrow> bool" where
  "repliesOk H c \<longleftrightarrow> (\<forall>(j, args, reply) \<in> cReplies c.
     rvrVoteGranted reply \<and> \<not> rvPreVote args \<longrightarrow> (rvTerm args, rvCandidateID args) \<in> H j)"

definition roundsOk :: "string set \<Rightarrow> ballots \<Rightarrow> cluster \<Rightarrow> bool" where
  "roundsOk V H c \<longleftrightarrow> (\<forall>i t r. cRounds c i t = Some r \<longrightarrow> roundOk V H i t r)"

definition electedOk :: "string set \<Rightarrow> ballots \<Rightarrow> cluster \<Rightarrow> bool" where
  "electedOk V H c \<longleftrightarrow> (\<forall>e \<in> cElected c. won V H e) \<and>
     (\<forall>i. role (cNodes c i) = RoleLeader \<longrightarrow> (curTerm (cNodes c i), i) \<in> cElected c)"

definition clusterInv :: "string set \<Rightarrow> ballots \<Rightarrow> cluster \<Rightarrow> bool" where
  "clusterInv V H c \<longleftrightarrow> nodesOk V H c \<and> repliesOk H c \<and> roundsOk V H c \<and> electedOk V H c"

text \<open>More votes never hurt.\<close>

definition grows :: "ballots \<Rightarrow> ballots \<Rightarrow> bool" where
  "grows H H' \<longleftrightarrow> (\<forall>i. H i \<subseteq> H' i)"

lemma supporters_mono: "grows H H' \<Longrightarrow> supporters V H t i \<subseteq> supporters V H' t i"
  by (auto simp: supporters_def grows_def)

lemma finite_supporters: "finite V \<Longrightarrow> finite (supporters V H t i)"
  by (simp add: supporters_def)

lemma won_mono: "finite V \<Longrightarrow> grows H H' \<Longrightarrow> won V H e \<Longrightarrow> won V H' e"
  using card_mono [OF finite_supporters supporters_mono, of V H H' "fst e" "snd e"]
  by (simp add: won_def)

lemma roundOk_mono:
  assumes "finite V" "grows H H'" "roundOk V H i t r"
  shows "roundOk V H' i t r"
proof -
  have "card (supporters V H t i - set p) \<le> card (supporters V H' t i - set p)" for p
    using assms(1) supporters_mono [OF assms(2)]
    by (intro card_mono) (auto simp: finite_supporters)
  then show ?thesis
    using assms(3) by (cases r) (auto simp: roundOk_def intro: order_trans)
qed

lemma repliesOk_mono: "grows H H' \<Longrightarrow> repliesOk H c \<Longrightarrow> repliesOk H' c"
  unfolding repliesOk_def grows_def by (auto simp: subset_iff)

lemma put_fields [simp]:
  "cNodes (put i rn c) = (cNodes c)(i := rn)" "cRounds (put i rn c) = cRounds c"
  "cReplies (put i rn c) = cReplies c"
  by (simp_all add: put_def)

text \<open>The step of one node, with the votes it adds.\<close>

lemma put_keeps:
  assumes "finite V" and inv: "clusterInv V H c" and sub: "H i \<subseteq> Hi" and n: "nodeInv Hi rn" "functional Hi"
    and i: "rnId rn = i" "static V rn"
    and l: "role rn = RoleLeader \<Longrightarrow>
      role (cNodes c i) = RoleLeader \<and> curTerm rn = curTerm (cNodes c i) \<or>
      won V (H(i := Hi)) (curTerm rn, i)"
  shows "clusterInv V (H(i := Hi)) (put i rn c)"
proof -
  have g: "grows H (H(i := Hi))"
    using sub by (simp add: grows_def)
  have "nodesOk V (H(i := Hi)) (put i rn c)"
    using inv n i by (simp add: clusterInv_def nodesOk_def)
  moreover have "repliesOk (H(i := Hi)) (put i rn c)"
    using inv repliesOk_mono [OF g, of c] by (simp add: clusterInv_def repliesOk_def)
  moreover have "roundsOk V (H(i := Hi)) (put i rn c)"
    using inv roundOk_mono [OF assms(1) g] by (simp add: clusterInv_def roundsOk_def)
  moreover have "electedOk V (H(i := Hi)) (put i rn c)"
  proof -
    have w: "won V (H(i := Hi)) e" if "e \<in> cElected c" for e
      using inv that won_mono [OF assms(1) g] by (auto simp: clusterInv_def electedOk_def)
    have "won V (H(i := Hi)) (curTerm rn, i)" if "role rn = RoleLeader"
      using l [OF that] w inv by (auto simp: clusterInv_def electedOk_def)
    with w show ?thesis
      using inv by (auto simp: clusterInv_def electedOk_def put_def)
  qed
  ultimately show ?thesis by (simp add: clusterInv_def)
qed

lemma clusterInv_node:
  assumes "clusterInv V H c"
  shows "rnId (cNodes c i) = i" "static V (cNodes c i)" "nodeInv (H i) (cNodes c i)" "functional (H i)"
  using assms by (auto simp: clusterInv_def nodesOk_def)

lemma put_calm:
  assumes "finite V" "clusterInv V H c" "voteEffect (H i) (cNodes c i) Hi rn" "static V rn"
  shows "clusterInv V (H(i := Hi)) (put i rn c)"
  by (rule put_keeps [OF assms(1,2)])
     (use assms(3,4) clusterInv_node [OF assms(2), of i] in \<open>auto simp: voteEffect_def\<close>)

lemma static_quorum: "static V rn \<Longrightarrow> quorumSize rn = card V div 2 + 1"
  by (auto simp: static_def quorumSize_def distinct_card)

lemma operate_keeps:
  assumes "finite V" "clusterInv V H c" "nodeOp G (cNodes c i) rn" "static V rn"
  shows "clusterInv V H (put i rn c)"
proof -
  have "voteEffect (H i) (cNodes c i) (H i) rn"
    using voteEffect_calm [OF nodeOp_calm [OF assms(3)]] clusterInv_node [OF assms(2), of i] assms(4)
    by (simp add: static_def)
  from put_calm [OF assms(1,2) this assms(4)] show ?thesis by simp
qed

lemma vote_keeps:
  assumes V: "finite V" "[] \<notin> V" and inv: "clusterInv V H c"
    and h: "HandleRequestVote now args (cNodes c i) = (reply, rn)" and s: "static V rn"
  shows "\<exists>H'. clusterInv V H' ((put i rn c)\<lparr>cReplies := insert (i, args, reply) (cReplies c)\<rparr>)"
proof -
  note n = clusterInv_node [OF inv, of i]
  obtain Hi where e: "voteEffect (H i) (cNodes c i) Hi rn"
      and g: "rvrVoteGranted reply \<and> \<not> rvPreVote args \<longrightarrow> (rvTerm args, rvCandidateID args) \<in> Hi"
    using HandleRequestVote_ok [OF h n(3,4)] n(2) s V(2) by (auto simp: static_def)
  from put_calm [OF V(1) inv e s] g
  have "clusterInv V (H(i := Hi)) ((put i rn c)\<lparr>cReplies := insert (i, args, reply) (cReplies c)\<rparr>)"
    by (simp add: clusterInv_def nodesOk_def repliesOk_def roundsOk_def electedOk_def)
  then show ?thesis by blast
qed

lemma opened_keeps:
  assumes "clusterInv V H c" "\<forall>el. r = Some el \<longrightarrow> roundOk V H i (elTerm el) (el, elPeers el)"
  shows "clusterInv V H (opened i r c)"
  using assms
  by (simp add: clusterInv_def nodesOk_def repliesOk_def roundsOk_def electedOk_def opened_def
      split: option.splits)

lemma campaign_keeps:
  assumes V: "finite V" "[] \<notin> V" and inv: "clusterInv V H c"
    and e: "startElection (cNodes c i) = (r, rn)" and s: "static V rn"
  shows "\<exists>H'. clusterInv V H' (opened i r (put i rn c))"
proof -
  note n = clusterInv_node [OF inv, of i]
  let ?H = "insert (curTerm rn, i) (H i)"
  have sv: "set (Servers (config (cNodes c i))) = V" "distinct (Servers (config (cNodes c i)))"
    using n(2) by (simp_all add: static_def)
  consider (calm) "r = None" "voteEffect (H i) (cNodes c i) (H i) rn"
    | (run) "nodeInv ?H rn" "functional ?H" "rnId rn = i" "i \<in> V"
        "role rn = RoleLeader \<longrightarrow> quorumSize (cNodes c i) \<le> 1"
        "\<forall>el. r = Some el \<longrightarrow> elTerm el = curTerm rn \<and> elVotes el = 1 \<and>
           elNeeded el = quorumSize (cNodes c i) \<and>
           elPeers el = filter (\<lambda>s. s \<noteq> i) (Servers (config (cNodes c i))) \<and>
           rvTerm (elArgs el) = curTerm rn \<and> rvCandidateID (elArgs el) = i \<and>
           \<not> rvPreVote (elArgs el)"
    using startElection_ok [OF e n(3,4)] n s V(2) sv
    by (auto simp: static_def Let_def voteEffect_def containsVoter_def)
  then show ?thesis
  proof cases
    case calm
    then show ?thesis using put_calm [OF V(1) inv calm(2) s] by (auto simp: opened_def)
  next
    case run
    let ?B = "H(i := ?H)"
    have me: "i \<in> supporters V ?B (curTerm rn) i"
      using run(4) by (simp add: supporters_def)
    have "won V ?B (curTerm rn, i)" if "role rn = RoleLeader"
    proof -
      have "card V div 2 + 1 \<le> 1"
        using run(5) that static_quorum [OF n(2)] by simp
      moreover have "card (supporters V ?B (curTerm rn) i) > 0"
        using me finite_supporters [OF V(1)] card_gt_0_iff by blast
      ultimately show ?thesis by (simp add: won_def)
    qed
    then have p: "clusterInv V ?B (put i rn c)"
      using put_keeps [OF V(1) inv, of i ?H rn] run s by auto
    have "roundOk V ?B i (elTerm el) (el, elPeers el)" if "r = Some el" for el
    proof -
      note el = run(6) [rule_format, OF that]
      have "{i} \<subseteq> supporters V ?B (elTerm el) i - set (elPeers el)"
        using me el by auto
      then have "card {i} \<le> card (supporters V ?B (elTerm el) i - set (elPeers el))"
        using finite_supporters [OF V(1)] by (intro card_mono) auto
      then show ?thesis
        using el sv static_quorum [OF n(2)] by (auto simp: roundOk_def)
    qed
    then show ?thesis using opened_keeps [OF p] by blast
  qed
qed

lemma count_keeps:
  assumes V: "finite V" and inv: "clusterInv V H c"
    and r: "cRounds c i t = Some (el, pend)" "j \<in> set pend" "(j, elArgs el, reply) \<in> cReplies c"
    and e: "electionReply reply el (cNodes c i) = (el', rn)" and s: "static V rn"
  shows "clusterInv V H ((put i rn c)\<lparr>cRounds :=
    (cRounds c)(i := (cRounds c i)(t \<mapsto> (el', remove1 j pend)))\<rparr>)"
proof -
  note n = clusterInv_node [OF inv, of i]
  have ro: "roundOk V H i t (el, pend)"
    using inv r(1) by (auto simp: clusterInv_def roundsOk_def)
  have "curTerm rn < 2 ^ 64"
    using s by (simp add: static_def)
  note er = electionReply_ok [OF e n(3,4) this]
  let ?S = "supporters V H t i"
  have fs: "finite (?S - set p)" for p
    using finite_supporters [OF V] by blast
  have sub: "?S - set pend \<subseteq> ?S - set (remove1 j pend)"
    using set_remove1_subset by fast
  have ro': "roundOk V H i t (el', remove1 j pend)"
  proof -
    have "elVotes el' \<le> card (?S - set (remove1 j pend))"
    proof (cases "elVotes el' = elVotes el")
      case True
      then show ?thesis
        using ro card_mono [OF fs sub] by (simp add: roundOk_def)
    next
      case False
      then have g: "elVotes el' = elVotes el + 1" "rvrVoteGranted reply"
        using er by auto
      have "(rvTerm (elArgs el), rvCandidateID (elArgs el)) \<in> H j"
        using inv r(3) g(2) ro by (fastforce simp: clusterInv_def repliesOk_def roundOk_def)
      then have "j \<in> ?S"
        using ro r(2) by (auto simp: roundOk_def supporters_def)
      then have "insert j (?S - set pend) \<subseteq> ?S - set (remove1 j pend)"
        using ro sub by (auto simp: roundOk_def)
      then have "card (insert j (?S - set pend)) \<le> card (?S - set (remove1 j pend))"
        using card_mono [OF fs] by blast
      then show ?thesis
        using ro g(1) r(2) fs by (simp add: roundOk_def)
    qed
    then show ?thesis
      using ro er set_remove1_subset [of j pend] by (auto simp: roundOk_def)
  qed
  have "card (?S - set (remove1 j pend)) \<le> card ?S"
    using finite_supporters [OF V] by (intro card_mono) auto
  then have w: "won V H (t, i)" if "elVotes el' \<ge> elNeeded el"
    using that ro ro' by (simp add: won_def roundOk_def)
  have "clusterInv V (H(i := H i)) (put i rn c)"
    by (rule put_keeps [OF V inv])
       (use er n s ro w in \<open>auto simp: roundOk_def\<close>)
  then show ?thesis
    using ro' by (simp add: clusterInv_def nodesOk_def repliesOk_def roundsOk_def electedOk_def)
qed

lemma crash_keeps:
  assumes V: "finite V" and inv: "clusterInv V H c"
    and d: "dMeta d \<in> metaFiles (store (cNodes c i))" "dLegacy d = None"
    and r: "rnId rn0 = i" "role rn0 = RoleFollower"
    and b: "NewRaftNodeWithOptions G io out ok smOk opts a d peers rn0 = (None, rn)" and s: "static V rn"
  shows "clusterInv V H ((put i rn c)\<lparr>cRounds := (cRounds c)(i := (\<lambda>_. None))\<rparr>)"
proof -
  note n = clusterInv_node [OF inv, of i]
  have "nodeInv (H i) rn \<and> rnId rn = rnId rn0 \<and> role rn \<noteq> RoleLeader"
    using restart_ok [OF b d n(3)] r(2) s by (simp add: static_def)
  then have "clusterInv V (H(i := H i)) (put i rn c)"
    by (intro put_keeps [OF V inv]) (use n s r(1) in auto)
  then show ?thesis
    by (simp add: clusterInv_def nodesOk_def repliesOk_def roundsOk_def electedOk_def)
qed

lemma step_keeps:
  assumes V: "finite V" "[] \<notin> V" and "step V G c c'" "clusterInv V H c"
  shows "\<exists>H'. clusterInv V H' c'"
  using assms(3)
proof cases
  case operate
  then show ?thesis using operate_keeps [OF V(1) assms(4)] by blast
next
  case vote
  then show ?thesis using vote_keeps [OF V assms(4)] by blast
next
  case campaign
  then show ?thesis using campaign_keeps [OF V assms(4)] by blast
next
  case count
  then show ?thesis using count_keeps [OF V(1) assms(4)] by blast
next
  case crash
  then show ?thesis using crash_keeps [OF V(1) assms(4)] by blast
qed

lemma init_holds:
  assumes "initCluster V c"
  shows "clusterInv V (\<lambda>_. {}) c"
proof -
  have m: "readMeta (Some (encodeMeta \<lparr>mTerm = 0, mVote = []\<rparr>)) = Inr (Some \<lparr>mTerm = 0, mVote = []\<rparr>)"
    by (rule readMeta_encodeMeta) (simp add: storableMeta_def)
  have "nodeInv {} rn" if "initNode V i rn" for i rn
    using that m by (auto simp: initNode_def nodeInv_def memInv_def diskInv_def cacheInv_def peersInv_def
        metaFiles_def freshStore_def Let_def)
  then show ?thesis
    using assms by (auto simp: initCluster_def clusterInv_def nodesOk_def repliesOk_def roundsOk_def
        electedOk_def initNode_def functional_def)
qed

lemma reachable_inv:
  assumes "finite V" "[] \<notin> V" "reachable V G c"
  shows "\<exists>H. clusterInv V H c"
  using assms(3)
proof (induction rule: reachable.induct)
  case (init c)
  then show ?case using init_holds by blast
next
  case (step c c')
  then show ?case using step_keeps [OF assms(1,2)] by blast
qed

section \<open>Election safety\<close>

text \<open>
  C1: in every reachable state of the cluster, at most one node was ever
  leader of a given term, and whoever is leader now is among them. This holds under lost,
  repeated and delayed votes, failed and partly failed writes of the meta file, and machine
  crashes with restart from any surviving version of that file, as long as the voter set does
  not change.
\<close>

theorem election_safety:
  assumes "finite V" "[] \<notin> V" "reachable V G c"
  shows "((t, i) \<in> cElected c \<and> (t, j) \<in> cElected c \<longrightarrow> i = j) \<and>
    (role (cNodes c i) = RoleLeader \<longrightarrow> (curTerm (cNodes c i), i) \<in> cElected c)"
proof -
  obtain H where inv: "clusterInv V H c"
    using reachable_inv [OF assms] by blast
  have "i = j" if e: "(t, i) \<in> cElected c" "(t, j) \<in> cElected c"
  proof -
    have "won V H (t, i)" "won V H (t, j)"
      using inv e by (auto simp: clusterInv_def electedOk_def)
    then have "supporters V H t i \<inter> supporters V H t j \<noteq> {}"
      using majorities_meet [OF assms(1), of "supporters V H t i" "supporters V H t j"]
      by (simp add: won_def supporters_def)
    then obtain k where "(t, i) \<in> H k" "(t, j) \<in> H k"
      by (auto simp: supporters_def)
    then show "i = j"
      using clusterInv_node(4) [OF inv, of k] unfolding functional_def by blast
  qed
  moreover have "role (cNodes c i) = RoleLeader \<longrightarrow> (curTerm (cNodes c i), i) \<in> cElected c"
    using inv by (simp add: clusterInv_def electedOk_def)
  ultimately show ?thesis by blast
qed

text \<open>
  A run that elects a leader of term 1: \<open>a\<close> campaigns, \<open>b\<close> grants its vote, \<open>a\<close> counts it.
\<close>

definition exampleCluster :: cluster where
  "exampleCluster = \<lparr>cNodes = (\<lambda>i. exampleNode i [''a'', ''b'', ''c'']), cRounds = (\<lambda>_ _. None),
     cReplies = {}, cElected = {}\<rparr>"

lemma exampleCluster_init: "initCluster {''a'', ''b'', ''c''} exampleCluster"
  by (simp add: initCluster_def exampleCluster_def initNode_def exampleNode_def static_def)

lemma exampleCluster_campaign:
  "\<exists>el rn. startElection (exampleNode ''a'' [''a'', ''b'', ''c'']) = (Some el, rn) \<and>
     elTerm el = 1 \<and> elNeeded el = 2 \<and> elVotes el = 1 \<and> elPeers el = [''b'', ''c''] \<and>
     elArgs el = \<lparr>rvTerm = 1, rvCandidateID = ''a'', rvLastLogIndex = 0, rvLastLogTerm = 0,
       rvPreVote = False\<rparr> \<and>
     role rn = RoleCandidate \<and> curTerm rn = 1 \<and> static {''a'', ''b'', ''c''} rn"
  by (simp add: startElection_def exampleNode_def containsVoter_def persistMetaLocked_def
      popMetaIO_def saveMeta_def writeMeta_def freshStore_def kickSyncerLocked_def
      resetElectionTimer_def quorumSize_def lastLogIndex_def lastLogTerm_def static_def Let_def)

lemma exampleCluster_vote:
  "\<exists>rn. HandleRequestVote 0 \<lparr>rvTerm = 1, rvCandidateID = ''a'', rvLastLogIndex = 0,
       rvLastLogTerm = 0, rvPreVote = False\<rparr> (exampleNode ''b'' [''a'', ''b'', ''c'']) =
     (\<lparr>rvrTerm = 1, rvrVoteGranted = True\<rparr>, rn) \<and> static {''a'', ''b'', ''c''} rn"
  by (simp add: HandleRequestVote_def becomeFollower_def exampleNode_def containsVoter_def persistMetaLocked_def
      popMetaIO_def saveMeta_def writeMeta_def freshStore_def kickSyncerLocked_def grantVote_def
      failWaitersLocked_def syncReplicatorsLocked_def logUpToDate_def
      resetElectionTimer_def quorumSize_def lastLogIndex_def lastLogTerm_def static_def Let_def)

lemma exampleCluster_elects:
  "\<exists>c. reachable {''a'', ''b'', ''c''} G c \<and> role (cNodes c ''a'') = RoleLeader \<and>
     (1, ''a'') \<in> cElected c"
proof -
  let ?V = "{''a'', ''b'', ''c''}"
  let ?args = "\<lparr>rvTerm = 1, rvCandidateID = ''a'', rvLastLogIndex = 0, rvLastLogTerm = 0,
    rvPreVote = False\<rparr>"
  let ?c0 = exampleCluster
  obtain el a1 where s1: "startElection (cNodes ?c0 ''a'') = (Some el, a1)"
    and el: "elTerm el = 1" "elNeeded el = 2" "elVotes el = 1" "elPeers el = [''b'', ''c'']"
      "elArgs el = ?args"
    and a1: "role a1 = RoleCandidate" "curTerm a1 = 1" "static ?V a1"
    using exampleCluster_campaign by (auto simp: exampleCluster_def)
  define c1 where "c1 = opened ''a'' (Some el) (put ''a'' a1 ?c0)"
  have r1: "reachable ?V G c1"
    unfolding c1_def
    using reachable.step [OF reachable.init [OF exampleCluster_init] step.campaign [OF s1 a1(3)]] .
  have c1: "cNodes c1 ''a'' = a1" "cNodes c1 ''b'' = exampleNode ''b'' [''a'', ''b'', ''c'']"
      "cRounds c1 ''a'' 1 = Some (el, [''b'', ''c''])" "cElected c1 = {}"
    using el a1 by (simp_all add: c1_def opened_def put_def exampleCluster_def)
  obtain b2 where s2: "HandleRequestVote 0 ?args (cNodes c1 ''b'') =
      (\<lparr>rvrTerm = 1, rvrVoteGranted = True\<rparr>, b2)" "static ?V b2"
    using exampleCluster_vote c1(2) by auto
  define c2 where "c2 = (put ''b'' b2 c1)\<lparr>cReplies := insert (''b'', ?args,
      \<lparr>rvrTerm = 1, rvrVoteGranted = True\<rparr>) (cReplies c1)\<rparr>"
  have r2: "reachable ?V G c2"
    unfolding c2_def using reachable.step [OF r1 step.vote [OF s2]] .
  have c2: "cNodes c2 ''a'' = a1" "cRounds c2 ''a'' 1 = Some (el, [''b'', ''c''])"
      "(''b'', elArgs el, \<lparr>rvrTerm = 1, rvrVoteGranted = True\<rparr>) \<in> cReplies c2"
    using c1 el by (simp_all add: c2_def)
  have s3: "electionReply \<lparr>rvrTerm = 1, rvrVoteGranted = True\<rparr> el (cNodes c2 ''a'') =
      (el\<lparr>elVotes := 2\<rparr>, becomeLeader a1)"
    using a1 el c2(1) by (simp add: electionReply_def Let_def)
  have st: "static ?V (becomeLeader a1)"
    using a1(3) view_fields [OF view_becomeLeader [of a1]] by (simp add: static_def)
  from reachable.step [OF r2 step.count [OF c2(2) _ c2(3) s3 st]]
  show ?thesis
    using becomeLeader_fields [where rn = a1] a1(2) by (fastforce simp: put_def)
qed

theorem election_safety_witness:
  "\<exists>c. reachable {''a'', ''b'', ''c''} exampleGob c \<and> (1, ''a'') \<in> cElected c \<and>
     (\<forall>j. (1, j) \<in> cElected c \<longrightarrow> j = ''a'')"
proof -
  obtain c where c: "reachable {''a'', ''b'', ''c''} exampleGob c" "(1, ''a'') \<in> cElected c"
    using exampleCluster_elects by blast
  have "j = ''a''" if "(1, j) \<in> cElected c" for j
    using election_safety [OF _ _ c(1), of 1 "''a''" j] c(2) that by simp
  with c show ?thesis by blast
qed

end
