(* ===== verification/RaftLog.thy ===== *)
theory RaftLog
  imports RaftStartup
begin

text \<open>
  The in-memory log of a node. \<open>logOk\<close> is the invariant the index arithmetic of \<open>raft.go\<close>
  relies on: the log is a contiguous run that starts right after the snapshot, and the durable
  index lies in it. Under it the lookups are the obvious functions, the replicators only send
  contiguous runs, and every operation of the node keeps it.
\<close>

definition logOk :: "RaftNode \<Rightarrow> bool" where
  "logOk rn \<longleftrightarrow> contig (lastIncludedIndex rn + 1) (rlog rn) \<and> durableIndex rn \<le> lastLogIndex rn"

section \<open>Lookups\<close>

lemma logFirst_ok: "logOk rn \<Longrightarrow> logFirstIndex rn = lastIncludedIndex rn + 1"
  by (simp add: logOk_def logFirstIndex_def contig_hd)

lemma lastLog_ok:
  "contig (lastIncludedIndex rn + 1) (rlog rn) \<Longrightarrow> lastLogIndex rn = lastIncludedIndex rn + length (rlog rn)"
  by (simp add: lastLogIndex_def contig_last)

lemma lastLog_logOk: "logOk rn \<Longrightarrow> lastLogIndex rn = lastIncludedIndex rn + length (rlog rn)"
  by (simp add: logOk_def lastLog_ok)

lemma entryAt_ok:
  assumes "logOk rn"
  shows "entryAt rn i = (if lastIncludedIndex rn < i \<and> i \<le> lastLogIndex rn
    then Some (rlog rn ! (i - (lastIncludedIndex rn + 1))) else None)"
  using assms contig_hd [of "lastIncludedIndex rn + 1" "rlog rn"] lastLog_logOk [OF assms]
  by (auto simp: entryAt_def logOk_def Let_def)

lemma entriesFrom_ok:
  assumes "logOk rn" "lastIncludedIndex rn < i"
  shows "entriesFrom rn i = drop (i - (lastIncludedIndex rn + 1)) (rlog rn)"
  using assms contig_hd [of "lastIncludedIndex rn + 1" "rlog rn"] lastLog_logOk [OF assms(1)]
  by (auto simp: entriesFrom_def logOk_def Let_def)

lemma logTerm_ok:
  assumes "logOk rn" "lastIncludedIndex rn < i" "i \<le> lastLogIndex rn"
  shows "logTerm rn i = eTerm (rlog rn ! (i - (lastIncludedIndex rn + 1)))"
  using assms contig_hd [of "lastIncludedIndex rn + 1" "rlog rn"] lastLog_logOk [OF assms(1)]
  by (auto simp: logTerm_def logOk_def Let_def)

text \<open>The lookup by offset finds the entry with that index, the one a search would find.\<close>

lemma find_contig:
  "contig f es \<Longrightarrow> find (\<lambda>e. eIndex e = i) es = (if f \<le> i \<and> i < f + length es then Some (es ! (i - f)) else None)"
proof (induction es arbitrary: f)
  case (Cons e es)
  then show ?case
    by (cases "i = f") (auto simp: nth_Cons' le_Suc_eq)
qed simp

lemma entryAt_find:
  assumes "logOk rn"
  shows "entryAt rn i = find (\<lambda>e. eIndex e = i) (rlog rn)"
  using assms find_contig [of "lastIncludedIndex rn + 1" "rlog rn" i] lastLog_logOk [OF assms]
  by (auto simp: entryAt_ok logOk_def)

section \<open>Operations that leave the log alone\<close>

definition lview :: "RaftNode \<Rightarrow> LogEntry list \<times> nat \<times> nat" where
  "lview rn = (rlog rn, lastIncludedIndex rn, durableIndex rn)"

lemma lview_fields:
  assumes "lview rn' = lview rn"
  shows "rlog rn' = rlog rn" "lastIncludedIndex rn' = lastIncludedIndex rn"
    "durableIndex rn' = durableIndex rn"
  using assms by (simp_all add: lview_def)

lemma logOk_lview:
  assumes "lview rn' = lview rn"
  shows "logOk rn' \<longleftrightarrow> logOk rn"
  unfolding logOk_def lastLogIndex_def lview_fields [OF assms] by (rule refl)

lemma lview_simple [logframe]:
  "lview (kickSyncerLocked rn) = lview rn" "lview (resetElectionTimer rn) = lview rn"
  "lview (notifyApplier rn) = lview rn" "lview (failWaitersLocked e rn) = lview rn"
  "lview (removeWaiter i ch rn) = lview rn" "lview (updPR r f rn) = lview rn"
  "lview (rn\<lparr>nextIndex := ni\<rparr>) = lview rn" "lview (rn\<lparr>matchIndex := ni\<rparr>) = lview rn"
  "lview (noteLeaderContactLocked now rn) = lview rn" "lview (noteAckLocked p now rn) = lview rn"
  "lview (rn\<lparr>waiters := w\<rparr>) = lview rn" "lview (rn\<lparr>commitIndex := ci\<rparr>) = lview rn"
  "lview (rn\<lparr>store := s\<rparr>) = lview rn" "lview (rn\<lparr>role := ro\<rparr>) = lview rn"
  "lview (rn\<lparr>learnerRounds := lr\<rparr>) = lview rn" "lview (rn\<lparr>baseConfig := bc\<rparr>) = lview rn"
  "lview (rn\<lparr>aeWaiters := aw\<rparr>) = lview rn"
  by (simp_all add: lview_def kickSyncerLocked_def resetElectionTimer_def notifyApplier_def
      failWaitersLocked_def removeWaiter_def updPR_def noteLeaderContactLocked_def noteAckLocked_def)

lemma lview_fold_updPR [logframe]: "lview (fold (\<lambda>(p, r). updPR r f) rs rn) = lview rn"
  by (induction rs arbitrary: rn) (auto simp: logframe)

lemma lview_kicks [logframe]:
  "lview (kickReplicatorsLocked rn) = lview rn" "lview (kickReplicatorsOnAppendLocked rn) = lview rn"
  "lview (heartbeatLocked rn) = lview rn"
  by (simp_all add: kickReplicatorsLocked_def kickReplicatorsOnAppendLocked_def heartbeatLocked_def
      logframe)

lemma lview_startReplicators [logframe]: "lview (startReplicators t ps' rn) = lview rn"
proof (induction ps' arbitrary: rn)
  case (Cons p ps')
  have "lview (rn\<lparr>prHeap := h, repl := rs, prNext := n\<rparr>) = lview rn" for h rs n
    by (simp add: lview_def)
  then show ?case by (simp add: Cons.IH)
qed simp

lemma lview_syncReplicators [logframe]: "lview (syncReplicatorsLocked rn) = lview rn"
proof -
  have "lview (rn\<lparr>repl := rs, prHeap := h\<rparr>) = lview rn" for h rs
    by (simp add: lview_def)
  then show ?thesis
    by (simp add: syncReplicatorsLocked_def Let_def logframe split: prod.splits)
qed

lemma lview_setConfig [logframe]: "lview (setConfig cfg i rn) = lview rn"
  by (simp add: setConfig_def Let_def logframe) (simp add: lview_def)

lemma lview_refreshConfig [logframe]: "lview (refreshConfigFromLog G rn) = lview rn"
  by (simp add: refreshConfigFromLog_def logframe split: option.splits prod.splits)

lemma lview_persistMeta [logframe]: "lview (snd (persistMetaLocked rn)) = lview rn"
  by (simp add: persistMetaLocked_def popMetaIO_def lview_def Let_def split: list.splits prod.splits)

lemma lview_becomeFollower [logframe]: "lview (becomeFollower t rn) = lview rn"
  by (simp add: becomeFollower_def Let_def logframe) (simp add: lview_def)

lemma lview_stepDown [logframe]: "lview (stepDownLocked rn) = lview rn"
  by (simp add: stepDownLocked_def logframe) (simp add: lview_def)

lemma lview_enqueue [logframe]: "lview (snd (enqueueLocked es rn)) = lview rn"
  by (simp add: enqueueLocked_def lview_def Let_def split: prod.splits)

lemma lview_maybeAdvance [logframe]: "lview (maybeAdvanceCommit rn) = lview rn"
  by (simp add: maybeAdvanceCommit_def logframe split: option.splits)

lemma lview_takeDecided [logframe]: "lview (snd (takeDecidedWaitersLocked rn)) = lview rn"
  by (simp add: takeDecidedWaitersLocked_def logframe)

lemma lview_followerCommit [logframe]: "lview (advanceFollowerCommit lc t rn) = lview rn"
  by (simp add: advanceFollowerCommit_def logframe Let_def)

lemma lview_onAppendReply [logframe]: "lview (onAppendReply r now s res rn) = lview rn"
proof -
  have "lview (onAppendSuccess r' p s rep rn) = lview rn" for r' p s rep rn
    by (simp add: onAppendSuccess_def Let_def logframe split: option.splits)
  moreover have "lview (onAppendReject r' p s rep rn) = lview rn" for r' p s rep rn
    by (simp add: onAppendReject_def Let_def logframe)
  moreover have "lview (rn\<lparr>peerCaps := pc, capsKnown := ck\<rparr>) = lview rn" for pc ck rn
    by (simp add: lview_def)
  ultimately have "lview (handleAppendReply r' pr now s rep rn) = lview rn" for r' pr now s rep rn
    by (simp add: handleAppendReply_def Let_def logframe)
  moreover have "lview (onAppendLost r' pr s rn) = lview rn" for r' pr s rn
    by (simp add: onAppendLost_def Let_def logframe)
  ultimately show ?thesis
    by (simp add: onAppendReply_def Let_def logframe split: option.splits)
qed

section \<open>Follower appends\<close>

definition wfArgs :: "AppendEntriesArgs \<Rightarrow> bool" where
  "wfArgs args \<longleftrightarrow> contig (aePrevLogIndex args + 1) (aeEntries args)"

text \<open>
  What \<open>appendLoop\<close> does: nothing when every entry is there already, else it replaces the log
  from the first new entry on. \<open>appendEffect\<close> also names the records handed to the store.
\<close>

definition replaceFrom :: "nat \<Rightarrow> LogEntry list \<Rightarrow> RaftNode \<Rightarrow> LogEntry list" where
  "replaceFrom i es rn = take (i - (lastIncludedIndex rn + 1)) (rlog rn) @ es"

definition appendEffect :: "LogEntry list \<Rightarrow> bool \<Rightarrow> RaftNode \<Rightarrow> RaftNode \<Rightarrow> bool" where
  "appendEffect es b rn rn' \<longleftrightarrow> (\<exists>i. contig i es \<and> es \<noteq> [] \<and> lastIncludedIndex rn < i \<and> i \<le> lastLogIndex rn + 1 \<and>
     enqueue es (store rn) = (if b then None else fst (enqueue es (store rn)), store rn') \<and>
     (b \<longleftrightarrow> fst (enqueue es (store rn)) = None) \<and>
     lview rn' = (replaceFrom i (if b then es else []) rn, lastIncludedIndex rn, min (durableIndex rn) (i - 1)))"

lemma store_refreshConfig [simp]: "store (refreshConfigFromLog G rn) = store rn"
proof -
  have "store (startReplicators t ps' rn) = store rn" for t ps' rn
    by (induction t ps' rn rule: startReplicators.induct) simp_all
  then have "store (syncReplicatorsLocked rn) = store rn" for rn
    by (simp add: syncReplicatorsLocked_def Let_def split: prod.splits)
  then show ?thesis
    by (simp add: refreshConfigFromLog_def setConfig_def Let_def split: option.splits prod.splits)
qed

lemma store_kickSyncer [simp]: "store (kickSyncerLocked rn) = store rn"
  by (simp add: kickSyncerLocked_def)

lemma appendLoop_new:
  assumes ok: "logOk rn" and b: "lastIncludedIndex rn \<le> prev" "prev \<le> lastLogIndex rn"
    and c: "contig (prev + 1) (e # es)"
    and new: "\<not> (prev + 1 \<le> lastLogIndex rn \<and> logTerm rn (prev + 1) = eTerm e)"
    and r: "appendLoop G prev (e # es) rn = (b, rn')"
  shows "appendEffect (e # es) b rn rn'"
proof -
  let ?i = "prev + 1"
  define rn1 where "rn1 = (if ?i \<le> lastLogIndex rn
      then (setLog (take (?i - logFirstIndex rn) (rlog rn)) rn)
        \<lparr>durableIndex := (if durableIndex rn \<ge> ?i then ?i - 1 else durableIndex rn)\<rparr>
      else rn)"
  define rn2 where "rn2 = setLog (rlog rn1 @ (e # es)) rn1"
  obtain err rn3 where q: "enqueueLocked (e # es) rn2 = (err, rn3)"
    by (cases "enqueueLocked (e # es) rn2")
  have len: "length (rlog rn) = lastLogIndex rn - lastIncludedIndex rn"
    using lastLog_logOk [OF ok] by simp
  have d: "durableIndex rn \<le> lastLogIndex rn"
    using ok by (simp add: logOk_def)
  have l1: "rlog rn1 = take (?i - (lastIncludedIndex rn + 1)) (rlog rn)"
      "durableIndex rn1 = min (durableIndex rn) prev" "lastIncludedIndex rn1 = lastIncludedIndex rn"
      "store rn1 = store rn"
    using b len d by (auto simp: rn1_def setLog_def logFirst_ok [OF ok])
  have e3: "enqueue (e # es) (store rn) = (err, store rn3)" and l3: "lview rn3 = lview rn2"
    using q l1(4) lview_enqueue [of "e # es" rn2]
    by (auto simp: enqueueLocked_def rn2_def setLog_def Let_def split: prod.splits)
  have l2: "lview rn2 = (replaceFrom ?i (e # es) rn, lastIncludedIndex rn, min (durableIndex rn) prev)"
    using l1 by (simp add: rn2_def setLog_def lview_def replaceFrom_def)
  note f3 = lview_fields [OF l3]
  have first3: "logFirstIndex rn3 = lastIncludedIndex rn + 1"
  proof -
    have "contig (lastIncludedIndex rn + 1) (rlog rn2)"
      using c l1(1) ok b len by (simp add: rn2_def setLog_def logOk_def contig_take)
    then show ?thesis
      using f3 l2 by (simp add: logFirstIndex_def contig_hd lview_def replaceFrom_def)
  qed
  have t3: "take (?i - logFirstIndex rn3) (rlog rn3) = replaceFrom ?i [] rn"
    using f3(1) l2 b len by (simp add: first3 lview_def replaceFrom_def)
  have r': "(b, rn') = (if err \<noteq> None
      then (False, refreshConfigFromLog G (setLog (take (?i - logFirstIndex rn3) (rlog rn3)) rn3))
      else (True, kickSyncerLocked (refreshConfigFromLog G rn3)))"
    using r new q unfolding appendLoop.simps Let_def rn1_def [symmetric] rn2_def [symmetric]
    by (auto split: if_splits)
  show ?thesis
  proof (cases "err = None")
    case True
    then have "b" "rn' = kickSyncerLocked (refreshConfigFromLog G rn3)"
      using r' by simp_all
    then show ?thesis
      using True e3 l3 l2 b c
      by (auto simp: appendEffect_def logframe intro!: exI [of _ ?i])
  next
    case False
    then have rf: "\<not> b" "rn' = refreshConfigFromLog G (setLog (replaceFrom ?i [] rn) rn3)"
      using r' t3 by simp_all
    then have "lview rn' = (replaceFrom ?i [] rn, lastIncludedIndex rn, min (durableIndex rn) prev)"
      using f3(2,3) l2 by (simp add: logframe) (simp add: lview_def setLog_def)
    moreover have "store rn' = store rn3"
      using rf by (simp add: setLog_def)
    ultimately show ?thesis
      using False rf(1) e3 b c by (auto simp: appendEffect_def intro!: exI [of _ ?i])
  qed
qed

lemma appendLoop_effect:
  assumes "logOk rn" "lastIncludedIndex rn \<le> prev" "prev \<le> lastLogIndex rn" "contig (prev + 1) es"
    "appendLoop G prev es rn = (b, rn')"
  shows "b \<and> rn' = rn \<and> prev + length es \<le> lastLogIndex rn \<or>
    (\<exists>pre es1. es = pre @ es1 \<and> appendEffect es1 b rn rn' \<and> contig (prev + length pre + 1) es1)"
  using assms
proof (induction es arbitrary: prev)
  case (Cons e es)
  show ?case
  proof (cases "prev + 1 \<le> lastLogIndex rn \<and> logTerm rn (prev + 1) = eTerm e")
    case True
    then have "appendLoop G (prev + 1) es rn = (b, rn')"
      using Cons.prems(5) by simp
    moreover have "contig (prev + 1 + 1) es"
      using Cons.prems(4) by simp
    ultimately consider "b" "rn' = rn" "prev + 1 + length es \<le> lastLogIndex rn"
      | pre es1 where "es = pre @ es1" "appendEffect es1 b rn rn'" "contig (prev + 1 + length pre + 1) es1"
      using Cons.IH [of "prev + 1"] Cons.prems(1,2) True by (auto simp del: contig.simps)
    then show ?thesis
    proof cases
      case 2
      then show ?thesis
        by (intro disjI2 exI [of _ "e # pre"] exI [of _ es1]) simp
    qed simp
  next
    case False
    then have "appendEffect (e # es) b rn rn'"
      using appendLoop_new [OF Cons.prems(1,2,3,4) False Cons.prems(5)] by blast
    then show ?thesis
      using Cons.prems(4) by (intro disjI2 exI [of _ "[]"] exI [of _ "e # es"]) simp
  qed
qed simp

lemma appendEffect_logOk:
  assumes "logOk rn" "appendEffect es b rn rn'"
  shows "logOk rn'"
proof -
  obtain i where i: "contig i es" "lastIncludedIndex rn < i" "i \<le> lastLogIndex rn + 1"
    "lview rn' = (replaceFrom i (if b then es else []) rn, lastIncludedIndex rn, min (durableIndex rn) (i - 1))"
    using assms(2) unfolding appendEffect_def by blast
  have len: "length (rlog rn) = lastLogIndex rn - lastIncludedIndex rn"
    using lastLog_logOk [OF assms(1)] by simp
  have c: "contig (lastIncludedIndex rn + 1) (replaceFrom i (if b then es else []) rn)"
  proof -
    have "length (take (i - (lastIncludedIndex rn + 1)) (rlog rn)) = i - (lastIncludedIndex rn + 1)"
      using i(2,3) len by simp
    then show ?thesis
      using assms(1) i(1,2) by (simp add: replaceFrom_def logOk_def contig_take)
  qed
  then have "contig (lastIncludedIndex rn' + 1) (rlog rn')"
    using i(4) by (simp add: lview_def)
  then show ?thesis
    using lastLog_ok [of rn'] i len by (auto simp: logOk_def lview_def replaceFrom_def)
qed

text \<open>The rest of the request: at most one append, and only of entries of the request.\<close>

definition appended :: "AppendEntriesArgs \<Rightarrow> RaftNode \<Rightarrow> RaftNode \<Rightarrow> bool" where
  "appended args rn rn' \<longleftrightarrow> lview rn' = lview rn \<and> store rn' = store rn \<or>
     (\<exists>es b rn1. appendEffect es b rn rn1 \<and> set es \<subseteq> set (aeEntries args) \<and>
        lview rn' = lview rn1 \<and> store rn' = store rn1)"

lemma store_followerCommit [simp]: "store (advanceFollowerCommit lc t rn) = store rn"
  by (simp add: advanceFollowerCommit_def notifyApplier_def Let_def)

lemma acceptEntries_appended:
  assumes ok: "logOk rn" and wf: "wfArgs args" and a: "acceptEntries G args reply rn = (r, rn')"
  shows "appended args rn rn'"
proof -
  let ?below = "aePrevLogIndex args < lastIncludedIndex rn"
  define es where "es = (if ?below then drop (lastIncludedIndex rn - aePrevLogIndex args) (aeEntries args)
    else aeEntries args)"
  define prev where "prev = (if ?below then lastIncludedIndex rn else aePrevLogIndex args)"
  obtain b rn1 where l: "appendLoop G prev es rn = (b, rn1)"
    by (cases "appendLoop G prev es rn")
  have c: "contig (prev + 1) es"
    using wf contig_drop [of "aePrevLogIndex args + 1" "aeEntries args"
        "lastIncludedIndex rn - aePrevLogIndex args"]
    by (auto simp: wfArgs_def es_def prev_def)
  have sub: "set es \<subseteq> set (aeEntries args)"
    by (auto simp: es_def dest: in_set_dropD)
  consider "rn' = rn" | "prev \<le> lastLogIndex rn"
      "rn' = rn1 \<or> rn' = advanceFollowerCommit (aeLeaderCommit args) (prev + length es) rn1"
    using a unfolding acceptEntries_def Let_def es_def [symmetric] prev_def [symmetric] l prod.case
    by (auto split: if_splits)
  then show ?thesis
  proof cases
    case 2
    have "lastIncludedIndex rn \<le> prev"
      by (simp add: prev_def)
    from appendLoop_effect [OF ok this 2(1) c l]
    have "rn1 = rn \<or> (\<exists>es1. appendEffect es1 b rn rn1 \<and> set es1 \<subseteq> set es)"
      by auto
    moreover have "lview rn' = lview rn1" "store rn' = store rn1"
      using 2(2) by (auto simp: logframe)
    ultimately show ?thesis
      using sub unfolding appended_def by (metis order_trans)
  qed (simp add: appended_def)
qed

lemma appended_logOk: "logOk rn \<Longrightarrow> appended args rn rn' \<Longrightarrow> logOk rn'"
  using appendEffect_logOk logOk_lview unfolding appended_def by metis

text \<open>Everything before \<open>acceptEntries\<close> leaves the log and its file alone.\<close>

definition sview where
  "sview s = (sHandle s, sSynced s, sDetached s, sSize s, sGen s, sFailed s, sClosed s, sDirty s,
     sPend s, sQFailed s, sQClosed s)"

lemma sview_saveMeta: "sview (snd (saveMeta out m s)) = sview s"
  by (auto simp: saveMeta_def writeMeta_def sview_def split: atomic_outcome.splits)

lemma sview_persistMeta: "sview (store (snd (persistMetaLocked rn))) = sview (store rn)"
  using sview_saveMeta
  by (simp add: persistMetaLocked_def popMetaIO_def Let_def split: list.splits prod.splits)
     (metis snd_conv)

lemma store_syncReplicators [simp]: "store (syncReplicatorsLocked rn) = store rn"
proof -
  have "store (startReplicators t ps' rn) = store rn" for t ps' rn
    by (induction t ps' rn rule: startReplicators.induct) simp_all
  then show ?thesis
    by (simp add: syncReplicatorsLocked_def Let_def split: prod.splits)
qed

lemma sview_becomeFollower: "sview (store (becomeFollower t rn)) = sview (store rn)"
  by (simp add: becomeFollower_def Let_def sview_persistMeta kickSyncerLocked_def
      failWaitersLocked_def)

lemma appendEntriesLocked_appended:
  assumes ok: "logOk rn" and wf: "wfArgs args" and a: "appendEntriesLocked G now args rn = (r, rn')"
  shows "\<exists>rn0. lview rn0 = lview rn \<and> sview (store rn0) = sview (store rn) \<and> appended args rn0 rn'"
proof -
  define a1 where "a1 = (if aeTerm args > curTerm rn
      then persistMetaLocked (becomeFollower (aeTerm args) rn) else (None, rn))"
  have v: "lview (snd a1) = lview rn" "sview (store (snd a1)) = sview (store rn)"
    by (simp_all add: a1_def logframe sview_persistMeta sview_becomeFollower)
  define rn2 where "rn2 = noteLeaderContactLocked now
      (resetElectionTimer ((snd a1)\<lparr>role := RoleFollower, LeaderID := aeLeaderID args\<rparr>))"
  have v2: "lview rn2 = lview rn" "sview (store rn2) = sview (store rn)"
    using v by (simp_all add: rn2_def noteLeaderContactLocked_def resetElectionTimer_def lview_def)
  consider "rn' = rn" | "rn' = snd a1" | reply where "acceptEntries G args reply rn2 = (r, rn')"
    using a unfolding appendEntriesLocked_def Let_def a1_def [symmetric] case_prod_unfold
      rn2_def [symmetric] by (metis (no_types, lifting) snd_conv)
  then show ?thesis
  proof cases
    case 1
    then show ?thesis by (intro exI [of _ rn]) (simp add: appended_def)
  next
    case 2
    then show ?thesis using v by (intro exI [of _ "snd a1"]) (simp add: appended_def)
  next
    case 3
    then show ?thesis
      using acceptEntries_appended [OF _ wf 3] ok logOk_lview [OF v2(1)] v2 by blast
  qed
qed

lemma HandleAppendEntries_appended:
  assumes "logOk rn" "wfArgs args" "HandleAppendEntriesAsync G now args resp rn = (rs, rn')"
  shows "\<exists>rn0 rn1. lview rn0 = lview rn \<and> sview (store rn0) = sview (store rn) \<and> appended args rn0 rn1 \<and>
    lview rn' = lview rn1 \<and> store rn' = store rn1"
proof -
  obtain r w rn1 where l: "appendEntriesLocked G now args rn = ((r, w), rn1)"
    by (metis prod.exhaust)
  then obtain rn0 where rn0: "lview rn0 = lview rn" "sview (store rn0) = sview (store rn)"
      "appended args rn0 rn1"
    using appendEntriesLocked_appended [OF assms(1,2)] by blast
  have "lview rn' = lview rn1 \<and> store rn' = store rn1"
    using assms(3) l
    by (auto simp: HandleAppendEntriesAsync_def Let_def takeDecidedWaitersLocked_def lview_def
        split: option.splits)
  with rn0 show ?thesis by blast
qed

lemma logOk_HandleAppendEntries:
  assumes "logOk rn" "wfArgs args"
  shows "logOk (snd (HandleAppendEntriesAsync G now args resp rn))"
proof -
  obtain rs rn' where h: "HandleAppendEntriesAsync G now args resp rn = (rs, rn')"
    by (cases "HandleAppendEntriesAsync G now args resp rn")
  then show ?thesis
    using HandleAppendEntries_appended [OF assms h] appended_logOk logOk_lview assms(1)
    by (metis snd_conv)
qed

section \<open>The other operations\<close>

lemma logOk_fields:
  "logOk rn \<longleftrightarrow> contig (lastIncludedIndex rn + 1) (rlog rn) \<and>
     durableIndex rn \<le> lastIncludedIndex rn + length (rlog rn)"
  using lastLog_ok [of rn] by (auto simp: logOk_def)

lemma logOk_append:
  assumes "logOk rn" "eIndex e = lastLogIndex rn + 1"
    and "lview rn' = (rlog rn @ [e], lastIncludedIndex rn, durableIndex rn)"
  shows "logOk rn'"
  using assms lastLog_logOk [OF assms(1)] by (simp add: logOk_fields lview_def)

lemma logOk_appendEntry: "logOk rn \<Longrightarrow> logOk (snd (appendEntryLocked t c rn))"
  by (rule logOk_append [where e = "\<lparr>eTerm = curTerm rn, eIndex = lastLogIndex rn + 1, eType = t,
        eCommand = c\<rparr>"])
     (simp_all add: appendEntryLocked_def Let_def setLog_def lview_def)

lemma logOk_appendAll:
  "logOk rn \<Longrightarrow> logOk (snd (appendAllLocked cs rn)) \<and>
     lastIncludedIndex (snd (appendAllLocked cs rn)) = lastIncludedIndex rn \<and>
     durableIndex (snd (appendAllLocked cs rn)) = durableIndex rn \<and>
     prefix (rlog rn) (rlog (snd (appendAllLocked cs rn)))"
proof (induction cs arbitrary: rn)
  case (Cons c cs)
  obtain ec rn1 where a: "appendEntryLocked EntryNormal c rn = (ec, rn1)"
    by (cases "appendEntryLocked EntryNormal c rn")
  then have "lastIncludedIndex rn1 = lastIncludedIndex rn" "durableIndex rn1 = durableIndex rn"
      "prefix (rlog rn) (rlog rn1)"
    by (auto simp: appendEntryLocked_def Let_def setLog_def)
  moreover have "logOk rn1"
    using logOk_appendEntry [OF Cons.prems, of EntryNormal c] a by simp
  ultimately show ?case
    using Cons.IH [of rn1] a prefix_order.trans by (auto simp: Let_def split: prod.splits)
qed simp

lemma logOk_flushBatch: "logOk rn \<Longrightarrow> logOk (snd (flushBatch batch rn))"
proof -
  assume ok: "logOk rn"
  obtain ecs rn1 where a: "appendAllLocked batch rn = (ecs, rn1)"
    by (cases "appendAllLocked batch rn")
  obtain err rn2 where e: "enqueueLocked (drop (length (rlog rn)) (rlog rn1)) rn1 = (err, rn2)"
    by (cases "enqueueLocked (drop (length (rlog rn)) (rlog rn1)) rn1")
  have l2: "lview rn2 = lview rn1"
    using lview_enqueue [of "drop (length (rlog rn)) (rlog rn1)" rn1] e by simp
  have r1: "logOk rn1" "lastIncludedIndex rn1 = lastIncludedIndex rn" "durableIndex rn1 = durableIndex rn"
      "prefix (rlog rn) (rlog rn1)"
    using logOk_appendAll [OF ok, of batch] a by simp_all
  show ?thesis
  proof (cases err)
    case None
    then show ?thesis
      using a e ok r1(1) logOk_lview [OF l2] logOk_lview [of "kickReplicatorsOnAppendLocked (kickSyncerLocked rn2)" rn2]
      by (simp add: flushBatch_def logframe)
  next
    case (Some er)
    have "take (length (rlog rn)) (rlog rn2) = rlog rn"
      using r1(4) l2 by (auto simp: lview_def prefix_def)
    then have l: "lview ((setLog (take (length (rlog rn)) (rlog rn2)) rn2)\<lparr>waiters := w\<rparr>) = lview rn" for w
      using l2 r1 by (simp add: lview_def setLog_def)
    show ?thesis
      using a e Some ok logOk_lview [OF l] by (simp add: flushBatch_def)
  qed
qed

lemma logOk_becomeLeader: "logOk rn \<Longrightarrow> logOk (becomeLeader rn)"
proof -
  assume ok: "logOk rn"
  let ?e = "\<lparr>eTerm = curTerm rn, eIndex = lastLogIndex rn + 1, eType = EntryNormal, eCommand = []\<rparr>"
  have "lview (becomeLeader rn) = (rlog rn @ [?e], lastIncludedIndex rn, durableIndex rn)"
    unfolding becomeLeader_def Let_def case_prod_unfold
    by (simp add: logframe) (simp add: lview_def setLog_def)
  from logOk_append [OF ok _ this] show ?thesis by simp
qed

lemma logOk_proposeConfig: "logOk rn \<Longrightarrow> logOk (snd (proposeConfigLocked G nxt rn))"
proof -
  assume ok: "logOk rn"
  show ?thesis
  proof (cases "gobEncode G nxt")
    case (Some cmd)
    obtain e ch rn1 where a: "appendEntryLocked EntryConfig cmd rn = ((e, ch), rn1)"
      by (metis prod.exhaust)
    obtain err rn2 where q: "enqueueLocked [e] rn1 = (err, rn2)"
      by (cases "enqueueLocked [e] rn1")
    have l2: "lview rn2 = lview rn1"
      using lview_enqueue [of "[e]" rn1] q by simp
    have l1: "lview rn1 = (rlog rn @ [e], lastIncludedIndex rn, durableIndex rn)" "logOk rn1"
      using a logOk_appendEntry [OF ok, of EntryConfig cmd]
      by (auto simp: appendEntryLocked_def Let_def setLog_def lview_def)
    have "lview ((setLog (butlast (rlog rn2)) rn2)\<lparr>waiters := w\<rparr>) = lview rn" for w
      using l1 l2 by (simp add: lview_def setLog_def)
    from logOk_lview [OF this]
    have "logOk ((setLog (butlast (rlog rn2)) rn2)\<lparr>waiters := w\<rparr>)" for w
      using ok by simp
    moreover have "lview (kickReplicatorsOnAppendLocked (kickSyncerLocked (setConfig nxt i rn2))) = lview rn1" for i
      using l2 by (simp add: logframe)
    from logOk_lview [OF this]
    have "logOk (kickReplicatorsOnAppendLocked (kickSyncerLocked (setConfig nxt i rn2)))" for i
      using l1(2) by simp
    ultimately show ?thesis
      using ok
      by (simp add: proposeConfigLocked_def Some a q split: option.splits)
  qed (simp add: proposeConfigLocked_def ok)
qed

lemma proposed_snd: "snd (proposed r) = snd r"
  by (auto simp: proposed_def split: prod.splits sum.splits)

lemma logOk_AddMember:
  assumes "logOk rn"
  shows "logOk (snd (AddMember G now i addr known rn))"
    "logOk (snd (AddMember_resume G now dl i addr known rn))"
proof -
  show r: "logOk (snd (AddMember_resume G now dl i addr known rn))" for dl addr
    using assms logOk_proposeConfig
    by (simp add: AddMember_resume_def proposed_snd split: wait_poll.splits option.splits)
  show "logOk (snd (AddMember G now i addr known rn))"
    using assms r by (simp add: AddMember_def split: option.splits)
qed

lemma logOk_RemoveMember:
  assumes "logOk rn"
  shows "logOk (snd (RemoveMember G now i rn))" "logOk (snd (RemoveMember_resume G now dl i rn))"
proof -
  have p: "logOk (snd (RemoveMember_propose G i rn))"
    using assms logOk_proposeConfig by (simp add: RemoveMember_propose_def proposed_snd split: option.splits)
  then show r: "logOk (snd (RemoveMember_resume G now dl i rn))" for dl
    using assms by (simp add: RemoveMember_resume_def split: wait_poll.splits)
  show "logOk (snd (RemoveMember G now i rn))"
    using assms p r by (simp add: RemoveMember_def split: option.splits)
qed

lemma logOk_promoteLoop: "logOk rn \<Longrightarrow> logOk (promoteLoop G now ids rn)"
proof (induction ids arbitrary: rn)
  case (Cons i ids)
  have f: "logOk (rn\<lparr>learnerRounds := lr\<rparr>)" for lr
    using Cons.prems logOk_lview [of "rn\<lparr>learnerRounds := lr\<rparr>" rn] by (simp add: logframe)
  have p: "logOk rn1" if "proposeConfigLocked G nxt rn = (r, rn1)" for nxt r rn1
    using logOk_proposeConfig [OF Cons.prems, of G nxt] that by simp
  have q: "logOk (rn1\<lparr>learnerRounds := lr\<rparr>)" if "proposeConfigLocked G nxt rn = (r, rn1)" for nxt r rn1 lr
    using p [OF that] logOk_lview [of "rn1\<lparr>learnerRounds := lr\<rparr>" rn1] by (simp add: logframe)
  show ?case
    using Cons f p q
    by (auto simp: Let_def split: option.splits prod.splits sum.splits)
qed simp

lemma logOk_tickHeartbeat: "logOk rn \<Longrightarrow> logOk (tickHeartbeat G now rn)"
proof -
  assume ok: "logOk rn"
  then have h: "logOk (heartbeatLocked rn)"
    using logOk_lview [of "heartbeatLocked rn" rn] by (simp add: logframe)
  then have "logOk ((heartbeatLocked rn)\<lparr>learnerRounds := lr\<rparr>)" for lr
    using logOk_lview [of "(heartbeatLocked rn)\<lparr>learnerRounds := lr\<rparr>" "heartbeatLocked rn"] by (simp add: logframe)
  then show ?thesis
    using ok h logOk_promoteLoop by (simp add: tickHeartbeat_def maybePromoteLearnersLocked_def Let_def)
qed

text \<open>The syncer. \<open>term\<close> is positive unless the captured log was empty.\<close>

lemma logTerm_pos: "logTerm rn i \<noteq> 0 \<Longrightarrow> lastIncludedIndex rn \<le> lastLogIndex rn \<Longrightarrow> i \<le> lastLogIndex rn"
  by (auto simp: logTerm_def Let_def split: if_splits)

lemma logOk_markDurable:
  assumes "logOk rn" "0 < t \<or> i = 0"
  shows "logOk (markDurableLocked i t rn)"
proof (cases "i \<le> durableIndex rn \<or> logTerm rn i \<noteq> t")
  case False
  then have "i \<le> lastLogIndex rn"
    using logTerm_pos [of rn i] assms lastLog_logOk [OF assms(1)] by auto
  then have ok: "logOk (rn\<lparr>durableIndex := i\<rparr>)"
    using assms(1) lastLog_logOk [OF assms(1)] by (simp add: logOk_fields)
  have "lview (maybeAdvanceCommit (rn\<lparr>durableIndex := i\<rparr>)) = lview (rn\<lparr>durableIndex := i\<rparr>)"
    by (simp add: logframe)
  from logOk_lview [OF this] show ?thesis
    using False ok by (simp add: markDurableLocked_def Let_def)
qed (simp add: markDurableLocked_def assms)

lemma logOk_persistFailure: "logOk rn \<Longrightarrow> logOk (onPersistFailureLocked G e rn)"
proof -
  assume ok: "logOk rn"
  let ?es = "take (durableIndex rn + 1 - logFirstIndex rn) (rlog rn)"
  have t: "logOk (setLog ?es (rn\<lparr>persistFailed := True\<rparr>))" if "durableIndex rn + 1 \<ge> logFirstIndex rn"
    using ok that logFirst_ok [OF ok] by (auto simp: logOk_fields setLog_def contig_take min_def)
  have "lview (refreshConfigFromLog G (setLog ?es (rn\<lparr>persistFailed := True\<rparr>))) =
      lview (setLog ?es (rn\<lparr>persistFailed := True\<rparr>))"
    by (simp add: logframe)
  from logOk_lview [OF this] t have "logOk (refreshConfigFromLog G (setLog ?es (rn\<lparr>persistFailed := True\<rparr>)))"
    if "durableIndex rn + 1 \<ge> logFirstIndex rn"
    using that by blast
  moreover have "lview (rn\<lparr>persistFailed := True, notified := ns, waiters := w\<rparr>) = lview rn"
    "lview (rn\<lparr>persistFailed := True\<rparr>) = lview rn" for ns w
    by (simp_all add: lview_def)
  from this [THEN logOk_lview] have "logOk (rn\<lparr>persistFailed := True, notified := ns, waiters := w\<rparr>)"
    "logOk (rn\<lparr>persistFailed := True\<rparr>)" for ns w
    using ok by simp_all
  moreover have "logFirstIndex (rn\<lparr>persistFailed := True\<rparr>) = logFirstIndex rn"
    by (simp add: logFirstIndex_def)
  ultimately show ?thesis
    by (simp add: onPersistFailureLocked_def Let_def)
qed

lemma logOk_syncEnd:
  assumes "logOk rn" "0 < t \<or> i = 0"
  shows "logOk (snd (syncEnd G err i t rn))"
proof -
  have "logOk (snd (takeDecidedWaitersLocked r)) = logOk r" for r
    by (rule logOk_lview) (simp add: logframe)
  moreover have "logOk (kickReplicatorsLocked r) = logOk r" for r
    by (rule logOk_lview) (simp add: logframe)
  ultimately show ?thesis
    using assms logOk_markDurable [OF assms] logOk_persistFailure [OF assms(1)]
    by (simp add: syncEnd_def Let_def split: option.splits)
qed

text \<open>Applying leaves the log alone.\<close>

lemma lview_finishApplied [logframe]: "lview (finishApplied e rn) = lview rn"
proof -
  have "lview (onConfigCommitted e rn) = lview rn" for rn
    by (simp add: onConfigCommitted_def Let_def logframe) (simp add: lview_def)
  then show ?thesis
    by (simp add: finishApplied_def Let_def) (simp add: lview_def)
qed

lemma lview_fold_finish [logframe]: "lview (fold finishApplied es rn) = lview rn"
  by (induction es arbitrary: rn) (simp_all add: logframe)

lemma lview_applyEntries [logframe]: "lview (applyEntries es rn) = lview rn"
proof -
  have "lview (rn\<lparr>smCalls := c\<rparr>) = lview rn" for rn c
    by (simp add: lview_def)
  then show ?thesis
    by (induction es rn rule: applyEntries.induct)
       (simp_all add: applyBatchRun_def applySingle_def logframe)
qed

lemma lview_applyOneRun [logframe]: "lview (snd (applyOneRun rn)) = lview rn"
proof -
  have "lview (rn\<lparr>smCalls := c\<rparr>) = lview rn" for rn c
    by (simp add: lview_def)
  then show ?thesis
    by (simp add: applyOneRun_def recordApplied_def Let_def logframe)
qed

text \<open>Compaction and install.\<close>

lemma logOk_rewriteLog:
  assumes "contig (lastIncludedIndex rn + 1) (rlog rn)"
  shows "logOk (snd (rewriteLogLocked out ok rn))"
proof -
  obtain err s where r: "rewrite out ok (rlog rn) (store rn) = (err, s)"
    by (cases "rewrite out ok (rlog rn) (store rn)")
  have l: "lastLogIndex (rn\<lparr>store := s\<rparr>) = lastLogIndex rn"
    by (simp add: lastLogIndex_def)
  have "logOk (maybeAdvanceCommit r) = logOk r" "logOk (kickSyncerLocked r) = logOk r" for r
    by (rule logOk_lview, simp add: logframe)+
  moreover have "logOk (rn\<lparr>store := s, durableIndex := lastLogIndex rn\<rparr>)"
    "durableIndex rn \<le> lastLogIndex rn \<Longrightarrow> logOk (rn\<lparr>store := s\<rparr>)"
    using assms by (auto simp: logOk_def lastLogIndex_def)
  ultimately show ?thesis
    by (auto simp: rewriteLogLocked_def r l Let_def split: option.splits)
qed

lemma logOk_compact: "logOk rn \<Longrightarrow> logOk (compactLocked out ok meta rn)"
proof -
  assume o: "logOk rn"
  let ?rn2 = "(setLog (drop (smIndex meta - (lastIncludedIndex rn + 1) + 1) (rlog rn)) rn)
      \<lparr>lastIncludedIndex := smIndex meta, lastIncludedTerm := smTerm meta,
       baseConfig := smConfig meta, baseConfigIndex := smConfigIndex meta\<rparr>"
  have "contig (lastIncludedIndex ?rn2 + 1) (rlog ?rn2)" if "smIndex meta > lastIncludedIndex rn"
    using o that contig_drop [of "lastIncludedIndex rn + 1" "rlog rn"
        "smIndex meta - (lastIncludedIndex rn + 1) + 1"]
    by (simp add: logOk_def setLog_def)
  then show ?thesis
    using o logOk_rewriteLog [of ?rn2 out ok]
    by (simp add: compactLocked_def Let_def logFirst_ok [OF o])
qed

lemma logOk_takeSnapshot: "logOk rn \<Longrightarrow> logOk (takeSnapshot_install rename out ok now meta bs rn)"
proof -
  assume o: "logOk rn"
  have c: "logOk (captureEnd b now r) = logOk r" for b r
    by (rule logOk_lview) (simp add: captureEnd_def Let_def lview_def)
  have s: "logOk (rn\<lparr>snapFile := Some bs\<rparr>) = logOk rn"
    by (rule logOk_lview) (simp add: lview_def)
  show ?thesis
    using o c s logOk_compact [of "rn\<lparr>snapFile := Some bs\<rparr>"]
    by (simp add: takeSnapshot_install_def split: atomic_outcome.splits)
qed

lemma logOk_installLog:
  assumes "logOk rn" "\<not> installStale meta rn"
  shows "logOk (snd (installLog G out ok meta rn))"
proof -
  define es where "es = (if smIndex meta < lastLogIndex rn \<and> logTerm rn (smIndex meta) = smTerm meta
      then entriesFrom rn (smIndex meta + 1) else [])"
  define rn2 where "rn2 = (setLog es rn)\<lparr>lastIncludedIndex := smIndex meta, lastIncludedTerm := smTerm meta,
      commitIndex := (if commitIndex (setLog es rn) < smIndex meta then smIndex meta
                      else commitIndex (setLog es rn)),
      baseConfig := smConfig meta, baseConfigIndex := smConfigIndex meta\<rparr>"
  have "smIndex meta > lastIncludedIndex rn"
    using assms(2) by (simp add: installStale_def)
  then have "contig (smIndex meta + 1) es"
    using assms(1) contig_drop [of "lastIncludedIndex rn + 1" "rlog rn" "smIndex meta - lastIncludedIndex rn"]
    by (auto simp: es_def entriesFrom_ok logOk_def)
  then have "contig (lastIncludedIndex rn2 + 1) (rlog rn2)"
    by (simp add: rn2_def setLog_def)
  moreover have l: "lview (refreshConfigFromLog G rn2) = lview rn2"
    by (simp add: logframe)
  ultimately have "contig (lastIncludedIndex (refreshConfigFromLog G rn2) + 1) (rlog (refreshConfigFromLog G rn2))"
    using lview_fields [OF l] by simp
  then have "logOk (snd (rewriteLogLocked out ok (refreshConfigFromLog G rn2)))"
    by (rule logOk_rewriteLog)
  moreover have "logOk (snd (takeDecidedWaitersLocked r)) = logOk r" for r
    by (rule logOk_lview) (simp add: logframe)
  ultimately show ?thesis
    unfolding installLog_def Let_def es_def [symmetric] rn2_def [symmetric] by simp
qed

lemma logOk_installSnapshot:
  assumes o: "logOk rn"
  shows "logOk (snd (snd (installSnapshot G rename out ok tries meta bs rn)))"
proof -
  have e: "logOk (resetElectionTimer r) = logOk r" "logOk (r\<lparr>smCalls := cs\<rparr>) = logOk r"
      "logOk (installApplied meta r) = logOk r" "logOk (r\<lparr>snapFile := b\<rparr>) = logOk r" for r cs b
    by (rule logOk_lview, simp add: resetElectionTimer_def installApplied_def notifyApplier_def lview_def)+
  show ?thesis
  proof (cases "stopped rn \<or> installStale meta rn \<or> rename \<noteq> AtomicOk")
    case True
    then show ?thesis using o e by (auto simp: installSnapshot_def)
  next
    case False
    obtain dec rn1 where i: "installLog G out ok meta (rn\<lparr>snapFile := Some bs\<rparr>) = (dec, rn1)"
      by (cases "installLog G out ok meta (rn\<lparr>snapFile := Some bs\<rparr>)")
    have "\<not> installStale meta (rn\<lparr>snapFile := Some bs\<rparr>)"
      using False by (simp add: installStale_def)
    then have "logOk rn1"
      using logOk_installLog [of "rn\<lparr>snapFile := Some bs\<rparr>" meta G out ok] o e(4) i by simp
    then show ?thesis
      using False e by (simp add: installSnapshot_def i Let_def split: prod.splits)
  qed
qed

text \<open>Elections, votes, transfers and reads leave the log alone, up to the no-op of a new leader.\<close>

lemma lview_grantVote: "lview (snd (grantVote args rn)) = lview rn"
proof -
  define rnv where "rnv = rn\<lparr>ps := (ps rn)\<lparr>VotedFor := rvCandidateID args\<rparr>\<rparr>"
  have "lview (snd (persistMetaLocked rnv)) = lview rn"
    by (simp add: logframe) (simp add: rnv_def lview_def)
  moreover have "lview (r\<lparr>ps := (ps r)\<lparr>VotedFor := v\<rparr>\<rparr>) = lview r" for r :: RaftNode and v
    by (simp add: lview_def)
  ultimately show ?thesis
    unfolding grantVote_def Let_def rnv_def [symmetric] case_prod_unfold by (simp add: logframe)
qed

lemma lview_HandleRequestVote [logframe]: "lview (snd (HandleRequestVote now args rn)) = lview rn"
  by (simp add: HandleRequestVote_def Let_def case_prod_unfold lview_grantVote logframe)

lemma logOk_startElection: "logOk rn \<Longrightarrow> logOk (snd (startElection rn))"
proof -
  assume ok: "logOk rn"
  define rn0 where "rn0 = rn\<lparr>ps := (ps rn)\<lparr>CurrentTerm := curTerm rn + 1, VotedFor := rnId rn\<rparr>\<rparr>"
  obtain err rn1 where p: "persistMetaLocked rn0 = (err, rn1)"
    by (cases "persistMetaLocked rn0")
  have l1: "lview rn1 = lview rn"
    using lview_persistMeta [of rn0] p by (simp add: rn0_def lview_def)
  define rn2 where "rn2 = resetElectionTimer (kickSyncerLocked (rn1\<lparr>role := RoleCandidate, LeaderID := []\<rparr>))"
  have "lview rn2 = lview rn" "lview (resetElectionTimer rn1) = lview rn"
    using l1 by (simp_all add: rn2_def logframe) (simp add: lview_def)
  from this [THEN logOk_lview] have "logOk rn2" "logOk (resetElectionTimer rn1)"
    using ok by simp_all
  then show ?thesis
    using ok logOk_becomeLeader
    unfolding startElection_def Let_def rn0_def [symmetric] p prod.case rn2_def [symmetric]
    by simp
qed

lemma logOk_electionReply: "logOk rn \<Longrightarrow> logOk (snd (electionReply reply el rn))"
  using logOk_becomeLeader logOk_lview [OF lview_becomeFollower]
  by (simp add: electionReply_def Let_def)

lemma lview_preVote [logframe]:
  "lview (snd (preVote_reply reply pv rn)) = lview rn"
  "lview (snd (preVote_end now td pv rn)) = lview rn" "lview (preVoteFailed rn) = lview rn"
  "lview (snd (tickElection gen rn)) = lview rn"
proof -
  show "lview (snd (preVote_end now td pv rn)) = lview rn"
    by (simp add: preVote_end_def lview_def)
qed (simp_all add: preVote_reply_def preVoteFailed_def tickElection_def logframe)

lemma lview_replicateStep:
  "(case replicateStep r w now rn of ReplStop b rn' \<Rightarrow> lview rn' | ReplSend s rn' \<Rightarrow> lview rn') = lview rn"
  by (simp add: replicateStep_def Let_def logframe split: option.splits)

lemma lview_replicateLoop [logframe]: "lview (snd (snd (replicateLoop r w now sends rn))) = lview rn"
proof (induction r w now sends rn rule: replicateLoop.induct)
  case (1 r window now sends rn)
  show ?case
    using 1 lview_replicateStep [of r window now rn]
    by (subst replicateLoop.simps) (auto split: repl_step.splits)
qed

lemma lview_replicate [logframe]: "lview (snd (snd (replicate_peer r now rn))) = lview rn"
proof -
  have "lview rn' = lview rn" if "replicateLoop r w now [] (updPR r f rn) = (sends, snap, rn')"
    for w f sends snap rn'
    using lview_replicateLoop [of r w now "[]" "updPR r f rn"] that by (simp add: logframe)
  then show ?thesis
    by (auto simp: replicate_peer_def Let_def logframe split: option.splits prod.splits)
qed

lemma lview_transfer [logframe]:
  "lview (snd (maybeSnapshot now rn)) = lview rn" "lview (snd (sendSnapshot_begin p t rn)) = lview rn"
  "lview (snd (sendSnapshot_end p t meta rn)) = lview rn" "lview (sendSnapshot_release p rn) = lview rn"
  "lview (transferEnd r inst conf now rn) = lview rn" "lview (snd (stillLeading t rt rn)) = lview rn"
  "lview (finishReceive st rn) = lview rn" "lview (snd (ReadIndex_reply areply rr rn)) = lview rn"
  "lview (AddPeer i rn) = lview rn"
proof -
  show "lview (snd (maybeSnapshot now rn)) = lview rn"
    by (simp add: maybeSnapshot_def Let_def lview_def)
  show "lview (snd (sendSnapshot_begin p t rn)) = lview rn"
    by (simp add: sendSnapshot_begin_def lview_def)
  show "lview (sendSnapshot_release p rn) = lview rn" "lview (finishReceive st rn) = lview rn"
    by (simp_all add: sendSnapshot_release_def finishReceive_def lview_def)
qed (simp_all add: sendSnapshot_end_def transferEnd_def stillLeading_def ReadIndex_reply_def
    AddPeer_def Let_def logframe)

lemma lview_installChunk [logframe]:
  "lview (snd (HandleInstallSnapshotChunk now oo wo args rn)) = lview rn"
proof -
  have "lview (snd (acceptLeaderLocked now t l rn)) = lview rn" for t l
  proof -
    have "lview (r\<lparr>role := RoleFollower, LeaderID := l\<rparr>) = lview r" for r :: RaftNode
      by (simp add: lview_def)
    then show ?thesis
      by (simp add: acceptLeaderLocked_def Let_def case_prod_unfold logframe)
  qed
  moreover have "lview (r\<lparr>recv := x\<rparr>) = lview r" for r x
    by (simp add: lview_def)
  moreover have "lview (snd (receiveChunk wo args st reply r)) = lview r" for st reply r
    by (simp add: receiveChunk_def Let_def) (simp add: lview_def)
  ultimately show ?thesis
    by (simp add: HandleInstallSnapshotChunk_def Let_def case_prod_unfold
        split: option.splits recvState.splits)
qed

section \<open>The invariant\<close>

text \<open>All operations of a running node, with requests as \<open>wfArgs\<close> leaders send them.\<close>

inductive logOp :: "gob \<Rightarrow> RaftNode \<Rightarrow> RaftNode \<Rightarrow> bool" for G where
  appendEntries: "wfArgs args \<Longrightarrow> logOp G rn (snd (HandleAppendEntriesAsync G now args resp rn))"
| flushStore: "logOp G rn (rn\<lparr>store := snd (flush wr ok (store rn))\<rparr>)"
| syncEnd: "0 < t \<or> i = 0 \<Longrightarrow> logOp G rn (snd (syncEnd G err i t rn))"
| replicate: "logOp G rn (snd (snd (replicate_peer r now rn)))"
| appendReply: "logOp G rn (onAppendReply r now s res rn)"
| submit: "logOp G rn (snd (flushBatch batch rn))"
| timeout: "logOp G rn (removeWaiter idx ch rn)"
| requestVote: "logOp G rn (snd (HandleRequestVote now vargs rn))"
| election: "logOp G rn (snd (startElection rn))"
| voteReply: "logOp G rn (snd (electionReply vreply el rn))"
| preVoteReply: "logOp G rn (snd (preVote_reply vreply pv rn))"
| preVoteEnd: "logOp G rn (snd (preVote_end now td pv rn))"
| preVoteFailed: "logOp G rn (preVoteFailed rn)"
| tickElection: "logOp G rn (snd (tickElection gen rn))"
| tickHeartbeat: "logOp G rn (tickHeartbeat G now rn)"
| finishApplied: "logOp G rn (finishApplied e rn)"
| applyOneRun: "logOp G rn (snd (applyOneRun rn))"
| addMember: "logOp G rn (snd (AddMember G now m addr known rn))"
| addResume: "logOp G rn (snd (AddMember_resume G now dl m addr known rn))"
| removeMember: "logOp G rn (snd (RemoveMember G now m rn))"
| removeResume: "logOp G rn (snd (RemoveMember_resume G now dl m rn))"
| addPeer: "logOp G rn (AddPeer m rn)"
| readReply: "logOp G rn (snd (ReadIndex_reply areply rr rn))"
| maybeSnapshot: "logOp G rn (snd (maybeSnapshot now rn))"
| takeSnapshot: "logOp G rn (takeSnapshot_install rename out ok now meta bs rn)"
| sendBegin: "logOp G rn (snd (sendSnapshot_begin p t rn))"
| sendEnd: "logOp G rn (snd (sendSnapshot_end p t meta rn))"
| sendRelease: "logOp G rn (sendSnapshot_release p rn)"
| transferEnd: "logOp G rn (transferEnd r inst conf now rn)"
| stillLeading: "logOp G rn (snd (stillLeading t rt rn))"
| installChunk: "logOp G rn (snd (HandleInstallSnapshotChunk now oo wo cargs rn))"
| finishReceive: "logOp G rn (finishReceive st rn)"
| installSnapshot: "logOp G rn (snd (snd (installSnapshot G rename out ok tries meta bs rn)))"

lemma logOp_ok: "logOp G rn rn' \<Longrightarrow> logOk rn \<Longrightarrow> logOk rn'"
proof (induction rule: logOp.induct)
qed (simp_all add: logOk_HandleAppendEntries logOk_syncEnd logOk_flushBatch logOk_startElection
    logOk_electionReply logOk_tickHeartbeat logOk_AddMember logOk_RemoveMember logOk_takeSnapshot
    logOk_installSnapshot logframe [THEN logOk_lview])

section \<open>What the leader sends\<close>

lemma batchCount_bounds:
  "batchCount n b es \<le> n + length es \<and> n \<le> batchCount n b es \<and>
   (n \<le> maxAppendEntries \<longrightarrow> batchCount n b es \<le> maxAppendEntries) \<and>
   (es \<noteq> [] \<and> n = 0 \<longrightarrow> 1 \<le> batchCount n b es)"
proof (induction es arbitrary: n b)
  case (Cons e es)
  show ?case
    using Cons.IH [of "n + 1" "b + length (eCommand e)"] by (auto simp: maxAppendEntries_def)
qed simp

lemma batchCount_bytes:
  "n > 0 \<longrightarrow> b \<le> maxAppendBytes \<longrightarrow>
   b + sum_list (map (length \<circ> eCommand) (take (batchCount n b es - n) es)) \<le> maxAppendBytes"
proof (induction es arbitrary: n b)
  case (Cons e es)
  show ?case
  proof (cases "n < maxAppendEntries \<and> (n = 0 \<or> b + length (eCommand e) \<le> maxAppendBytes)")
    case True
    have "Suc n \<le> batchCount (n + 1) (b + length (eCommand e)) es"
      using batchCount_bounds [of "n + 1" "b + length (eCommand e)" es] by simp
    then have "batchCount (n + 1) (b + length (eCommand e)) es - n =
        Suc (batchCount (n + 1) (b + length (eCommand e)) es - (n + 1))"
      by simp
    then show ?thesis
      using True Cons.IH [of "n + 1" "b + length (eCommand e)"] by (auto simp: add.assoc)
  next
    case False
    then have "batchCount n b (e # es) = n" by auto
    then show ?thesis by (simp del: batchCount.simps)
  qed
qed simp

text \<open>One message: a contiguous run after \<open>prev\<close>, bounded in entries and bytes.\<close>

definition sendOk :: "aeSend \<Rightarrow> bool" where
  "sendOk s \<longleftrightarrow> wfArgs (asArgs s) \<and>
     (let es = aeEntries (asArgs s) in length es \<le> maxAppendEntries \<and> (asEntries s \<longleftrightarrow> es \<noteq> []) \<and>
        (length es \<le> 1 \<or> sum_list (map (length \<circ> eCommand) es) \<le> maxAppendBytes))"

lemma batch_ok:
  "length (take (batchCount 0 0 es) es) \<le> 1 \<or>
   sum_list (map (length \<circ> eCommand) (take (batchCount 0 0 es) es)) \<le> maxAppendBytes"
proof (cases es)
  case (Cons e es')
  let ?c = "length (eCommand e)"
  have n: "batchCount 0 0 es = batchCount 1 ?c es'"
    using Cons by (simp add: maxAppendEntries_def)
  have ge: "1 \<le> batchCount 1 ?c es'"
    using batchCount_bounds [of 1 ?c es'] by simp
  show ?thesis
  proof (cases "?c \<le> maxAppendBytes")
    case True
    have "take (batchCount 0 0 es) es = e # take (batchCount 1 ?c es' - 1) es'"
      using n ge Cons by (simp add: take_Cons')
    then show ?thesis
      using batchCount_bytes [of 1 ?c es'] True by simp
  next
    case False
    then have "batchCount 1 ?c es' = 1"
      by (cases es') auto
    then show ?thesis using n by simp
  qed
qed simp

lemma replicateStep_sendOk:
  assumes ok: "logOk rn" and r: "replicateStep r w now rn = ReplSend s rn'"
  shows "sendOk s"
proof -
  obtain pr where pr: "prHeap rn r = Some pr"
    using r by (auto simp: replicateStep_def split: option.splits)
  define next0 where "next0 = nextIndex rn (prPeer pr)"
  define nx where "nx = (if next0 = 0 then lastLogIndex rn + 1 else next0)"
  define rn1 where "rn1 = rn\<lparr>nextIndex := (nextIndex rn)(prPeer pr := nx)\<rparr>"
  let ?es = "entriesFrom rn1 nx"
  have nx: "nx > lastIncludedIndex rn" "nx \<le> lastLogIndex rn"
      and s: "s = \<lparr>asArgs = appendArgsLocked (nx - 1) (take (batchCount 0 0 ?es) ?es) rn1,
        asEntries = True, asEpoch = prEpoch pr, asSnapHB = False\<rparr>"
    using r pr unfolding replicateStep_def Let_def
    by (auto simp: next0_def nx_def rn1_def split: if_splits)
  have v: "lview rn1 = lview rn"
    by (simp add: rn1_def logframe)
  have ok1: "logOk rn1"
    using ok logOk_lview [OF v] by simp
  have es: "?es = drop (nx - (lastIncludedIndex rn + 1)) (rlog rn)"
    using entriesFrom_ok [OF ok1, of nx] nx lview_fields [OF v] by simp
  have "contig nx ?es"
    using es nx(1) ok contig_drop [of "lastIncludedIndex rn + 1" "rlog rn" "nx - (lastIncludedIndex rn + 1)"]
    by (simp add: logOk_def)
  moreover have "?es \<noteq> []"
    using es nx lastLog_logOk [OF ok] by simp
  moreover have "batchCount 0 0 ?es \<le> maxAppendEntries" "1 \<le> batchCount 0 0 ?es"
    using batchCount_bounds [of 0 0 ?es] \<open>?es \<noteq> []\<close> by auto
  ultimately show ?thesis
    using batch_ok [of ?es] nx(1)
    by (auto simp: sendOk_def wfArgs_def s appendArgsLocked_def contig_take)
qed

lemma replicateLoop_sendOk:
  assumes "logOk rn" "\<forall>s \<in> set sends. sendOk s" "replicateLoop r w now sends rn = (sends', snap, rn')"
  shows "\<forall>s \<in> set sends'. sendOk s"
  using assms
proof (induction r w now sends rn rule: replicateLoop.induct)
  case (1 r w now sends rn)
  show ?case
  proof (cases "replicateStep r w now rn")
    case (ReplStop b rn1)
    then show ?thesis
      using 1 by (simp add: replicateLoop.simps [of r w now sends rn])
  next
    case (ReplSend s rn2)
    have "lview rn2 = lview rn"
      using lview_replicateStep [of r w now rn] ReplSend by simp
    then have "logOk rn2"
      using 1(2) logOk_lview by blast
    then show ?thesis
      using 1 ReplSend replicateStep_sendOk [OF 1(2) ReplSend]
      by (simp add: replicateLoop.simps [of r w now sends rn])
  qed
qed

lemma replicate_sendOk:
  assumes ok: "logOk rn" and r: "replicate_peer r now rn = (sends, snap, rn')" and s: "s \<in> set sends"
  shows "sendOk s"
proof -
  obtain pr where pr: "prHeap rn r = Some pr" "\<not> (prStopped pr \<or> role rn \<noteq> RoleLeader \<or> curTerm rn \<noteq> prTerm pr)"
    using r s by (auto simp: replicate_peer_def split: option.splits if_splits)
  define w where "w = (if prProbing pr then 1 else pipelineWindow rn)"
  define rn0 where "rn0 = updPR r (\<lambda>pr. pr\<lparr>prHbDue := False\<rparr>) rn"
  obtain sends1 snap1 rn1 where l: "replicateLoop r w now [] rn0 = (sends1, snap1, rn1)"
    by (metis prod.exhaust)
  have "lview rn0 = lview rn"
    by (simp add: rn0_def logframe)
  then have "logOk rn0"
    using ok logOk_lview by blast
  then have "\<forall>s \<in> set sends1. sendOk s"
    using replicateLoop_sendOk [OF _ _ l] by simp
  moreover have "s \<in> set sends1 \<or> aeEntries (asArgs s) = [] \<and> \<not> asEntries s"
    using r s pr unfolding replicate_peer_def Let_def w_def [symmetric] rn0_def [symmetric] pr option.case l prod.case
    by (auto simp: appendArgsLocked_def split: if_splits)
  ultimately show ?thesis
    by (auto simp: sendOk_def wfArgs_def)
qed

section \<open>The log of a starting node\<close>

lemma replayRecord_contig_ex:
  "contig f es \<Longrightarrow> \<exists>f'. contig f' (fst (replayRecord (es, g) e))"
proof -
  assume c: "contig f es"
  show ?thesis
  proof (cases "es = []")
    case False
    then have h: "eIndex (hd es) = f" "eIndex (last es) = f + length es - 1"
      using c contig_hd contig_last by blast+
    show ?thesis
    proof (cases "f < eIndex e \<and> eIndex e \<le> f + length es")
      case True
      have "fst (replayRecord (es, g) e) = take (eIndex e - f) es @ [e]"
        using False h True by (auto simp: replayRecord_def Let_def)
      moreover have "contig f (take (eIndex e - f) es @ [e])"
        using c True by (auto simp: contig_take min_def)
      ultimately show ?thesis by auto
    next
      case out: False
      then have "fst (replayRecord (es, g) e) = [e]"
        using False h by (auto simp: replayRecord_def Let_def)
      then show ?thesis by simp
    qed
  qed (simp add: replayRecord_def)
qed

lemma replayLoop_contig:
  "contig f es \<Longrightarrow> replayLoop bs es good gap = (es', good', gap') \<Longrightarrow> \<exists>f'. contig f' es'"
proof (induction bs es good gap arbitrary: f rule: replayLoop.induct)
  case (1 bs es good gap)
  show ?case
  proof (cases "readRecord bs")
    case None
    then show ?thesis
      using 1(2,3) by (auto simp: replayLoop.simps [of bs])
  next
    case (Some a)
    obtain e rest where a: "a = (e, rest)" by (cases a)
    obtain es1 g1 where r: "replayRecord (es, gap) e = (es1, g1)"
      by (cases "replayRecord (es, gap) e")
    obtain f1 where "contig f1 es1"
      using replayRecord_contig_ex [OF 1(2), of gap e] r by auto
    moreover have "replayLoop rest es1 (good + (length bs - length rest)) g1 = (es', good', gap')"
      using 1(3) Some a r by (simp add: replayLoop.simps [of bs])
    ultimately show ?thesis
      using 1(1) [OF Some a [symmetric] r [symmetric]] by blast
  qed
qed

lemma openLogStore_contig:
  assumes "openLogStore G io d = (Inr (st, ld), d')"
  shows "\<exists>f. contig f (lsEntries ld)"
proof -
  obtain d1 good gap d2 where r: "replayLog io d1 = (Inr (lsEntries ld, good, gap), d2)"
    using assms by (auto simp: openLogStore_def split: prod.splits sum.splits)
  show ?thesis
  proof (cases "dLog d1")
    case None
    then have "lsEntries ld = []"
      using r by (auto simp: replayLog_def split: prod.splits option.splits)
    then show ?thesis by simp
  next
    case (Some b)
    then have "replayLoop (drop raftLogHdrLen b) [] raftLogHdrLen 0 = (lsEntries ld, good, gap)"
      using r by (auto simp: replayLog_def replayBytes_def split: if_splits)
    then show ?thesis
      using replayLoop_contig [of 0 "[]"] by (metis contig.simps(1))
  qed
qed

lemma loadState_logOk:
  assumes l: "loadState G io out ok d rn = (None, rn')"
    and z: "\<forall>st ld d'. openLogStore G io d = (Inr (st, ld), d') \<longrightarrow> (\<forall>e \<in> set (lsEntries ld). 0 < eIndex e)"
  shows "logOk rn'"
proof -
  obtain st ld d' where o: "openLogStore G io d = (Inr (st, ld), d')"
    using l by (auto simp: loadState_def split: prod.splits sum.splits)
  define rn1 where "rn1 = rn\<lparr>store := st, ps := \<lparr>CurrentTerm = mTerm (lsMeta ld),
      VotedFor = mVote (lsMeta ld), Log = lsEntries ld\<rparr>\<rparr>"
  obtain cut rn2 where dc: "dropCovered rn1 = (cut, rn2)"
    by (cases "dropCovered rn1")
  obtain e3 rn3 where rt: "raiseTerm rn2 = (e3, rn3)"
    by (cases "raiseTerm rn2")
  note l1 = l [unfolded loadState_def o Let_def prod.case sum.case, folded rn1_def, unfolded dc prod.case]
  have first: "\<not> (rlog rn2 \<noteq> [] \<and> eIndex (hd (rlog rn2)) > lastIncludedIndex rn2 + 1)"
    and e3: "e3 = None"
    using l1 rt by (auto split: if_splits option.splits)
  obtain f where f: "contig f (rlog rn1)"
    using openLogStore_contig [OF o] by (auto simp: rn1_def)
  have pos: "rlog rn1 \<noteq> [] \<Longrightarrow> 0 < f"
    using z o f contig_hd [OF f] by (force simp: rn1_def)
  have c2: "contig (lastIncludedIndex rn2 + 1) (rlog rn2)"
  proof (cases "rlog rn2 = []")
    case False
    show ?thesis
    proof (cases cut)
      case True
      then have "lastIncludedIndex rn1 \<ge> eIndex (hd (rlog rn1))" "rlog rn1 \<noteq> []"
          "rlog rn2 = drop (lastIncludedIndex rn1 - f + 1) (rlog rn1)" "lastIncludedIndex rn2 = lastIncludedIndex rn1"
        using dc contig_hd [OF f] by (auto simp: dropCovered_def setLog_def split: if_splits)
      then show ?thesis
        using contig_drop [OF f, of "lastIncludedIndex rn1 - f + 1"] contig_hd [OF f] by simp
    next
      case nc: False
      then have "rn2 = rn1" and n: "\<not> (lastIncludedIndex rn1 > 0 \<and> rlog rn1 \<noteq> [] \<and>
          lastIncludedIndex rn1 \<ge> eIndex (hd (rlog rn1)))"
        using dc by (auto simp: dropCovered_def split: if_splits)
      then have "f = lastIncludedIndex rn1 + 1"
        using first False contig_hd [OF f] pos by auto
      then show ?thesis using f \<open>rn2 = rn1\<close> by simp
    qed
  qed simp
  have "lview rn3 = lview rn2"
  proof -
    have "lview (snd (persistMetaLocked (rn2\<lparr>ps := (ps rn2)\<lparr>CurrentTerm := t, VotedFor := []\<rparr>\<rparr>))) = lview rn2" for t
      by (simp add: logframe) (simp add: lview_def)
    then show ?thesis
      using rt by (auto simp: raiseTerm_def split: if_splits) (metis snd_conv)
  qed
  then have "contig (lastIncludedIndex rn3 + 1) (rlog rn3)"
    using c2 by (simp add: lview_def)
  moreover obtain s4 where "rn' = (rn3\<lparr>store := s4\<rparr>)\<lparr>durableIndex := lastLogIndex (rn3\<lparr>store := s4\<rparr>)\<rparr>"
  proof -
    obtain err s4 where "(if lsGap ld > 0 \<or> cut then rewrite out ok (rlog rn3) (store rn3)
        else (None, store rn3)) = (err, s4)"
      by (cases "if lsGap ld > 0 \<or> cut then rewrite out ok (rlog rn3) (store rn3)
        else (None, store rn3)")
    then have "rn' = (rn3\<lparr>store := s4\<rparr>)\<lparr>durableIndex := lastLogIndex (rn3\<lparr>store := s4\<rparr>)\<rparr>"
      using l1 rt e3 by (auto split: if_splits)
    then show thesis by (rule that)
  qed
  ultimately show ?thesis
    by (auto simp: logOk_def lastLogIndex_def)
qed

lemma lview_smCalls [logframe]: "lview (rn\<lparr>smCalls := c\<rparr>) = lview rn"
  by (simp add: lview_def)

lemma lview_startupRestore: "startupRestore smOk m rn = (r, rn') \<Longrightarrow> lview rn' = lview rn"
  by (auto simp: startupRestore_def Let_def logframe split: if_splits)

lemma lview_smSequence: "smSequence smOk cs rn = (r, rn') \<Longrightarrow> lview rn' = lview rn"
  by (induction cs arbitrary: rn) (auto simp: Let_def logframe split: if_splits)

lemma logOk_force:
  assumes "logOk rn" "forceSingleNodeConfigLocked G out ok addr rn = (None, rn')"
  shows "logOk rn'"
proof -
  obtain rn1 cmd s where p: "persistMetaLocked
        (rn\<lparr>ps := (ps rn)\<lparr>CurrentTerm := curTerm rn + 1, VotedFor := []\<rparr>\<rparr>) = (None, rn1)"
      and r: "rn' = (setLog (rlog rn1 @ [\<lparr>eTerm = curTerm rn1, eIndex = lastLogIndex rn1 + 1,
          eType = EntryConfig, eCommand = cmd\<rparr>]) rn1)\<lparr>store := s,
        durableIndex := lastLogIndex (setLog (rlog rn1 @ [\<lparr>eTerm = curTerm rn1,
          eIndex = lastLogIndex rn1 + 1, eType = EntryConfig, eCommand = cmd\<rparr>]) rn1)\<rparr>"
    using assms(2) unfolding forceSingleNodeConfigLocked_def Let_def
    by (auto split: option.splits prod.splits)
  have "lview rn1 = lview rn"
    using lview_persistMeta [of "rn\<lparr>ps := (ps rn)\<lparr>CurrentTerm := curTerm rn + 1, VotedFor := []\<rparr>\<rparr>"] p
    by (simp add: lview_def)
  then have "logOk rn1"
    using assms(1) logOk_lview by blast
  then show ?thesis
    using lastLog_logOk [of rn1] by (simp add: r setLog_def logOk_def lastLogIndex_def)
qed

lemma startNode_logOk:
  assumes s: "startNode G io out ok smOk opts a d rn1 = (None, rn')"
    and z: "\<forall>st ld d'. openLogStore G io d = (Inr (st, ld), d') \<longrightarrow> (\<forall>e \<in> set (lsEntries ld). 0 < eIndex e)"
  shows "logOk rn'"
  using s
proof (rule startNode_steps)
  fix rn2 snap rn3 rn4 rn5 li rn6
  assume l: "loadState G io out ok d rn2 = (None, rn3)"
    and f: "finishStartupRestore smOk (trustApplied a rn3) snap rn3 = (None, rn4)"
    and e: "(if hasAppliedSM rn4 \<and> \<not> trustApplied a rn3 \<and> lastIncludedIndex rn4 = 0 \<and> rlog rn4 \<noteq> []
      then resetStateForReplay smOk rn4 else (None, rn4)) = (None, rn5)"
    and r6: "rn6 = refreshConfigFromLog G (rn5\<lparr>commitIndex := li, lastApplied := li\<rparr>)"
    and fin: "(if optForceNewCluster opts
      then (case forceSingleNodeConfigLocked G out ok (optSelfAddr opts) rn6 of
          (Some e, rn7) \<Rightarrow> (Some e, rn7)
        | (None, rn7) \<Rightarrow> (None, (refreshConfigFromLog G rn7)\<lparr>replReady := True\<rparr>))
      else (None, rn6\<lparr>replReady := True\<rparr>)) = (None, rn')"
  have "lview rn4 = lview rn3"
    using f lview_startupRestore by (auto simp: finishStartupRestore_def split: option.splits if_splits)
  moreover have "lview rn5 = lview rn4"
    using e lview_smSequence [where rn = rn4 and rn' = rn5]
    by (auto simp: resetStateForReplay_def simp del: smSequence.simps split: if_splits)
  moreover have "lview rn6 = lview rn5"
    by (simp add: r6 logframe) (simp add: lview_def)
  ultimately have "logOk rn6"
    using loadState_logOk [OF l z] logOk_lview by metis
  moreover have rr: "logOk (r\<lparr>replReady := True\<rparr>) = logOk r" "logOk (refreshConfigFromLog G r) = logOk r" for r
    by (rule logOk_lview, simp add: lview_def) (rule logOk_lview [OF lview_refreshConfig])
  ultimately show ?thesis
    using fin logOk_force [of rn6 G out ok "optSelfAddr opts"]
    by (auto split: if_splits prod.splits option.splits)
qed

text \<open>
  C3: the log of a running node is always a contiguous run of entries right
  after its snapshot, and the durable index is never past its end, whatever messages, timeouts,
  disk errors, snapshots and membership changes it went through since it started. (The durable
  index may be below the snapshot, after a compaction whose rewrite of the log file failed.)
  Under this invariant a lookup by index finds exactly the entry with that index, and every
  request the node's replicators send carries a contiguous run after \<open>PrevLogIndex\<close>, at most
  \<open>maxAppendEntries\<close> entries, and more than \<open>maxAppendBytes\<close> of commands only in a single
  entry. The requests it receives are assumed contiguous, as those replicators send them, an
  index the syncer reports durable has an entry of a positive term, and the log file it started
  from has no entry with index 0.
\<close>

theorem log_invariant:
  assumes "NewRaftNodeWithOptions G io out ok smOk opts a d peers rn0 = (None, rn1)"
    and "\<forall>st ld d'. openLogStore G io d = (Inr (st, ld), d') \<longrightarrow> (\<forall>e \<in> set (lsEntries ld). 0 < eIndex e)"
    and "(logOp G)\<^sup>*\<^sup>* rn1 rn"
  shows "logOk rn \<and> entryAt rn i = find (\<lambda>e. eIndex e = i) (rlog rn) \<and>
    (\<forall>s \<in> set (fst (replicate_peer r now rn)). sendOk s)"
proof -
  have "logOk rn1"
    using startNode_logOk [OF _ assms(2)] assms(1) by (simp add: NewRaftNodeWithOptions_def Let_def)
  with assms(3) have "logOk rn"
    by (induction rule: rtranclp_induct) (auto dest: logOp_ok)
  then show ?thesis
    using entryAt_find [of rn i] replicate_sendOk [of rn r now]
    by (cases "replicate_peer r now rn") auto
qed

theorem log_invariant_witness:
  "\<exists>rn. (logOp exampleGob)\<^sup>*\<^sup>* (exampleNode ''a'' [''a'']) rn \<and> rlog rn \<noteq> [] \<and>
     logOk rn \<and> entryAt rn 1 = find (\<lambda>e. eIndex e = 1) (rlog rn)"
proof -
  let ?zero = "(exampleNode ''a'' [])\<lparr>replReady := False\<rparr>"
  let ?start = "exampleNode ''a'' [''a'']"
  let ?led = "snd (startElection ?start)"
  have st: "NewRaftNodeWithOptions exampleGob goodIO AtomicOk True (\<lambda>_. True) plainOptions None
      emptyDisk [] ?zero = (None, ?start)"
    using exampleStart_ok by (simp add: exampleStart_def)
  have run: "(logOp exampleGob)\<^sup>*\<^sup>* ?start ?led"
    by (intro r_into_rtranclp logOp.election)
  have "rlog ?led \<noteq> []"
    by (simp add: startElection_def exampleNode_def containsVoter_def persistMetaLocked_def
        popMetaIO_def saveMeta_def writeMeta_def freshStore_def kickSyncerLocked_def
        resetElectionTimer_def quorumSize_def becomeLeader_def enqueueLocked_def enqueue_def
        syncReplicatorsLocked_def setLog_def lastLogIndex_def Let_def)
  with run log_invariant [OF st _ run, of 1 0 0] show ?thesis
    by (auto simp: emptyDisk_open)
qed

end
