(* ===== verification/RaftDurability.thy ===== *)
theory RaftDurability
  imports RaftLog
begin

text \<open>
  What an acknowledgement is worth. The node's log and the store's record sequence are tied
  together: replaying what is written gives the log in memory, and replaying any sequence a
  crash can leave gives the same entries up to the durable index. The syncer captures the end
  of the log, writes and fsyncs the queue without the node's lock, and only then raises the
  durable index, while requests keep arriving; \<open>durStep\<close> interleaves these steps, with writes
  and fsyncs that may fail. A follower acknowledges entries only up to the durable index, so
  what it acknowledged survives a crash of the machine, except in one schedule that the term
  check of \<open>markDurableLocked\<close> does not recognise.
\<close>

section \<open>Acknowledgements stay within the durable index\<close>

definition ackOk :: "RaftNode \<Rightarrow> AppendEntriesReply \<Rightarrow> bool" where
  "ackOk rn r \<longleftrightarrow> (aerSuccess r \<and> aerHasMatch r \<longrightarrow> aerMatchIndex r \<le> max (lastIncludedIndex rn) (durableIndex rn))"

lemma ackOk_lview: "lview rn' = lview rn \<Longrightarrow> ackOk rn' r = ackOk rn r"
  by (simp add: ackOk_def lview_def)

lemma takeDecided_ack:
  assumes "takeDecidedWaitersLocked rn = (rs, rn')" "(p, r) \<in> set rs"
  shows "ackOk rn' r"
proof -
  obtain w ok where w: "decideWaiter rn w = Some ok" "r = decidedReply rn w ok"
    using assms by (auto simp: takeDecidedWaitersLocked_def split: option.splits) metis
  then have "ok \<Longrightarrow> wTarget w \<le> max (lastIncludedIndex rn) (durableIndex rn)"
    by (auto simp: decideWaiter_def split: if_splits)
  then have "ackOk rn r"
    using w(2) by (auto simp: ackOk_def decidedReply_def)
  moreover have "lview rn' = lview rn"
    using assms(1) lview_takeDecided [of rn] by simp
  ultimately show ?thesis using ackOk_lview by blast
qed

lemma acceptEntries_ack:
  assumes a: "acceptEntries G args reply rn = ((r, w), rn')" and r: "\<not> aerSuccess reply" "\<not> aerHasMatch reply"
  shows "ackOk rn' r"
proof -
  let ?below = "aePrevLogIndex args < lastIncludedIndex rn"
  define es where "es = (if ?below then drop (lastIncludedIndex rn - aePrevLogIndex args) (aeEntries args)
    else aeEntries args)"
  define prev where "prev = (if ?below then lastIncludedIndex rn else aePrevLogIndex args)"
  obtain b rn1 where l: "appendLoop G prev es rn = (b, rn1)"
    by (cases "appendLoop G prev es rn")
  define rn2 where "rn2 = advanceFollowerCommit (aeLeaderCommit args) (prev + length es) rn1"
  show ?thesis
    using a r unfolding acceptEntries_def Let_def es_def [symmetric] prev_def [symmetric] l prod.case
      rn2_def [symmetric]
    by (auto simp: ackOk_def split: if_splits)
qed

lemma appendEntries_ack:
  assumes "appendEntriesLocked G now args rn = ((r, w), rn')"
  shows "ackOk rn' r"
proof -
  define a1 where "a1 = (if aeTerm args > curTerm rn
      then persistMetaLocked (becomeFollower (aeTerm args) rn) else (None, rn))"
  define rn2 where "rn2 = noteLeaderContactLocked now
      (resetElectionTimer ((snd a1)\<lparr>role := RoleFollower, LeaderID := aeLeaderID args\<rparr>))"
  define reply where "reply = \<lparr>aerTerm = curTerm rn2, aerSuccess = False, aerConflictIndex = 0,
      aerConflictTerm = 0, aerHasMatch = False, aerMatchIndex = 0, aerCaps = localCaps rn\<rparr>"
  consider "\<not> aerSuccess r" | "acceptEntries G args reply rn2 = ((r, w), rn')"
    using assms unfolding appendEntriesLocked_def Let_def a1_def [symmetric] case_prod_unfold rn2_def [symmetric]
    by (auto simp: reply_def split: if_splits)
  then show ?thesis
    using acceptEntries_ack [of G args reply rn2 r w rn']
    by cases (auto simp: ackOk_def reply_def)
qed

lemma HandleAppendEntries_ack:
  assumes h: "HandleAppendEntriesAsync G now args resp rn = (rs, rn')" and r: "(p, r) \<in> set rs"
  shows "ackOk rn' r"
proof -
  obtain reply w rn1 where a: "appendEntriesLocked G now args rn = ((reply, w), rn1)"
    by (metis prod.exhaust)
  define rn2 where "rn2 = (case w of None \<Rightarrow> rn1
      | Some w \<Rightarrow> rn1\<lparr>aeWaiters := aeWaiters rn1 @ [w\<lparr>wRespond := resp\<rparr>]\<rparr>)"
  obtain dec rn3 where t: "takeDecidedWaitersLocked rn2 = (dec, rn3)"
    by (cases "takeDecidedWaitersLocked rn2")
  have l: "lview rn3 = lview rn1"
  proof -
    have "lview rn2 = lview rn1"
      by (simp add: rn2_def logframe split: option.splits)
    then show ?thesis using lview_takeDecided [of rn2] t by simp
  qed
  have "rs = (if w = None then [(resp, reply)] else []) @ dec" "rn' = rn3"
    using h a t by (simp_all add: HandleAppendEntriesAsync_def rn2_def)
  then show ?thesis
    using r appendEntries_ack [OF a] takeDecided_ack [OF t] ackOk_lview [OF l]
    by (auto split: if_splits)
qed

lemma syncEnd_ack:
  assumes "syncEnd G err i t rn = (rs, rn')" "(p, r) \<in> set rs"
  shows "ackOk rn' r"
  using assms takeDecided_ack unfolding syncEnd_def Let_def by blast

section \<open>The store while it writes, and after it failed\<close>

lemma readRecord_append: "readRecord x = Some (e, r) \<Longrightarrow> readRecord (x @ y) = Some (e, r @ y)"
  by (auto simp: readRecord_def Let_def raft_storage_consts split: if_splits)

lemma drop_split: "h \<le> n \<Longrightarrow> n \<le> length xs \<Longrightarrow> drop h xs = drop h (take n xs) @ drop n xs"
  by (metis append_take_drop_id drop_append diff_is_0_eq drop_0 length_take min.absorb2)

lemma parseRecords_prefix: "prefix (parseRecords x) (parseRecords (x @ y))"
proof (induction x rule: parseRecords.induct)
  case (1 x)
  show ?case
  proof (cases "readRecord x")
    case None
    then show ?thesis by (simp add: parseRecords.simps [of x])
  next
    case (Some a)
    obtain e r where a: "a = (e, r)" by (cases a)
    have "prefix (parseRecords r) (parseRecords (r @ y))"
      using 1 Some a by simp
    then show ?thesis
      using Some a readRecord_append [of x e r y]
      by (simp add: parseRecords.simps [of x] parseRecords.simps [of "x @ y"])
  qed
qed

text \<open>
  Between the write and the fsync of a flush the store has records in the file that are
  neither synced nor marked dirty: \<open>storeHas\<close> is the invariant without the mark.
\<close>

definition storeHas :: "logStore \<Rightarrow> LogEntry list \<Rightarrow> LogEntry list \<Rightarrow> LogEntry list \<Rightarrow> bool" where
  "storeHas s D W Q \<longleftrightarrow> storeRep (s\<lparr>sDirty := True\<rparr>) D W Q"

definition storeUp :: "logStore \<Rightarrow> bool" where
  "storeUp s \<longleftrightarrow> (\<exists>D W Q. storeHas s D W Q)"

definition settled :: "logStore \<Rightarrow> bool" where
  "settled s \<longleftrightarrow> sFailed s \<noteq> None \<or> sDirty s \<or> sSynced s = length (sHandle s)"

text \<open>After a failed write or fsync the file ends in some bytes of the records being written.\<close>

definition storeHalted :: "logStore \<Rightarrow> bool" where
  "storeHalted s \<longleftrightarrow> (\<exists>D W m. (\<forall>r \<in> set (D @ W). storable r) \<and>
     sHandle s = logFileBytes D @ take m (concat (map encodeRecord W)) \<and>
     sSynced s = length (logFileBytes D) \<and> sPend s = [] \<and> sDetached s = None \<and>
     sFailed s \<noteq> None \<and> sQFailed s \<noteq> None)"

definition fileRecords :: "logStore \<Rightarrow> LogEntry list" where
  "fileRecords s = parseRecords (drop raftLogHdrLen (sHandle s))"

lemma storeRep_has: "storeRep s D W Q \<Longrightarrow> storeHas s D W Q"
  by (simp add: storeHas_def storeRep_def)

lemma has_settled: "storeHas s D W Q \<Longrightarrow> settled s \<Longrightarrow> storeRep s D W Q"
proof -
  assume h: "storeHas s D W Q" and st: "settled s"
  have "W = []" if "\<not> sDirty s"
  proof -
    have "length (concat (map encodeRecord W)) = 0"
      using h st that by (auto simp: storeHas_def storeRep_def settled_def logFileBytes_append)
    then show ?thesis by (cases W) (auto simp: recHdrLen_def)
  qed
  then show ?thesis using h by (auto simp: storeHas_def storeRep_def)
qed

lemma has_records:
  assumes "storeHas s D W Q"
  shows "writtenRecords s = D @ W @ Q" "syncedRecords s = D" "fileRecords s = D @ W"
proof -
  note h = assms [unfolded storeHas_def]
  show "writtenRecords s = D @ W @ Q" "syncedRecords s = D"
    using writtenRecords_rep [OF h] syncedRecords_rep [OF h] by (simp_all add: writtenRecords_def syncedRecords_def)
  have "\<forall>r \<in> set (D @ W). storable r" using h by (auto simp: storeRep_def)
  then show "fileRecords s = D @ W"
    using h parseRecords_encode [of "D @ W" "[]"]
    by (simp add: fileRecords_def storeRep_def logFileBytes_eq parseRecords_stop)
qed

lemma up_halted: "storeUp s \<Longrightarrow> \<not> storeHalted s"
  by (auto simp: storeUp_def storeHas_def storeRep_def storeHalted_def)

text \<open>The part of the store that queueing leaves alone.\<close>

definition fview :: "logStore \<Rightarrow> bytes \<times> nat \<times> nat \<times> bool \<times> raft_err option" where
  "fview s = (sHandle s, sSynced s, sGen s, sDirty s, sFailed s)"

lemma fview_cong:
  assumes "fview s' = fview s"
  shows "syncedRecords s' = syncedRecords s" "fileRecords s' = fileRecords s" "settled s' = settled s"
    "sGen s' = sGen s" "sFailed s' = sFailed s"
  using assms by (simp_all add: fview_def syncedRecords_def fileRecords_def settled_def)

lemma enqueue_up:
  assumes "storeUp s" "\<forall>e \<in> set es. storable e" "enqueue es s = (r, s')"
  shows "r = None" "storeUp s'" "writtenRecords s' = writtenRecords s @ es" "fview s' = fview s"
proof -
  obtain D W Q where h: "storeHas s D W Q" using assms(1) by (auto simp: storeUp_def)
  have "enqueue es (s\<lparr>sDirty := True\<rparr>) = (r, s'\<lparr>sDirty := True\<rparr>)"
    using assms(3) by (auto simp: enqueue_def split: if_splits)
  from enqueue_rep [OF h [unfolded storeHas_def] assms(2) this]
  have h': "r = None" "storeHas s' D W (Q @ es)" by (simp_all add: storeHas_def)
  then show "r = None" "storeUp s'" "writtenRecords s' = writtenRecords s @ es"
    using has_records [OF h] has_records [OF h'(2)] by (auto simp: storeUp_def)
  show "fview s' = fview s"
    using assms(3) by (auto simp: enqueue_def fview_def split: if_splits)
qed

lemma enqueue_halted:
  assumes "storeHalted s" "es \<noteq> []"
  shows "fst (enqueue es s) \<noteq> None" "snd (enqueue es s) = s"
  using assms by (auto simp: storeHalted_def enqueue_def)

lemma flushWrite_up:
  assumes "storeUp s" "settled s" "flushWrite wr s = (st, s')"
  shows "st = FlushDone None \<Longrightarrow> storeUp s' \<and> settled s' \<and> writtenRecords s' = writtenRecords s \<and>
      syncedRecords s' = writtenRecords s"
    "st = FlushSync g \<Longrightarrow> storeUp s' \<and> g = sGen s' \<and> writtenRecords s' = writtenRecords s \<and>
      fileRecords s' = writtenRecords s \<and> syncedRecords s' = syncedRecords s"
    "st = FlushDone (Some e) \<Longrightarrow> storeHalted s' \<and> syncedRecords s' = syncedRecords s \<and>
      prefix (syncedRecords s') (writtenRecords s') \<and> prefix (writtenRecords s') (writtenRecords s)"
proof -
  obtain D W Q where h: "storeHas s D W Q" using assms(1) by (auto simp: storeUp_def)
  have r: "storeRep s D W Q" by (rule has_settled [OF h assms(2)])
  note hr = has_records [OF h]
  have pend: "sPend s = [] \<longleftrightarrow> Q = []"
    using r by (cases Q) (auto simp: storeRep_def)
  show "storeUp s' \<and> settled s' \<and> writtenRecords s' = writtenRecords s \<and> syncedRecords s' = writtenRecords s"
    if "st = FlushDone None"
  proof -
    have "\<not> sDirty s" "Q = []" "s' = s\<lparr>sPend := [], sDirty := False\<rparr>"
      using assms(3) that r pend by (auto simp: flushWrite_def storeRep_def Let_def split: if_splits write_outcome.splits bool.splits)
    moreover from this have "W = []" using r by (auto simp: storeRep_def)
    ultimately have "storeHas s' D [] []" "settled s'"
      using r by (auto simp: storeHas_def storeRep_def settled_def)
    then show ?thesis
      using has_records [of s' D "[]" "[]"] hr \<open>W = []\<close> \<open>Q = []\<close> by (auto simp: storeUp_def)
  qed
  show "storeUp s' \<and> g = sGen s' \<and> writtenRecords s' = writtenRecords s \<and> fileRecords s' = writtenRecords s \<and>
      syncedRecords s' = syncedRecords s" if "st = FlushSync g"
  proof -
    have "storeHas s' D (W @ Q) []" "g = sGen s'"
      using assms(3) that r pend
      by (auto simp: flushWrite_def storeRep_def storeHas_def Let_def logFileBytes_append
          split: if_splits write_outcome.splits bool.splits)
    then show ?thesis
      using has_records [of s' D "W @ Q" "[]"] hr by (auto simp: storeUp_def)
  qed
  show "storeHalted s' \<and> syncedRecords s' = syncedRecords s \<and>
      prefix (syncedRecords s') (writtenRecords s') \<and> prefix (writtenRecords s') (writtenRecords s)"
    if "st = FlushDone (Some e)"
  proof -
    have c: "Q \<noteq> []" "sPend s' = []" "sSynced s' = sSynced s" "sDetached s' = None" "sFailed s' \<noteq> None" "sQFailed s' \<noteq> None"
      "\<exists>n. sHandle s' = sHandle s @ take n (sPend s)"
      using assms(3) that r pend
      by (auto simp: flushWrite_def setFailedLocked_def storeRep_def Let_def
          split: if_splits write_outcome.splits bool.splits intro: exI [of _ 0])
    then obtain n where n: "sHandle s' = sHandle s @ take n (sPend s)" by blast
    have hd: "sHandle s' = logFileBytes D @ take (length (concat (map encodeRecord W)) + n) (concat (map encodeRecord (W @ Q)))"
      using n r by (simp add: storeRep_def logFileBytes_append)
    have "storeHalted s'"
      unfolding storeHalted_def
      by (rule exI [of _ D], rule exI [of _ "W @ Q"], rule exI [of _ "length (concat (map encodeRecord W)) + n"])
        (use c r hd in \<open>simp add: storeRep_def\<close>)
    moreover have len: "raftLogHdrLen \<le> sSynced s" "sSynced s \<le> length (sHandle s)"
      using r by (simp_all add: storeRep_def logFileBytes_append) (simp add: logFileBytes_eq)
    then have "take (sSynced s') (sHandle s') = take (sSynced s) (sHandle s)"
      using c(3) n by simp
    then have sy: "syncedRecords s' = syncedRecords s" by (simp add: syncedRecords_def)
    moreover have "prefix (syncedRecords s') (writtenRecords s')"
      using parseRecords_prefix [of "drop raftLogHdrLen (take (sSynced s') (sHandle s'))" "drop (sSynced s') (sHandle s')"]
        drop_split [of raftLogHdrLen "sSynced s'" "sHandle s'"] len c(2,3) n
      by (simp add: syncedRecords_def writtenRecords_def)
    moreover have "prefix (writtenRecords s') (writtenRecords s)"
    proof -
      have "sHandle s @ sPend s = sHandle s' @ drop n (sPend s)" using n by simp
      moreover have "raftLogHdrLen \<le> length (sHandle s')" using n len by simp
      ultimately show ?thesis
        using parseRecords_prefix [of "drop raftLogHdrLen (sHandle s')" "drop n (sPend s)"] c(2)
        by (simp add: writtenRecords_def)
    qed
    ultimately show ?thesis by blast
  qed
qed

lemma flushWrite_halted:
  "storeHalted s \<Longrightarrow> flushWrite wr s = (st, s') \<Longrightarrow> s' = s \<and> (\<exists>e. st = FlushDone (Some e))"
  by (auto simp: storeHalted_def flushWrite_def split: if_splits)

lemma flushSync_up:
  assumes "storeUp s" "flushSync ok (sGen s) s = (r, s')"
  shows "r = None \<Longrightarrow> storeUp s' \<and> settled s' \<and> writtenRecords s' = writtenRecords s \<and> syncedRecords s' = fileRecords s"
    "r = Some e \<Longrightarrow> storeHalted s' \<and> syncedRecords s' = syncedRecords s \<and>
      prefix (syncedRecords s') (writtenRecords s') \<and> prefix (writtenRecords s') (writtenRecords s)"
proof -
  obtain D W Q where h: "storeHas s D W Q" using assms(1) by (auto simp: storeUp_def)
  note hr = has_records [OF h]
  show "storeUp s' \<and> settled s' \<and> writtenRecords s' = writtenRecords s \<and> syncedRecords s' = fileRecords s" if "r = None"
  proof -
    have "s' = s\<lparr>sSynced := length (sHandle s)\<rparr>"
      using assms(2) that by (auto simp: flushSync_def split: if_splits)
    then have "storeHas s' (D @ W) [] Q" "settled s'"
      using h by (simp_all add: storeHas_def storeRep_def settled_def)
    then show ?thesis
      using has_records [of s' "D @ W" "[]" Q] hr by (auto simp: storeUp_def)
  qed
  show "storeHalted s' \<and> syncedRecords s' = syncedRecords s \<and>
      prefix (syncedRecords s') (writtenRecords s') \<and> prefix (writtenRecords s') (writtenRecords s)" if "r = Some e"
  proof -
    have s': "s' = setFailedLocked ErrFsync s"
      using assms(2) that by (auto simp: flushSync_def split: if_splits)
    have "storeHalted s'"
      unfolding storeHalted_def
      by (rule exI [of _ D], rule exI [of _ W], rule exI [of _ "length (concat (map encodeRecord W))"])
        (use h s' in \<open>auto simp: storeHas_def storeRep_def setFailedLocked_def logFileBytes_append\<close>)
    moreover have "syncedRecords s' = D" "writtenRecords s' = D @ W"
      using hr s' by (simp_all add: syncedRecords_def writtenRecords_def fileRecords_def setFailedLocked_def)
    ultimately show ?thesis using hr by simp
  qed
qed

text \<open>What a crash leaves of either store.\<close>

lemma store_crash:
  assumes "storeUp s \<or> storeHalted s" "crashRecovers s found"
  shows "\<exists>rs. prefix (syncedRecords s) rs \<and> prefix rs (writtenRecords s) \<and> found = replayed rs"
  using assms(1)
proof
  assume "storeUp s"
  then obtain D W Q where h: "storeHas s D W Q" by (auto simp: storeUp_def)
  obtain old k good gap where c: "replayBytes (crashFile old k s) = Inr (found, good, gap)"
    using assms(2) by (auto simp: crashRecovers_def)
  have "crashFile old k (s\<lparr>sDirty := True\<rparr>) = crashFile old k s"
    by (simp add: crashFile_def split: option.split)
  then obtain j where "found = replayed (D @ take j W)"
    using crash_rep [OF h [unfolded storeHas_def], of old k] c by auto
  then show ?thesis
    using has_records [OF h] by (intro exI [of _ "D @ take j W"]) (auto simp: take_is_prefix intro: prefix_prefix)
next
  assume "storeHalted s"
  then obtain D W m where h: "\<forall>r \<in> set (D @ W). storable r" "sSynced s = length (logFileBytes D)"
      "sHandle s = logFileBytes D @ take m (concat (map encodeRecord W))" "sPend s = []" "sDetached s = None"
    by (auto simp: storeHalted_def)
  obtain old k good gap where c: "replayBytes (crashFile old k s) = Inr (found, good, gap)"
    using assms(2) by (auto simp: crashRecovers_def)
  obtain j t where jt: "take (min k m) (concat (map encodeRecord W)) = concat (map encodeRecord (take j W)) @ t"
      "readRecord t = None"
    using take_records [of W "min k m"] h(1) by auto
  have "crashFile old k s = logFileBytes D @ take (min k m) (concat (map encodeRecord W))"
    using h by (simp add: crashFile_def)
  then have cf: "crashFile old k s = encodeRecords raftLogHeader (D @ take j W) @ t"
    using jt(1) by (simp add: logFileBytes_eq encodeRecords_eq)
  have st: "\<forall>r \<in> set (D @ take j W). storable r"
    using h(1) set_take_subset [of j W] by auto
  have "found = replayed (D @ take j W)"
    using replayBytes_records [OF st jt(2)] c cf by simp
  moreover have "parseRecords (drop raftLogHdrLen (crashFile old k s)) = D @ take j W"
    using parseRecords_encode [OF st, of t] jt(2) by (simp add: cf encodeRecords_eq parseRecords_stop)
  moreover have "\<exists>u. sHandle s = crashFile old k s @ u"
    using h(5) by (simp add: crashFile_def) (metis append_take_drop_id)
  then have "prefix (parseRecords (drop raftLogHdrLen (crashFile old k s))) (writtenRecords s)"
    using parseRecords_prefix [of "drop raftLogHdrLen (crashFile old k s)"] cf h(4)
    by (auto simp: writtenRecords_def encodeRecords_eq)
  moreover have "syncedRecords s = D"
    using h(1-3) parseRecords_encode [of D "[]"] by (simp add: syncedRecords_def logFileBytes_eq parseRecords_stop)
  ultimately show ?thesis by (intro exI [of _ "D @ take j W"]) simp
qed

section \<open>The log in memory and on disk\<close>

text \<open>The part of a log that matters to this node: after the snapshot, up to \<open>d\<close>.\<close>

definition seg :: "nat \<Rightarrow> nat \<Rightarrow> LogEntry list \<Rightarrow> LogEntry list" where
  "seg l d es = filter (\<lambda>e. l < eIndex e \<and> eIndex e \<le> d) es"

lemma seg_append [simp]: "seg l d (xs @ ys) = seg l d xs @ seg l d ys"
  by (simp add: seg_def)

lemma seg_above: "\<forall>e \<in> set es. d < eIndex e \<Longrightarrow> seg l d es = []"
  by (auto simp: seg_def filter_empty_conv)

lemma seg_empty: "d \<le> l \<Longrightarrow> seg l d es = []"
  by (auto simp: seg_def filter_empty_conv)

lemma seg_less: "d' \<le> d \<Longrightarrow> seg l d' es = filter (\<lambda>e. eIndex e \<le> d') (seg l d es)"
  by (auto simp: seg_def intro: filter_cong)

lemma seg_filter: "seg l d es = filter (\<lambda>e. eIndex e \<le> d) (filter (\<lambda>e. l < eIndex e) es)"
  by (auto simp: seg_def intro: filter_cong)

text \<open>Replaying a contiguous batch after any records: it extends the log, replaces its end, or
  starts it over.\<close>

lemma replayed_contig_ex: "\<exists>f. contig f (replayed rs)"
proof (induction rs rule: rev_induct)
  case (snoc e rs)
  then show ?case
    using replayRecord_contig_ex [of _ "replayed rs" "snd (foldl replayRecord ([], 0) rs)" e]
    by (auto simp: replayed_def)
qed (simp add: replayed_def)

lemma foldl_replay_over:
  assumes "contig i (e # es)" "replayRecord acc e = ([e], g)"
  shows "foldl replayRecord acc (e # es) = (e # es, g)"
  using assms foldl_replay_extend [of i "[e]" es g] by simp

lemma replayed_batch:
  assumes c: "contig f (replayed rs)" and i: "contig i es" "es \<noteq> []"
  shows "replayed (rs @ es) = (if replayed rs = [] \<or> i \<le> f \<or> f + length (replayed rs) < i
    then es else take (i - f) (replayed rs) @ es)"
proof -
  obtain e es' where es: "es = e # es'" and e: "eIndex e = i"
    using i by (cases es) auto
  let ?L = "replayed rs" and ?acc = "foldl replayRecord ([], 0) rs"
  obtain g where acc: "?acc = (?L, g)"
    by (metis prod.collapse replayed_def)
  show ?thesis
  proof (cases "?L = [] \<or> i \<le> f \<or> f + length ?L < i")
    case True
    have "\<exists>g'. replayRecord ?acc e = ([e], g')"
    proof (cases "?L = []")
      case False
      then show ?thesis
        using True c e acc contig_hd [OF c False] contig_last [OF c False]
        by (auto simp: replayRecord_def Let_def)
    qed (use acc in \<open>simp add: replayRecord_def\<close>)
    then have "replayed (rs @ es) = es"
      using foldl_replay_over [of i e es' ?acc] i es by (auto simp: replayed_def)
    then show ?thesis using True by simp
  next
    case False
    then have "foldl replayRecord (?L, g) es = (overwrite ?L es, g)"
      using foldl_replay_overwrite [OF c _ i(1)] by simp
    moreover have "overwrite ?L es = take (i - f) ?L @ es"
      using False es e contig_hd [OF c] by (simp add: overwrite_def)
    moreover have "replayed (rs @ es) = fst (foldl replayRecord ?acc es)"
      by (simp add: replayed_def)
    ultimately show ?thesis
      using False unfolding acc by simp
  qed
qed

text \<open>
  \<open>agrees rn S d\<close>: whatever lies between the records \<open>S\<close> and everything written, replaying it
  gives the log's entries up to \<open>d\<close>.
\<close>

definition agrees :: "RaftNode \<Rightarrow> LogEntry list \<Rightarrow> nat \<Rightarrow> bool" where
  "agrees rn S d \<longleftrightarrow> prefix S (writtenRecords (store rn)) \<and>
     (\<forall>rs. prefix S rs \<and> prefix rs (writtenRecords (store rn)) \<longrightarrow>
        seg (lastIncludedIndex rn) d (replayed rs) = seg (lastIncludedIndex rn) d (rlog rn))"

text \<open>
  The node and its file agree. While the store accepts writes, what is written and queued is
  the log in memory; after a failure that is lost, but not what is durable.
\<close>

definition diskOk :: "RaftNode \<Rightarrow> bool" where
  "diskOk rn \<longleftrightarrow> logOk rn \<and> (\<forall>e \<in> set (rlog rn). 0 < eTerm e) \<and>
     agrees rn (syncedRecords (store rn)) (durableIndex rn) \<and>
     (storeHalted (store rn) \<or> storeUp (store rn) \<and>
        filter (\<lambda>e. lastIncludedIndex rn < eIndex e) (replayed (writtenRecords (store rn))) = rlog rn)"

text \<open>Appending a batch at \<open>i\<close> replaces the log from \<open>i\<close> on, in memory and on disk.\<close>

definition batchAt :: "nat \<Rightarrow> LogEntry list \<Rightarrow> RaftNode \<Rightarrow> RaftNode \<Rightarrow> bool" where
  "batchAt i es rn rn' \<longleftrightarrow> contig i es \<and> es \<noteq> [] \<and> lastIncludedIndex rn < i \<and> i \<le> lastLogIndex rn + 1 \<and>
     writtenRecords (store rn') = writtenRecords (store rn) @ es \<and>
     rlog rn' = replaceFrom i es rn \<and> lastIncludedIndex rn' = lastIncludedIndex rn"

lemma batch_bounds:
  assumes "logOk rn" "batchAt i es rn rn'"
  shows "contig i es" "es \<noteq> []" "lastIncludedIndex rn < i" "i \<le> lastIncludedIndex rn + length (rlog rn) + 1"
    "writtenRecords (store rn') = writtenRecords (store rn) @ es"
    "rlog rn' = take (i - (lastIncludedIndex rn + 1)) (rlog rn) @ es"
    "lastIncludedIndex rn' = lastIncludedIndex rn"
  using assms(2) lastLog_logOk [OF assms(1)] by (simp_all add: batchAt_def replaceFrom_def)

lemma contig_filter_above:
  "contig f L \<Longrightarrow> filter (\<lambda>e. l < eIndex e) L = drop (l + 1 - f) L"
proof (induction L arbitrary: f)
  case (Cons e L)
  have "filter (\<lambda>e. l < eIndex e) L = L" if "l < f"
    using Cons.prems that contig_mem_bounds [of "Suc f" L] by (intro filter_True) force
  then show ?case
    using Cons by (cases "l < f") (auto simp: Suc_diff_le)
qed simp

text \<open>The two logs before the batch overlap as they should.\<close>

lemma written_shape:
  assumes ok: "logOk rn" and c: "contig f L"
    and log: "filter (\<lambda>e. lastIncludedIndex rn < eIndex e) L = rlog rn"
  shows "rlog rn \<noteq> [] \<Longrightarrow> f \<le> lastIncludedIndex rn + 1 \<and>
      f + length L = lastIncludedIndex rn + 1 + length (rlog rn)"
    "rlog rn = drop (lastIncludedIndex rn + 1 - f) L"
proof -
  show d: "rlog rn = drop (lastIncludedIndex rn + 1 - f) L"
    using contig_filter_above [OF c] log by simp
  assume ne: "rlog rn \<noteq> []"
  have "eIndex (hd (rlog rn)) = lastIncludedIndex rn + 1"
    using ok ne contig_hd by (auto simp: logOk_def)
  moreover have "contig (f + (lastIncludedIndex rn + 1 - f)) (rlog rn)"
    using contig_drop [OF c] d by simp
  ultimately have "f + (lastIncludedIndex rn + 1 - f) = lastIncludedIndex rn + 1"
    using ne contig_hd by fastforce
  then have "f \<le> lastIncludedIndex rn + 1" by simp
  then show "f \<le> lastIncludedIndex rn + 1 \<and> f + length L = lastIncludedIndex rn + 1 + length (rlog rn)"
    using d ne by auto
qed

lemma batch_log:
  assumes ok: "logOk rn" and b: "batchAt i es rn rn'"
    and log: "filter (\<lambda>e. lastIncludedIndex rn < eIndex e) (replayed (writtenRecords (store rn))) = rlog rn"
  shows "filter (\<lambda>e. lastIncludedIndex rn' < eIndex e) (replayed (writtenRecords (store rn'))) = rlog rn'"
proof -
  let ?l = "lastIncludedIndex rn" and ?L = "replayed (writtenRecords (store rn))"
  note bb = batch_bounds [OF ok b]
  obtain f where f: "contig f ?L"
    using replayed_contig_ex by blast
  note shape = written_shape [OF ok f log]
  have es: "filter (\<lambda>e. ?l < eIndex e) es = es"
    using bb(1,3) contig_mem_bounds [of i es] by (intro filter_True) force
  note r = replayed_batch [OF f bb(1,2)]
  show ?thesis
  proof (cases "?L = [] \<or> i \<le> f \<or> f + length ?L < i")
    case True
    have "take (i - (?l + 1)) (rlog rn) = []"
    proof (cases "rlog rn = []")
      case False
      then have "i = ?l + 1"
        using True shape bb(3,4) by auto
      then show ?thesis by simp
    qed simp
    then show ?thesis
      using True r es bb by simp
  next
    case False
    have "filter (\<lambda>e. ?l < eIndex e) (take (i - f) ?L) = drop (?l + 1 - f) (take (i - f) ?L)"
      using contig_filter_above [OF contig_take [OF f]] by simp
    also have "\<dots> = take (i - (?l + 1)) (rlog rn)"
    proof (cases "rlog rn = []")
      case True
      then have "i = ?l + 1" using bb(3,4) by simp
      then show ?thesis using True by simp
    next
      case ne: False
      then show ?thesis
        using shape(1) [OF ne] shape(2) bb(3) by (simp add: drop_take)
    qed
    finally show ?thesis
      using False r es bb by simp
  qed
qed

lemma seg_drop: "contig f L \<Longrightarrow> d < i \<Longrightarrow> seg l d (take (i - f) L) = seg l d L"
proof -
  assume c: "contig f L" and d: "d < i"
  have "seg l d (drop (i - f) L) = []"
  proof (rule seg_above, rule ballI)
    fix x assume "x \<in> set (drop (i - f) L)"
    then show "d < eIndex x"
      using contig_mem_bounds [OF contig_drop [OF c, of "i - f"]] d by fastforce
  qed
  then show ?thesis
    by (metis append_take_drop_id append_Nil2 seg_append)
qed

lemma batch_agrees:
  assumes ok: "logOk rn" and b: "batchAt i es rn rn'"
    and log: "filter (\<lambda>e. lastIncludedIndex rn < eIndex e) (replayed (writtenRecords (store rn))) = rlog rn"
    and a: "agrees rn S d" and d: "d' \<le> d" "d' < i"
  shows "agrees rn' S d'"
proof -
  let ?l = "lastIncludedIndex rn" and ?W = "writtenRecords (store rn)"
  note bb = batch_bounds [OF ok b]
  have es: "seg ?l d' p = []" if "prefix p es" for p
    using bb(1) d(2) contig_mem_bounds [of i es] set_mono_prefix [OF that] by (intro seg_above) force
  have "seg ?l d' (take (i - (?l + 1)) (rlog rn)) = seg ?l d' (rlog rn)"
    using ok d(2) by (intro seg_drop) (simp add: logOk_def)
  then have new: "seg ?l d' (rlog rn') = seg ?l d' (rlog rn)"
    using bb(6) es [OF prefix_order.refl] by simp
  have old: "seg ?l d' (replayed rs) = seg ?l d' (rlog rn)" if "prefix S rs" "prefix rs ?W" for rs
    using a that by (simp add: agrees_def seg_less [OF d(1)])
  have "seg ?l d' (replayed (?W @ p)) = seg ?l d' (rlog rn)" if p: "prefix p es" for p
  proof (cases "p = []")
    case True
    then show ?thesis using old a by (simp add: agrees_def)
  next
    case False
    obtain f where f: "contig f (replayed ?W)"
      using replayed_contig_ex by blast
    note shape = written_shape [OF ok f log]
    have W: "seg ?l d' (replayed ?W) = seg ?l d' (rlog rn)"
      using old a by (simp add: agrees_def)
    have cp: "contig i p"
      using bb(1) p by (auto simp: prefix_def)
    show ?thesis
    proof (cases "replayed ?W = [] \<or> i \<le> f \<or> f + length (replayed ?W) < i")
      case True
      have "seg ?l d' (replayed ?W) = []"
      proof (cases "rlog rn = []")
        case False
        then have "i \<le> f \<or> replayed ?W = []" using True shape bb(4) by auto
        then show ?thesis
          using contig_mem_bounds [OF f] d(2) by (intro seg_above) fastforce
      qed (use W in \<open>simp add: seg_def\<close>)
      then show ?thesis
        using True replayed_batch [OF f cp False] es [OF p] W by simp
    next
      case no: False
      then show ?thesis
        using replayed_batch [OF f cp False] es [OF p] seg_drop [OF f d(2)] W by simp
    qed
  qed
  then have "seg ?l d' (replayed rs) = seg ?l d' (rlog rn)" if "prefix S rs" "prefix rs (?W @ es)" for rs
    using that old by (auto simp: prefix_append)
  then show ?thesis
    using a bb(5,7) new by (simp add: agrees_def)
qed

section \<open>Requests and submissions\<close>

lemma sview_cong:
  assumes "sview s' = sview s"
  shows "storeUp s' = storeUp s" "writtenRecords s' = writtenRecords s" "syncedRecords s' = syncedRecords s"
    "storeHalted s' = storeHalted s" "fview s' = fview s"
  using assms
  by (simp_all add: sview_def storeUp_def storeHas_def storeRep_def writtenRecords_def syncedRecords_def
      storeHalted_def fview_def)

lemma agrees_cong:
  "lview rn' = lview rn \<Longrightarrow> writtenRecords (store rn') = writtenRecords (store rn) \<Longrightarrow> agrees rn' S d = agrees rn S d"
  by (simp add: agrees_def lview_def)

lemma diskOk_cong:
  assumes "lview rn' = lview rn" "sview (store rn') = sview (store rn)"
  shows "diskOk rn' = diskOk rn"
  unfolding diskOk_def agrees_def logOk_lview [OF assms(1)] sview_cong [OF assms(2)] lview_fields [OF assms(1)]
  by (rule refl)

text \<open>How an operation that appends relates to a captured log end: what it wrote is above it.\<close>

definition newAbove :: "RaftNode \<Rightarrow> RaftNode \<Rightarrow> nat \<Rightarrow> bool" where
  "newAbove rn rn' idx \<longleftrightarrow> (\<forall>e \<in> set (drop (length (writtenRecords (store rn))) (writtenRecords (store rn'))).
     idx < eIndex e)"

text \<open>What a step must do to the invariant and to a capture in progress.\<close>

definition stepOk :: "RaftNode \<Rightarrow> RaftNode \<Rightarrow> bool" where
  "stepOk rn rn' \<longleftrightarrow> (diskOk rn \<longrightarrow> diskOk rn' \<and> fview (store rn') = fview (store rn) \<and>
     storeUp (store rn') = storeUp (store rn) \<and> lastIncludedIndex rn' = lastIncludedIndex rn \<and>
     (\<forall>S idx. storeUp (store rn) \<and> agrees rn S idx \<and> newAbove rn rn' idx \<longrightarrow> agrees rn' S idx))"

lemma stepOk_cong:
  assumes "lview rn' = lview rn" "sview (store rn') = sview (store rn)"
  shows "stepOk rn rn'"
  using diskOk_cong [OF assms] agrees_cong [OF assms(1) sview_cong(2) [OF assms(2)]]
    sview_cong(1,5) [OF assms(2)] lview_fields(2) [OF assms(1)]
  by (simp add: stepOk_def)

lemma stepOk_compose:
  assumes s: "stepOk rn0 rn1" and l: "lview rn0 = lview rn" "sview (store rn0) = sview (store rn)"
    "lview rn' = lview rn1" "sview (store rn') = sview (store rn1)"
  shows "stepOk rn rn'"
proof -
  have "newAbove rn rn' idx = newAbove rn0 rn1 idx" for idx
    using sview_cong(2) [OF l(2)] sview_cong(2) [OF l(4)] by (simp add: newAbove_def)
  then show ?thesis
    using s diskOk_cong [OF l(1,2)] diskOk_cong [OF l(3,4)]
      agrees_cong [OF l(1) sview_cong(2) [OF l(2)]] agrees_cong [OF l(3) sview_cong(2) [OF l(4)]]
      sview_cong(1,5) [OF l(2)] sview_cong(1,5) [OF l(4)] lview_fields(2) [OF l(1)] lview_fields(2) [OF l(3)]
    by (simp add: stepOk_def)
qed

lemma appendEffect_up:
  assumes ok: "diskOk rn" and up: "storeUp (store rn)" and e: "appendEffect es b rn rn'"
    and st: "\<forall>e \<in> set es. storable e \<and> 0 < eTerm e"
  shows "stepOk rn rn'"
proof -
  obtain i where i: "contig i es" "es \<noteq> []" "lastIncludedIndex rn < i" "i \<le> lastLogIndex rn + 1"
     "enqueue es (store rn) = (if b then None else fst (enqueue es (store rn)), store rn')"
     "b \<longleftrightarrow> fst (enqueue es (store rn)) = None"
     "lview rn' = (replaceFrom i (if b then es else []) rn, lastIncludedIndex rn, min (durableIndex rn) (i - 1))"
    using e unfolding appendEffect_def by blast
  note q = enqueue_up [OF up _ i(5)]
  have b: "b" using q(1) st i(6) by (auto split: if_splits)
  have at: "batchAt i es rn rn'" and d: "durableIndex rn' = min (durableIndex rn) (i - 1)"
    using i b q(3) st by (simp_all add: batchAt_def lview_def)
  have o: "logOk rn" "filter (\<lambda>e. lastIncludedIndex rn < eIndex e) (replayed (writtenRecords (store rn))) = rlog rn"
      "agrees rn (syncedRecords (store rn)) (durableIndex rn)" "\<forall>e \<in> set (rlog rn). 0 < eTerm e"
    using ok up_halted [OF up] by (auto simp: diskOk_def)
  note bb = batch_bounds [OF o(1) at]
  have "durableIndex rn' < i" "durableIndex rn' \<le> durableIndex rn"
    using d at by (auto simp: batchAt_def)
  then have "agrees rn' (syncedRecords (store rn')) (durableIndex rn')"
    using batch_agrees [OF o(1) at o(2,3)] fview_cong(1) [OF q(4)] st by simp
  moreover have "\<forall>e \<in> set (rlog rn'). 0 < eTerm e"
    using bb(6) o(4) st by (auto dest: in_set_takeD)
  ultimately have "diskOk rn'"
    using batch_log [OF o(1) at o(2)] appendEffect_logOk [OF o(1) e] q(2) st by (simp add: diskOk_def)
  moreover have "agrees rn' S idx" if "agrees rn S idx" "newAbove rn rn' idx" for S idx
  proof -
    have "idx < i"
      using that(2) bb(1,2,5) by (cases es) (auto simp: newAbove_def)
    then show ?thesis
      using batch_agrees [OF o(1) at o(2) that(1)] by simp
  qed
  ultimately show ?thesis
    using q(2,4) up st bb(7) by (simp add: stepOk_def)
qed

text \<open>A failed store takes nothing more; the log in memory may still be cut.\<close>

lemma agrees_cut:
  assumes a: "agrees rn S d" and ok: "logOk rn" and r: "lastIncludedIndex rn' = lastIncludedIndex rn"
      "rlog rn' = take (i - (lastIncludedIndex rn + 1)) (rlog rn)" "writtenRecords (store rn') = writtenRecords (store rn)"
    and d: "d' \<le> d" "d' < i"
  shows "agrees rn' S d'"
proof -
  have "seg (lastIncludedIndex rn) d' (take (i - (lastIncludedIndex rn + 1)) (rlog rn)) =
      seg (lastIncludedIndex rn) d' (rlog rn)"
    using ok d(2) by (intro seg_drop) (simp add: logOk_def)
  then show ?thesis
    using a r by (simp add: agrees_def seg_less [OF d(1)])
qed

lemma appendEffect_halted:
  assumes ok: "diskOk rn" and h: "storeHalted (store rn)" and e: "appendEffect es b rn rn'"
  shows "stepOk rn rn'"
proof -
  obtain i where i: "contig i es" "es \<noteq> []" "lastIncludedIndex rn < i" "i \<le> lastLogIndex rn + 1"
     "enqueue es (store rn) = (if b then None else fst (enqueue es (store rn)), store rn')"
     "b \<longleftrightarrow> fst (enqueue es (store rn)) = None"
     "lview rn' = (replaceFrom i (if b then es else []) rn, lastIncludedIndex rn, min (durableIndex rn) (i - 1))"
    using e unfolding appendEffect_def by blast
  have st: "store rn' = store rn" "\<not> b"
    using enqueue_halted [OF h i(2)] i(5,6) by (metis snd_conv, simp)
  have v: "rlog rn' = take (i - (lastIncludedIndex rn + 1)) (rlog rn)" "lastIncludedIndex rn' = lastIncludedIndex rn"
      "durableIndex rn' \<le> durableIndex rn" "durableIndex rn' < i"
    using i(3,7) st(2) by (auto simp: lview_def replaceFrom_def)
  have o: "logOk rn" "agrees rn (syncedRecords (store rn)) (durableIndex rn)" "\<forall>e \<in> set (rlog rn). 0 < eTerm e"
    using ok by (auto simp: diskOk_def)
  have "diskOk rn'"
    using appendEffect_logOk [OF o(1) e] agrees_cut [OF o(2,1) v(2,1) _ v(3,4)] st(1) h v(1) o(3)
    by (auto simp: diskOk_def dest: in_set_takeD)
  then show ?thesis
    using st v h up_halted by (auto simp: stepOk_def)
qed

lemma appendEffect_stepOk:
  assumes "appendEffect es b rn rn'" "\<forall>e \<in> set es. storable e \<and> 0 < eTerm e"
  shows "stepOk rn rn'"
proof (cases "diskOk rn")
  case True
  then show ?thesis
    using appendEffect_up [OF True] appendEffect_halted [OF True] assms by (auto simp: diskOk_def)
qed (simp add: stepOk_def)

lemma request_stepOk:
  assumes wf: "wfArgs args" and st: "\<forall>e \<in> set (aeEntries args). storable e \<and> 0 < eTerm e"
    and h: "HandleAppendEntriesAsync G now args resp rn = (rs, rn')"
  shows "stepOk rn rn'"
proof (cases "diskOk rn")
  case True
  then have "logOk rn" by (simp add: diskOk_def)
  from HandleAppendEntries_appended [OF this wf h]
  obtain rn0 rn1 where r: "lview rn0 = lview rn" "sview (store rn0) = sview (store rn)"
      "appended args rn0 rn1" "lview rn' = lview rn1" "store rn' = store rn1"
    by blast
  have "stepOk rn0 rn1"
    using r(3) unfolding appended_def
  proof (elim disjE exE conjE)
    assume "lview rn1 = lview rn0" "store rn1 = store rn0"
    then show ?thesis by (intro stepOk_cong) simp_all
  next
    fix es b rn2
    assume e: "appendEffect es b rn0 rn2" "set es \<subseteq> set (aeEntries args)" "lview rn1 = lview rn2"
      "store rn1 = store rn2"
    then have "stepOk rn0 rn2"
      using appendEffect_stepOk [OF e(1)] st by blast
    then show ?thesis
      by (rule stepOk_compose) (use e in simp_all)
  qed
  then show ?thesis
    by (rule stepOk_compose) (use r in simp_all)
qed (simp add: stepOk_def)

text \<open>A leader's group commit.\<close>

lemma appendAll_entries:
  assumes "appendAllLocked cs rn = (ecs, rn')" "logOk rn"
  shows "\<exists>es. rlog rn' = rlog rn @ es \<and> contig (lastLogIndex rn + 1) es \<and>
    lastIncludedIndex rn' = lastIncludedIndex rn \<and> durableIndex rn' = durableIndex rn \<and> store rn' = store rn \<and>
    map eCommand es = cs \<and> (\<forall>e \<in> set es. eTerm e = curTerm rn) \<and> curTerm rn' = curTerm rn"
  using assms
proof (induction cs arbitrary: rn ecs)
  case (Cons c cs)
  define e where "e = \<lparr>eTerm = curTerm rn, eIndex = lastLogIndex rn + 1, eType = EntryNormal, eCommand = c\<rparr>"
  obtain ec rn1 where a: "appendEntryLocked EntryNormal c rn = (ec, rn1)"
    by (cases "appendEntryLocked EntryNormal c rn")
  then have r1: "rlog rn1 = rlog rn @ [e]" "lastIncludedIndex rn1 = lastIncludedIndex rn"
      "durableIndex rn1 = durableIndex rn" "store rn1 = store rn" "curTerm rn1 = curTerm rn"
    by (auto simp: appendEntryLocked_def Let_def setLog_def e_def)
  then have "lastLogIndex rn1 = lastLogIndex rn + 1"
    by (simp add: lastLogIndex_def e_def)
  moreover have "logOk rn1"
    using logOk_appendEntry [OF Cons.prems(2), of EntryNormal c] a by simp
  moreover obtain ecs1 where "appendAllLocked cs rn1 = (ecs1, rn')"
    using Cons.prems(1) a by (auto simp: Let_def split: prod.splits)
  ultimately obtain es where "rlog rn' = rlog rn1 @ es" "contig (lastLogIndex rn + 2) es"
      "lastIncludedIndex rn' = lastIncludedIndex rn1" "durableIndex rn' = durableIndex rn1"
      "store rn' = store rn1" "map eCommand es = cs" "\<forall>e \<in> set es. eTerm e = curTerm rn" "curTerm rn' = curTerm rn1"
    using Cons.IH [of rn1 ecs1] r1(5) by auto
  then show ?case
    using r1 by (intro exI [of _ "e # es"]) (simp add: e_def)
qed simp

lemma store_fold_updPR [simp]: "store (fold (\<lambda>(p, r). updPR r g) xs rn) = store rn"
  by (induction xs arbitrary: rn) (auto simp: updPR_def)

lemma store_kicks [simp]:
  "store (kickReplicatorsLocked rn) = store rn" "store (kickReplicatorsOnAppendLocked rn) = store rn"
  by (simp_all add: kickReplicatorsOnAppendLocked_def kickReplicatorsLocked_def)

lemma flushBatch_stepOk:
  assumes st: "0 < curTerm rn" "curTerm rn < 2 ^ 64" "lastLogIndex rn + length batch < 2 ^ 64"
      "\<forall>c \<in> set batch. recFixedLen + length c \<le> maxRecPayload"
    and f: "flushBatch batch rn = (rs, rn')"
  shows "stepOk rn rn'"
proof (cases "diskOk rn \<and> role rn = RoleLeader \<and> batch \<noteq> []")
  case False
  have "rn' = rn" if "role rn \<noteq> RoleLeader"
    using f that by (simp add: flushBatch_def)
  moreover have "lview rn' = lview rn \<and> sview (store rn') = sview (store rn)"
    if "batch = []" "role rn = RoleLeader"
  proof -
    have "rn' = kickReplicatorsOnAppendLocked (kickSyncerLocked rn)"
      using f that by (simp add: flushBatch_def enqueueLocked_def enqueue_def)
    then show ?thesis by (simp add: logframe)
  qed
  ultimately show ?thesis
    using False stepOk_cong [of rn' rn] by (auto simp: stepOk_def)
next
  case True
  then have ok: "diskOk rn" "logOk rn" by (simp_all add: diskOk_def)
  obtain ecs rn1 where a: "appendAllLocked batch rn = (ecs, rn1)"
    by (cases "appendAllLocked batch rn")
  obtain es where r1: "rlog rn1 = rlog rn @ es" "contig (lastLogIndex rn + 1) es"
      "lastIncludedIndex rn1 = lastIncludedIndex rn" "durableIndex rn1 = durableIndex rn"
      "store rn1 = store rn" "map eCommand es = batch" "\<forall>e \<in> set es. eTerm e = curTerm rn"
    using appendAll_entries [OF a ok(2)] by blast
  have sto: "\<forall>e \<in> set es. storable e \<and> 0 < eTerm e"
  proof
    fix e assume e: "e \<in> set es"
    then have "eIndex e < lastLogIndex rn + 1 + length es"
      using contig_mem_bounds [OF r1(2)] by simp
    moreover have "length es = length batch"
      using r1(6) by auto
    moreover have "eCommand e \<in> set batch"
      using r1(6) e by auto
    ultimately show "storable e \<and> 0 < eTerm e"
      using st r1(7) e by (auto simp: storable_def)
  qed
  obtain err rn2 where q: "enqueueLocked es rn1 = (err, rn2)"
    by (cases "enqueueLocked es rn1")
  then have e2: "enqueue es (store rn) = (err, store rn2)"
    using r1(5) by (auto simp: enqueueLocked_def Let_def split: prod.splits)
  have l2: "lview rn2 = lview rn1"
    using lview_enqueue [of es rn1] q by simp
  have ne: "es \<noteq> []" using r1(6) True by auto
  show ?thesis
  proof (cases err)
    case None
    have len: "length (rlog rn) = lastLogIndex rn - lastIncludedIndex rn"
      using lastLog_logOk [OF ok(2)] by simp
    have "appendEffect es True rn rn2"
      unfolding appendEffect_def
    proof (intro exI [of _ "lastLogIndex rn + 1"] conjI)
      show "lastIncludedIndex rn < lastLogIndex rn + 1"
        using lastLog_logOk [OF ok(2)] by simp
      show "lview rn2 = (replaceFrom (lastLogIndex rn + 1) (if True then es else []) rn, lastIncludedIndex rn,
          min (durableIndex rn) (lastLogIndex rn + 1 - 1))"
        using l2 r1 len ok(2) by (simp add: lview_def replaceFrom_def logOk_def)
    qed (use r1(2) e2 None ne in simp_all)
    then have s2: "stepOk rn rn2"
      by (rule appendEffect_stepOk [OF _ sto])
    have "rn' = kickReplicatorsOnAppendLocked (kickSyncerLocked rn2)"
      using f True a q None r1(1) by (simp add: flushBatch_def)
    then show ?thesis
      by (intro stepOk_compose [OF s2]) (simp_all add: logframe)
  next
    case (Some e)
    have "\<not> storeUp (store rn)"
      using enqueue_up(1) [OF _ _ e2] sto Some by auto
    then have "store rn2 = store rn"
      using ok(1) enqueue_halted(2) [OF _ ne] e2 by (metis diskOk_def snd_conv)
    moreover have "rlog rn2 = rlog rn @ es" "lastIncludedIndex rn2 = lastIncludedIndex rn" "durableIndex rn2 = durableIndex rn"
      using l2 r1 by (simp_all add: lview_def)
    moreover have "rn' = (setLog (take (length (rlog rn)) (rlog rn2)) rn2)
        \<lparr>waiters := filter (\<lambda>(i, ch). i \<notin> set (map (eIndex \<circ> fst) ecs)) (waiters rn2)\<rparr>"
      using f True a q Some r1(1) by (simp add: flushBatch_def)
    ultimately have "lview rn' = lview rn" "sview (store rn') = sview (store rn)"
      by (simp_all add: lview_def setLog_def)
    then show ?thesis by (rule stepOk_cong)
  qed
qed

section \<open>The syncer\<close>

lemma capture_agrees:
  assumes "diskOk rn" "storeUp (store rn)"
  shows "agrees rn (writtenRecords (store rn)) (lastLogIndex rn)"
proof -
  have log: "filter (\<lambda>e. lastIncludedIndex rn < eIndex e) (replayed (writtenRecords (store rn))) = rlog rn"
    using assms up_halted by (auto simp: diskOk_def)
  have "seg (lastIncludedIndex rn) d (replayed (writtenRecords (store rn))) = seg (lastIncludedIndex rn) d (rlog rn)" for d
  proof -
    have "filter (\<lambda>e. lastIncludedIndex rn < eIndex e) (rlog rn) = rlog rn"
      using assms contig_filter_above [of "lastIncludedIndex rn + 1" "rlog rn" "lastIncludedIndex rn"]
      by (simp add: diskOk_def logOk_def)
    then show ?thesis
      using log by (simp add: seg_filter)
  qed
  then show ?thesis
    unfolding agrees_def using prefix_order.antisym by blast
qed

lemma agrees_shrink:
  assumes "agrees rn S d" "prefix S (writtenRecords s')" "prefix (writtenRecords s') (writtenRecords (store rn))"
  shows "agrees (rn\<lparr>store := s'\<rparr>) S d"
  using assms prefix_order.trans unfolding agrees_def by fastforce

lemma agrees_later: "agrees rn S d \<Longrightarrow> prefix S S' \<Longrightarrow> prefix S' (writtenRecords (store rn)) \<Longrightarrow> agrees rn S' d"
  unfolding agrees_def using prefix_order.trans by blast

lemma agrees_store:
  "writtenRecords s' = writtenRecords (store rn) \<Longrightarrow> agrees (rn\<lparr>store := s'\<rparr>) S d = agrees rn S d"
  by (simp add: agrees_def)

text \<open>A step of a flush that keeps the store up, and one that halts it.\<close>

lemma store_step_up:
  assumes ok: "diskOk rn" and up: "storeUp (store rn)" "storeUp s'"
    and w: "writtenRecords s' = writtenRecords (store rn)" "prefix (syncedRecords (store rn)) (syncedRecords s')"
      "prefix (syncedRecords s') (writtenRecords s')"
  shows "diskOk (rn\<lparr>store := s'\<rparr>)"
proof -
  have "agrees rn (syncedRecords s') (durableIndex rn)"
    using ok w agrees_later [of rn] by (auto simp: diskOk_def)
  then show ?thesis
    using ok up up_halted [OF up(1)] agrees_store [OF w(1)] w(1) logOk_lview [of "rn\<lparr>store := s'\<rparr>" rn]
    by (auto simp: diskOk_def logframe)
qed

lemma store_step_halts:
  assumes ok: "diskOk rn" and h: "storeHalted s'"
    and w: "syncedRecords s' = syncedRecords (store rn)" "prefix (syncedRecords s') (writtenRecords s')"
      "prefix (writtenRecords s') (writtenRecords (store rn))"
  shows "diskOk (rn\<lparr>store := s'\<rparr>)"
  using ok h agrees_shrink [OF _ w(2,3), of "durableIndex rn"] w(1) logOk_lview [of "rn\<lparr>store := s'\<rparr>" rn]
  by (auto simp: diskOk_def logframe)

lemma store_maybeAdvance [simp]: "store (maybeAdvanceCommit rn) = store rn"
  by (simp add: maybeAdvanceCommit_def notifyApplier_def split: option.splits)

lemma store_takeDecided [simp]: "store (snd (takeDecidedWaitersLocked rn)) = store rn"
  by (simp add: takeDecidedWaitersLocked_def)

lemma markDurable_effect:
  assumes "logOk rn" "0 < t \<or> idx \<le> lastIncludedIndex rn"
  shows "logOk (markDurableLocked idx t rn)" "store (markDurableLocked idx t rn) = store rn"
    "lview (markDurableLocked idx t rn) = (rlog rn, lastIncludedIndex rn,
       if idx \<le> durableIndex rn \<or> logTerm rn idx \<noteq> t then durableIndex rn else idx)"
proof -
  show l: "lview (markDurableLocked idx t rn) = (rlog rn, lastIncludedIndex rn,
       if idx \<le> durableIndex rn \<or> logTerm rn idx \<noteq> t then durableIndex rn else idx)"
    by (simp add: markDurableLocked_def Let_def lview_def lview_fields [OF lview_maybeAdvance])
  show "store (markDurableLocked idx t rn) = store rn"
    by (simp add: markDurableLocked_def Let_def)
  have "idx \<le> lastLogIndex rn" if "logTerm rn idx = t"
    using logTerm_pos [of rn idx] assms that lastLog_logOk [OF assms(1)] by auto
  then have "durableIndex (markDurableLocked idx t rn) \<le> lastLogIndex rn"
    using assms(1) l by (auto simp: lview_def logOk_def split: if_splits)
  moreover have "rlog (markDurableLocked idx t rn) = rlog rn"
      "lastIncludedIndex (markDurableLocked idx t rn) = lastIncludedIndex rn"
    using l by (simp_all add: lview_def)
  ultimately show "logOk (markDurableLocked idx t rn)"
    using assms(1) lastLog_logOk [OF assms(1)] by (simp add: logOk_fields)
qed

lemma syncEnd_diskOk:
  assumes ok: "diskOk rn" and t: "0 < t \<or> idx \<le> lastIncludedIndex rn"
    and a: "logTerm rn idx = t \<Longrightarrow> agrees rn (syncedRecords (store rn)) idx"
    and s: "syncEnd G None idx t rn = (rs, rn')"
  shows "diskOk rn' \<and> store rn' = store rn"
proof -
  define r where "r = markDurableLocked idx t rn"
  have "logOk rn" using ok by (simp add: diskOk_def)
  note m = markDurable_effect [OF this t, folded r_def]
  have "diskOk r"
    using ok m a unfolding diskOk_def by (auto simp: agrees_def lview_def split: if_splits)
  moreover have "lview rn' = lview r \<and> store rn' = store r"
  proof -
    define k where "k = (if \<not> pipeline r \<and> role r = RoleLeader then kickReplicatorsLocked r else r)"
    have "lview k = lview r" "store k = store r"
      by (simp_all add: k_def logframe)
    moreover have "rn' = snd (takeDecidedWaitersLocked k)"
      using s unfolding syncEnd_def Let_def option.case r_def [symmetric] k_def [symmetric] by simp
    ultimately show ?thesis by (simp add: logframe)
  qed
  ultimately show ?thesis
    using diskOk_cong [of rn' r] m(2) by simp
qed

lemma persistFailure_effect:
  assumes "logOk rn"
  shows "store (onPersistFailureLocked G e rn) = store rn"
    "lastIncludedIndex (onPersistFailureLocked G e rn) = lastIncludedIndex rn"
    "durableIndex (onPersistFailureLocked G e rn) = durableIndex rn"
    "\<exists>i. durableIndex rn < i \<and> rlog (onPersistFailureLocked G e rn) = take (i - (lastIncludedIndex rn + 1)) (rlog rn)"
proof -
  let ?es = "take (durableIndex rn + 1 - logFirstIndex rn) (rlog rn)"
  have all: "\<exists>i. durableIndex rn < i \<and> rlog rn = take (i - (lastIncludedIndex rn + 1)) (rlog rn)"
    by (intro exI [of _ "durableIndex rn + lastIncludedIndex rn + length (rlog rn) + 1"]) simp
  have cut: "\<exists>i. durableIndex rn < i \<and> ?es = take (i - (lastIncludedIndex rn + 1)) (rlog rn)"
    by (intro exI [of _ "durableIndex rn + 1"]) (simp add: logFirst_ok [OF assms])
  have f: "logFirstIndex (rn\<lparr>persistFailed := True\<rparr>) = logFirstIndex rn"
    by (simp add: logFirstIndex_def)
  note lv = lview_fields [OF lview_refreshConfig]
  show "store (onPersistFailureLocked G e rn) = store rn"
    by (simp add: onPersistFailureLocked_def Let_def setLog_def)
  show "lastIncludedIndex (onPersistFailureLocked G e rn) = lastIncludedIndex rn"
    "durableIndex (onPersistFailureLocked G e rn) = durableIndex rn"
    by (simp_all add: onPersistFailureLocked_def Let_def setLog_def lv)
  show "\<exists>i. durableIndex rn < i \<and> rlog (onPersistFailureLocked G e rn) = take (i - (lastIncludedIndex rn + 1)) (rlog rn)"
    using all cut by (simp add: onPersistFailureLocked_def Let_def setLog_def lv f)
qed

lemma syncFail_diskOk:
  assumes ok: "diskOk rn" and h: "storeHalted (store rn)" and s: "syncEnd G (Some e) idx t rn = (rs, rn')"
  shows "diskOk rn' \<and> store rn' = store rn"
proof -
  have l: "logOk rn" using ok by (simp add: diskOk_def)
  note p = persistFailure_effect [OF l, of G e]
  obtain i where i: "durableIndex rn < i" "rlog (onPersistFailureLocked G e rn) = take (i - (lastIncludedIndex rn + 1)) (rlog rn)"
    using p(4) by blast
  have "agrees (onPersistFailureLocked G e rn) (syncedRecords (store rn)) (durableIndex rn)"
    using ok agrees_cut [OF _ l p(2) i(2), of "syncedRecords (store rn)" "durableIndex rn" "durableIndex rn"] p(1) i(1)
    by (auto simp: diskOk_def)
  then have "diskOk (onPersistFailureLocked G e rn)"
    using ok h p i(2) logOk_persistFailure [OF l, of G e] by (auto simp: diskOk_def dest: in_set_takeD)
  moreover have "rn' = snd (takeDecidedWaitersLocked (if e = ErrLogStoreClosed then rn else onPersistFailureLocked G e rn))"
    using s unfolding syncEnd_def Let_def by simp
  moreover have "diskOk (snd (takeDecidedWaitersLocked r)) = diskOk r" for r
    by (rule diskOk_cong) (simp_all add: logframe)
  ultimately show ?thesis
    using ok p(1) by simp
qed

section \<open>Interleaved runs\<close>

text \<open>
  A pass of the syncer: the end of the log and its term at the capture and how far the flush
  has come. Two history variables serve the statements only: what was written at the capture,
  and whether every record written since lies above the captured end.
\<close>

datatype phase = Captured | Fsyncing nat | Flushed "raft_err option"

record capture =
  capIdx :: nat
  capTerm :: nat
  capPhase :: phase
  capWritten :: "LogEntry list"
  capClean :: bool

definition noticed :: "RaftNode \<Rightarrow> RaftNode \<Rightarrow> capture option \<Rightarrow> capture option" where
  "noticed rn rn' g = map_option (\<lambda>c. c\<lparr>capClean := capClean c \<and> newAbove rn rn' (capIdx c)\<rparr>) g"

text \<open>
  Part of the captured log was replaced while the flush ran, and the entry at the captured
  index has the captured term again: the report passes the check of \<open>markDurableLocked\<close>.
\<close>

definition replacedAndRestored :: "RaftNode \<Rightarrow> capture \<Rightarrow> bool" where
  "replacedAndRestored rn c \<longleftrightarrow> capPhase c = Flushed None \<and> \<not> capClean c \<and> logTerm rn (capIdx c) = capTerm c"

text \<open>
  The steps of a node and its syncer, in any order the code allows: a request, a group commit
  of submitted commands, and the four sections of a pass of the syncer, whose write and fsync
  may fail. The last component of a state, a history variable, records that some pass ended
  with \<open>replacedAndRestored\<close>.
\<close>

inductive durStep ::
  "gob \<Rightarrow> RaftNode \<times> capture option \<times> bool \<Rightarrow> (nat \<times> AppendEntriesReply) list \<Rightarrow> RaftNode \<times> capture option \<times> bool \<Rightarrow> bool"
  for G where
  request: "wfArgs args \<Longrightarrow> \<forall>e \<in> set (aeEntries args). storable e \<and> 0 < eTerm e \<Longrightarrow>
    HandleAppendEntriesAsync G now args resp rn = (rs, rn') \<Longrightarrow>
    durStep G (rn, g, b) rs (rn', noticed rn rn' g, b)"
| submit: "0 < curTerm rn \<Longrightarrow> curTerm rn < 2 ^ 64 \<Longrightarrow> lastLogIndex rn + length batch < 2 ^ 64 \<Longrightarrow>
    \<forall>c \<in> set batch. recFixedLen + length c \<le> maxRecPayload \<Longrightarrow> flushBatch batch rn = (res, rn') \<Longrightarrow>
    durStep G (rn, g, b) [] (rn', noticed rn rn' g, b)"
| begin_sync: "syncBegin rn = (idx, t) \<Longrightarrow>
    durStep G (rn, None, b) [] (rn, Some \<lparr>capIdx = idx, capTerm = t, capPhase = Captured,
      capWritten = writtenRecords (store rn), capClean = True\<rparr>, b)"
| write_done: "capPhase c = Captured \<Longrightarrow> flushWrite wr (store rn) = (FlushDone r, s) \<Longrightarrow>
    durStep G (rn, Some c, b) [] (rn\<lparr>store := s\<rparr>, Some (c\<lparr>capPhase := Flushed r\<rparr>), b)"
| write_sync: "capPhase c = Captured \<Longrightarrow> flushWrite wr (store rn) = (FlushSync gen, s) \<Longrightarrow>
    durStep G (rn, Some c, b) [] (rn\<lparr>store := s\<rparr>, Some (c\<lparr>capPhase := Fsyncing gen\<rparr>), b)"
| fsync: "capPhase c = Fsyncing gen \<Longrightarrow> flushSync okS gen (store rn) = (r, s) \<Longrightarrow>
    durStep G (rn, Some c, b) [] (rn\<lparr>store := s\<rparr>, Some (c\<lparr>capPhase := Flushed r\<rparr>), b)"
| finish: "capPhase c = Flushed err \<Longrightarrow> syncEnd G err (capIdx c) (capTerm c) rn = (rs, rn') \<Longrightarrow>
    durStep G (rn, Some c, b) rs (rn', None, b \<or> replacedAndRestored rn c)"

text \<open>What holds of a pass in progress.\<close>

definition capOk :: "RaftNode \<Rightarrow> capture \<Rightarrow> bool" where
  "capOk rn c \<longleftrightarrow> (0 < capTerm c \<or> capIdx c \<le> lastIncludedIndex rn) \<and>
     (storeUp (store rn) \<and> capClean c \<longrightarrow> agrees rn (capWritten c) (capIdx c)) \<and>
     (case capPhase c of
        Captured \<Rightarrow> settled (store rn)
      | Fsyncing gen \<Rightarrow> storeUp (store rn) \<and> sGen (store rn) = gen \<and>
          (capClean c \<longrightarrow> prefix (capWritten c) (fileRecords (store rn)))
      | Flushed None \<Rightarrow> storeUp (store rn) \<and> settled (store rn) \<and>
          (capClean c \<longrightarrow> prefix (capWritten c) (syncedRecords (store rn)))
      | Flushed (Some e) \<Rightarrow> storeHalted (store rn))"

definition passOk :: "RaftNode \<Rightarrow> capture option \<Rightarrow> bool" where
  "passOk rn g \<longleftrightarrow> (case g of None \<Rightarrow> settled (store rn) | Some c \<Rightarrow> capOk rn c)"

definition durInv :: "RaftNode \<times> capture option \<times> bool \<Rightarrow> bool" where
  "durInv st \<longleftrightarrow> (case st of (rn, g, b) \<Rightarrow> b \<or> diskOk rn \<and> passOk rn g)"

lemma capOk_step:
  assumes ok: "diskOk rn" and c: "capOk rn c" and s: "stepOk rn rn'"
  shows "capOk rn' (c\<lparr>capClean := capClean c \<and> newAbove rn rn' (capIdx c)\<rparr>)"
proof -
  have e: "fview (store rn') = fview (store rn)" "storeUp (store rn') = storeUp (store rn)"
      "lastIncludedIndex rn' = lastIncludedIndex rn" "diskOk rn'"
      "\<And>S idx. storeUp (store rn) \<Longrightarrow> agrees rn S idx \<Longrightarrow> newAbove rn rn' idx \<Longrightarrow> agrees rn' S idx"
    using s ok unfolding stepOk_def by blast+
  have h: "storeHalted (store rn') \<longleftrightarrow> \<not> storeUp (store rn')" "storeHalted (store rn) \<longleftrightarrow> \<not> storeUp (store rn)"
    using e(4) ok up_halted by (auto simp: diskOk_def)
  show ?thesis
    using c e(5) unfolding capOk_def
    by (simp add: e(2,3) h fview_cong [OF e(1)] split: phase.splits option.splits)
qed

lemma stepOk_durInv:
  assumes "durInv (rn, g, b)" "stepOk rn rn'"
  shows "durInv (rn', noticed rn rn' g, b)"
proof (cases b)
  case False
  then have ok: "diskOk rn" "passOk rn g" using assms(1) by (simp_all add: durInv_def)
  then have "diskOk rn'" "fview (store rn') = fview (store rn)"
    using assms(2) by (simp_all add: stepOk_def)
  then have "diskOk rn'" "settled (store rn') = settled (store rn)"
    by (simp, intro fview_cong(3))
  then show ?thesis
    using ok capOk_step [OF ok(1) _ assms(2)]
    by (cases g) (simp_all add: durInv_def passOk_def noticed_def)
qed (simp add: durInv_def)

lemma synced_prefix: "diskOk rn \<Longrightarrow> prefix (syncedRecords (store rn)) (writtenRecords (store rn))"
  by (simp add: diskOk_def agrees_def)

lemma begin_capOk:
  assumes ok: "diskOk rn" and s: "settled (store rn)" and b: "syncBegin rn = (idx, t)"
  shows "capOk rn \<lparr>capIdx = idx, capTerm = t, capPhase = Captured,
      capWritten = writtenRecords (store rn), capClean = True\<rparr>"
proof -
  have "0 < t \<or> idx \<le> lastIncludedIndex rn"
  proof (cases "rlog rn = []")
    case True
    then show ?thesis
      using b ok lastLog_logOk [of rn] by (simp add: syncBegin_def diskOk_def)
  next
    case False
    then have "last (rlog rn) \<in> set (rlog rn)" by simp
    then show ?thesis
      using b ok False by (auto simp: syncBegin_def diskOk_def lastLogTerm_def)
  qed
  then show ?thesis
    using capture_agrees [OF ok] s b by (auto simp: capOk_def syncBegin_def)
qed

lemma captured_write:
  assumes ok: "diskOk rn" and c: "capOk rn c" "capPhase c = Captured" and f: "flushWrite wr (store rn) = (st, s)"
  shows "diskOk (rn\<lparr>store := s\<rparr>) \<and>
    capOk (rn\<lparr>store := s\<rparr>) (c\<lparr>capPhase := (case st of FlushDone r \<Rightarrow> Flushed r | FlushSync g \<Rightarrow> Fsyncing g)\<rparr>)"
proof (cases "storeUp (store rn)")
  case up: True
  have st: "settled (store rn)" and t: "0 < capTerm c \<or> capIdx c \<le> lastIncludedIndex rn"
    and a: "capClean c \<Longrightarrow> agrees rn (capWritten c) (capIdx c)"
    using c up by (simp_all add: capOk_def)
  have pw: "prefix (capWritten c) (writtenRecords (store rn))" if "capClean c"
    using a [OF that] by (simp add: agrees_def)
  note w = flushWrite_up [OF up st f]
  have sp: "prefix (syncedRecords (store rn)) (writtenRecords (store rn))"
    by (rule synced_prefix [OF ok])
  consider (fin) "st = FlushDone None" | (sync) g where "st = FlushSync g" | (err) e where "st = FlushDone (Some e)"
    by (metis flush_step.exhaust not_None_eq)
  then show ?thesis
  proof cases
    case fin
    note w1 = w(1) [OF fin]
    have "diskOk (rn\<lparr>store := s\<rparr>)"
      using store_step_up [OF ok up] w1 sp by simp
    then show ?thesis
      using w1 t a pw fin by (simp add: capOk_def agrees_store)
  next
    case sync
    note w1 = w(2) [OF sync]
    have "diskOk (rn\<lparr>store := s\<rparr>)"
      using store_step_up [OF ok up] w1 sp by simp
    then show ?thesis
      using w1 t a pw sync by (simp add: capOk_def agrees_store)
  next
    case err
    note w1 = w(3) [OF err]
    have "diskOk (rn\<lparr>store := s\<rparr>)"
      using w1 by (intro store_step_halts [OF ok]) blast+
    then show ?thesis
      using w1 t err up_halted by (auto simp: capOk_def)
  qed
next
  case False
  then have h: "storeHalted (store rn)" using ok by (simp add: diskOk_def)
  obtain e where e: "s = store rn" "st = FlushDone (Some e)"
    using flushWrite_halted [OF h f] by blast
  then show ?thesis
    using ok c h up_halted by (auto simp: capOk_def)
qed

lemma fsyncing_end:
  assumes ok: "diskOk rn" and c: "capOk rn c" "capPhase c = Fsyncing g" and f: "flushSync okS g (store rn) = (r, s)"
  shows "diskOk (rn\<lparr>store := s\<rparr>) \<and> capOk (rn\<lparr>store := s\<rparr>) (c\<lparr>capPhase := Flushed r\<rparr>)"
proof -
  have up: "storeUp (store rn)" and g: "sGen (store rn) = g" and t: "0 < capTerm c \<or> capIdx c \<le> lastIncludedIndex rn"
    and a: "capClean c \<Longrightarrow> agrees rn (capWritten c) (capIdx c) \<and> prefix (capWritten c) (fileRecords (store rn))"
    using c by (simp_all add: capOk_def)
  note w = flushSync_up [OF up, of okS r s, unfolded g, OF f]
  show ?thesis
  proof (cases r)
    case None
    note w1 = w(1) [OF None]
    obtain D W Q where "storeHas (store rn) D W Q" using up by (auto simp: storeUp_def)
    note hr = has_records [OF this]
    have "diskOk (rn\<lparr>store := s\<rparr>)"
      using store_step_up [OF ok up] w1 hr by simp
    then show ?thesis
      using w1 t a None by (simp add: capOk_def agrees_store)
  next
    case (Some e)
    note w1 = w(2) [OF Some]
    have "diskOk (rn\<lparr>store := s\<rparr>)"
      using w1 by (intro store_step_halts [OF ok]) blast+
    then show ?thesis
      using w1 t Some up_halted by (auto simp: capOk_def)
  qed
qed

lemma flushed_end:
  assumes ok: "diskOk rn" and c: "capOk rn c" "capPhase c = Flushed err" and n: "\<not> replacedAndRestored rn c"
    and s: "syncEnd G err (capIdx c) (capTerm c) rn = (rs, rn')"
  shows "diskOk rn' \<and> settled (store rn')"
proof (cases err)
  case None
  then have i: "settled (store rn)" "0 < capTerm c \<or> capIdx c \<le> lastIncludedIndex rn"
      "capClean c \<Longrightarrow> agrees rn (capWritten c) (capIdx c) \<and> prefix (capWritten c) (syncedRecords (store rn))"
    using c by (simp_all add: capOk_def)
  have "agrees rn (syncedRecords (store rn)) (capIdx c)" if "logTerm rn (capIdx c) = capTerm c"
    using i(3) n c(2) None that agrees_later synced_prefix [OF ok] by (auto simp: replacedAndRestored_def)
  then show ?thesis
    using syncEnd_diskOk [OF ok i(2)] s i(1) None by simp
next
  case (Some e)
  then have h: "storeHalted (store rn)" using c by (simp add: capOk_def)
  then show ?thesis
    using syncFail_diskOk [OF ok h] s Some by (auto simp: settled_def storeHalted_def)
qed

lemma durStep_inv:
  assumes "durStep G st rs st'" "durInv st"
  shows "durInv st'"
  using assms
proof (induction rule: durStep.induct)
  case (request args now resp rn rs rn' g b)
  then show ?case using stepOk_durInv [OF _ request_stepOk] by blast
next
  case (submit rn batch res rn' g b)
  then show ?case using stepOk_durInv [OF _ flushBatch_stepOk] by blast
next
  case (begin_sync rn idx t b)
  then show ?case
    using begin_capOk [of rn idx t] by (auto simp: durInv_def passOk_def)
next
  case (write_done c wr rn r s b)
  then show ?case
    using captured_write [of rn c wr "FlushDone r" s] by (auto simp: durInv_def passOk_def)
next
  case (write_sync c wr rn gen s b)
  then show ?case
    using captured_write [of rn c wr "FlushSync gen" s] by (auto simp: durInv_def passOk_def)
next
  case (fsync c gen okS rn r s b)
  then show ?case
    using fsyncing_end [of rn c gen okS r s] by (auto simp: durInv_def passOk_def)
next
  case (finish c err rn rs rn' b)
  then show ?case
    using flushed_end [of rn c err G rs rn'] by (auto simp: durInv_def passOk_def)
qed

lemma durStep_ack:
  assumes "durStep G (rn, g, b) rs (rn', g', b')" "(p, r) \<in> set rs"
  shows "ackOk rn' r"
  using assms by cases (auto dest: HandleAppendEntries_ack syncEnd_ack)

lemma durStep_flag: "durStep G (rn, g, b) rs (rn', g', b') \<Longrightarrow> \<not> b' \<Longrightarrow> \<not> b"
  by (erule durStep.cases) simp_all

lemma seg_find:
  assumes "seg l d xs = seg l d ys" "l < i" "i \<le> d"
  shows "find (\<lambda>e. eIndex e = i) xs = find (\<lambda>e. eIndex e = i) ys"
proof -
  have "find (\<lambda>e. eIndex e = i) zs = find (\<lambda>e. eIndex e = i) (seg l d zs)" for zs
    using assms(2,3) by (induction zs) (auto simp: seg_def)
  then show ?thesis using assms(1) by metis
qed

lemma diskOk_crash:
  assumes ok: "diskOk rn" and c: "crashRecovers (store rn) found"
    and i: "lastIncludedIndex rn < i" "i \<le> durableIndex rn"
  shows "find (\<lambda>e. eIndex e = i) found = entryAt rn i \<and> entryAt rn i \<noteq> None"
proof -
  have s: "storeUp (store rn) \<or> storeHalted (store rn)" and l: "logOk rn" using ok by (auto simp: diskOk_def)
  obtain rs where rs: "prefix (syncedRecords (store rn)) rs" "prefix rs (writtenRecords (store rn))"
      "found = replayed rs"
    using store_crash [OF s c] by blast
  then have "seg (lastIncludedIndex rn) (durableIndex rn) found = seg (lastIncludedIndex rn) (durableIndex rn) (rlog rn)"
    using ok by (simp add: diskOk_def agrees_def)
  from seg_find [OF this i] have "find (\<lambda>e. eIndex e = i) found = entryAt rn i"
    using entryAt_find [OF l] by simp
  moreover have "entryAt rn i \<noteq> None"
    using entryAt_ok [OF l, of i] i l by (simp add: logOk_def)
  ultimately show ?thesis by simp
qed

section \<open>A node that starts after a crash of the machine\<close>

text \<open>
  The log file such a start finds: complete records of proper entries and perhaps a torn one,
  all of it on the disk; no state file of the old format.
\<close>

definition crashedDisk :: "disk \<Rightarrow> bool" where
  "crashedDisk d \<longleftrightarrow> dLegacy d = None \<and> (\<forall>b. dLog d = Some b \<longrightarrow> dLogSynced d = length b \<and>
     (\<exists>rs t. b = logFileBytes rs @ t \<and> readRecord t = None \<and>
        (\<forall>r \<in> set rs. storable r \<and> 0 < eTerm r \<and> 0 < eIndex r)))"

lemma openLogStore_rep:
  assumes o: "openLogStore G io d = (Inr (st, ld), d')" and c: "crashedDisk d"
  shows "\<exists>rs. storeRep st rs [] [] \<and> lsEntries ld = replayed rs \<and>
    (\<forall>r \<in> set rs. storable r \<and> 0 < eTerm r \<and> 0 < eIndex r)"
proof -
  obtain mo m mig d1 good gap d2 torn where r: "readMeta (dMeta d) = Inr mo"
      "prepareMeta G io mo d = (Inr (m, mig), d1)" "replayLog io d1 = (Inr (lsEntries ld, good, gap), d2)"
      "openFile io m good d2 = Inr (st, torn)"
    using o by (auto simp: openLogStore_def split: prod.splits sum.splits)
  have d1: "dLog d1 = dLog d" "dLogSynced d1 = dLogSynced d"
    using r(2) c by (auto simp: prepareMeta_def crashedDisk_def putMeta_def Let_def
        split: option.splits if_splits atomic_outcome.splits)
  show ?thesis
  proof (cases "dLog d")
    case None
    then have "dLog d2 = Some (logFileBytes [])" "dLogSynced d2 = length (logFileBytes [])"
        "good = length (logFileBytes [])" "lsEntries ld = []"
      using r(3) d1 by (auto simp: replayLog_def putLog_def Let_def logFileBytes_eq split: atomic_outcome.splits)
    then have "storeRep st [] [] []" "lsEntries ld = replayed []"
      using r(4) by (auto simp: openFile_def storeRep_def replayed_def Let_def split: if_splits)
    then show ?thesis by (intro exI [of _ "[]"]) simp
  next
    case (Some b)
    then obtain rs t where b: "b = logFileBytes rs @ t" "readRecord t = None" "dLogSynced d = length b"
        "\<forall>r \<in> set rs. storable r \<and> 0 < eTerm r \<and> 0 < eIndex r"
      using c by (auto simp: crashedDisk_def)
    have d2: "d2 = d1" "replayBytes b = Inr (lsEntries ld, good, gap)"
      using r(3) d1 Some by (auto simp: replayLog_def)
    have g: "lsEntries ld = replayed rs" "good = length (logFileBytes rs)"
      using d2(2) replayBytes_records [of rs t] b by (auto simp: logFileBytes_def)
    then have "storeRep st rs [] []"
      using r(4) d1 d2(1) Some b by (auto simp: openFile_def storeRep_def Let_def split: if_splits)
    with g b(4) show ?thesis by blast
  qed
qed

lemma replayed_set: "set (replayed rs) \<subseteq> set rs"
proof (induction rs rule: rev_induct)
  case (snoc e rs)
  have "set (fst (replayRecord (es, g) e)) \<subseteq> insert e (set es)" for es g
    using set_take_subset [of _ es] by (auto simp: replayRecord_def Let_def)
  moreover have "replayed (rs @ [e]) = fst (replayRecord (replayed rs, snd (foldl replayRecord ([], 0) rs)) e)"
    by (simp add: replayed_def)
  ultimately have "set (replayed (rs @ [e])) \<subseteq> insert e (set (replayed rs))" by simp
  then show ?case using snoc by auto
qed (simp add: replayed_def)

lemma start_diskOk_aux:
  assumes l: "logOk rn" and r: "storeRep (store rn) D [] []" and t: "\<forall>e \<in> set (rlog rn). 0 < eTerm e"
    and e: "rlog rn = replayed D"
  shows "diskOk rn \<and> settled (store rn)"
proof -
  note h = storeRep_has [OF r]
  have up: "storeUp (store rn)" using h by (auto simp: storeUp_def)
  have f: "filter (\<lambda>e. lastIncludedIndex rn < eIndex e) (rlog rn) = rlog rn"
    using l contig_filter_above [of "lastIncludedIndex rn + 1" "rlog rn" "lastIncludedIndex rn"] by (simp add: logOk_def)
  have w: "writtenRecords (store rn) = D" using has_records [OF h] by simp
  have "x = D" if "prefix D x" "prefix x D" for x
    using that prefix_order.antisym by blast
  then have "agrees rn D d" for d
    unfolding agrees_def w using e by auto
  moreover have "settled (store rn)"
    using r by (simp add: settled_def storeRep_def)
  ultimately show ?thesis
    using l t up f e has_records [OF h] by (simp add: diskOk_def)
qed

lemma loadState_diskOk:
  assumes l: "loadState G io out ok d rn = (None, rn')" and c: "crashedDisk d"
  shows "diskOk rn' \<and> settled (store rn')"
proof -
  obtain st ld d' where o: "openLogStore G io d = (Inr (st, ld), d')"
    using l by (auto simp: loadState_def split: prod.splits sum.splits)
  obtain rs where rs: "storeRep st rs [] []" "lsEntries ld = replayed rs"
      "\<forall>r \<in> set rs. storable r \<and> 0 < eTerm r \<and> 0 < eIndex r"
    using openLogStore_rep [OF o c] by blast
  have ents: "\<forall>e \<in> set (lsEntries ld). storable e \<and> 0 < eTerm e \<and> 0 < eIndex e"
    using rs(2,3) replayed_set by fastforce
  define rn1 where "rn1 = rn\<lparr>store := st, ps := \<lparr>CurrentTerm = mTerm (lsMeta ld),
      VotedFor = mVote (lsMeta ld), Log = lsEntries ld\<rparr>\<rparr>"
  obtain cut rn2 where dc: "dropCovered rn1 = (cut, rn2)"
    by (cases "dropCovered rn1")
  obtain e3 rn3 where rt: "raiseTerm rn2 = (e3, rn3)"
    by (cases "raiseTerm rn2")
  note l1 = l [unfolded loadState_def o Let_def prod.case sum.case, folded rn1_def, unfolded dc prod.case]
  have e3: "e3 = None"
    using l1 rt by (auto split: if_splits option.splits)
  obtain err s4 where s4: "(if lsGap ld > 0 \<or> cut then rewrite out ok (rlog rn3) (store rn3)
        else (None, store rn3)) = (err, s4)"
    by (cases "if lsGap ld > 0 \<or> cut then rewrite out ok (rlog rn3) (store rn3) else (None, store rn3)")
  then have rn': "rn' = (rn3\<lparr>store := s4\<rparr>)\<lparr>durableIndex := lastLogIndex (rn3\<lparr>store := s4\<rparr>)\<rparr>" "err = None"
    using l1 rt e3 by (auto split: if_splits)
  have ok': "logOk rn'"
    using loadState_logOk [OF l] o ents by auto
  have r2: "set (rlog rn2) \<subseteq> set (lsEntries ld)" "store rn2 = st" "\<not> cut \<Longrightarrow> rlog rn2 = lsEntries ld"
    using dc by (auto simp: dropCovered_def rn1_def setLog_def split: if_splits dest: in_set_dropD)
  have "rn3 = rn2 \<or> (\<exists>t. rn3 = snd (persistMetaLocked (rn2\<lparr>ps := (ps rn2)\<lparr>CurrentTerm := t, VotedFor := []\<rparr>\<rparr>)))"
    using rt by (cases "lastLogTerm rn2 > curTerm rn2") (auto simp: raiseTerm_def intro: exI [of _ "lastLogTerm rn2"])
  moreover have "lview (snd (persistMetaLocked (rn2\<lparr>ps := (ps rn2)\<lparr>CurrentTerm := t, VotedFor := []\<rparr>\<rparr>))) = lview rn2" for t
    by (simp add: logframe) (simp add: lview_def)
  ultimately have r3: "rlog rn3 = rlog rn2" "sview (store rn3) = sview st"
    using r2(2) sview_persistMeta [of "rn2\<lparr>ps := (ps rn2)\<lparr>CurrentTerm := t, VotedFor := []\<rparr>\<rparr>" for t]
    by (auto dest: lview_fields(1))
  show ?thesis
  proof (cases "lsGap ld > 0 \<or> cut")
    case True
    then have "rewrite out ok (rlog rn3) (store rn3) = (None, s4)" using s4 rn'(2) by simp
    moreover have "\<not> sClosed (store rn3)" "\<not> sQClosed (store rn3)"
      using r3(2) rs(1) by (simp_all add: sview_def storeRep_def)
    ultimately have "storeRep s4 (rlog rn3) [] []"
      using rewrite_rep [of "store rn3" "rlog rn3" out ok s4] ents r2(1) r3(1) by auto
    moreover have "replayed (rlog rn3) = rlog rn3"
      using ok' rn'(1) by (intro replayed_contig [of "lastIncludedIndex rn3 + 1"]) (simp add: logOk_def)
    ultimately show ?thesis
      using start_diskOk_aux [OF ok', of "rlog rn3"] rn'(1) ents r2(1) r3(1) by auto
  next
    case False
    then have "s4 = store rn3" using s4 by simp
    moreover have "storeRep (store rn3) rs [] []"
      using rs(1) r3(2) by (simp add: sview_def storeRep_def)
    ultimately show ?thesis
      using start_diskOk_aux [OF ok', of rs] rn'(1) ents r2(1,3) r3(1) rs(2) False by auto
  qed
qed

lemma start_diskOk:
  assumes s: "NewRaftNodeWithOptions G io out ok smOk opts a d peers rn0 = (None, rn')"
    and c: "crashedDisk d" and f: "\<not> optForceNewCluster opts"
  shows "diskOk rn' \<and> settled (store rn')"
proof -
  have st: "store rn' = store rn \<and> lview rn' = lview rn" if "startupRestore smOk m rn = (r, rn')" for m rn r rn'
    using that by (auto simp: startupRestore_def Let_def lview_def split: if_splits)
  have sq: "store rn' = store rn \<and> lview rn' = lview rn" if "smSequence smOk cs rn = (r, rn')" for cs rn r rn'
    using that by (induction cs arbitrary: rn) (auto simp: Let_def lview_def split: if_splits)
  obtain rn2 snap rn3 rn4 rn5 li where
      l: "loadState G io out ok d rn2 = (None, rn3)"
    and fr: "finishStartupRestore smOk (trustApplied (if hasAppliedSM rn0 then a else None) rn3) snap rn3 = (None, rn4)"
    and e: "(if hasAppliedSM rn4 \<and> \<not> trustApplied (if hasAppliedSM rn0 then a else None) rn3 \<and>
        lastIncludedIndex rn4 = 0 \<and> rlog rn4 \<noteq> [] then resetStateForReplay smOk rn4 else (None, rn4)) = (None, rn5)"
    and r: "rn' = (refreshConfigFromLog G (rn5\<lparr>commitIndex := li, lastApplied := li\<rparr>))\<lparr>replReady := True\<rparr>"
    using s f unfolding NewRaftNodeWithOptions_def Let_def by (auto elim!: startNode_steps)
  have "store rn4 = store rn3 \<and> lview rn4 = lview rn3"
    using fr st by (auto simp: finishStartupRestore_def split: option.splits if_splits)
  moreover have "store rn5 = store rn4 \<and> lview rn5 = lview rn4"
    using e sq by (auto simp: resetStateForReplay_def simp del: smSequence.simps split: if_splits)
  moreover have "lview rn' = lview rn5"
    using lview_refreshConfig [of G "rn5\<lparr>commitIndex := li, lastApplied := li\<rparr>"] by (simp add: r lview_def)
  moreover have "store rn' = store rn5" by (simp add: r)
  ultimately show ?thesis
    using loadState_diskOk [OF l c] diskOk_cong [of rn' rn3] by simp
qed

lemma durRun_inv:
  assumes "(\<lambda>a b. \<exists>rs. durStep G a rs b)\<^sup>*\<^sup>* st st'" "durInv st"
  shows "durInv st'"
  using assms by (induction rule: rtranclp_induct) (auto dest: durStep_inv)

text \<open>
  C2: a follower's acknowledgement is a promise about its disk. A node starts
  on what a crash of the machine left; then requests, group commits and the sections of the
  syncer interleave in any way, and writes and fsyncs may fail. Whenever a step answers a
  request with success and a match index, that index is at most the durable index (or covered
  by the snapshot); and after every step each entry of the log above the snapshot and up to the
  durable index is in the log that a restart would recover, whatever part of the unsynced bytes
  a crash of the machine keeps. Requests carry contiguous entries of positive terms that fit a
  record, as leaders send them. The run has no snapshot and no rewrite of the log file, and no
  pass of the syncer in it ended with \<open>replacedAndRestored\<close>: during one flush the captured end
  of the log was replaced by one leader and put back by another.
\<close>

theorem acknowledged_survives:
  assumes "NewRaftNodeWithOptions G io out ok smOk opts a d peers rn0 = (None, rn1)"
    and "crashedDisk d" and "\<not> optForceNewCluster opts"
    and "(\<lambda>a b. \<exists>rs. durStep G a rs b)\<^sup>*\<^sup>* (rn1, None, False) (rn, g, b)"
    and "durStep G (rn, g, b) replies (rn', g', False)"
  shows "(\<forall>p r. (p, r) \<in> set replies \<longrightarrow> aerSuccess r \<and> aerHasMatch r \<longrightarrow>
      aerMatchIndex r \<le> max (lastIncludedIndex rn') (durableIndex rn')) \<and>
    (\<forall>i found. lastIncludedIndex rn' < i \<longrightarrow> i \<le> durableIndex rn' \<longrightarrow> crashRecovers (store rn') found \<longrightarrow>
      entryAt rn' i \<noteq> None \<and> find (\<lambda>e. eIndex e = i) found = entryAt rn' i)"
proof -
  have "durInv (rn1, None, False)"
    using start_diskOk [OF assms(1-3)] by (simp add: durInv_def passOk_def)
  then have "durInv (rn, g, b)"
    using durRun_inv [OF assms(4)] by blast
  then have "diskOk rn'"
    using durStep_inv [OF assms(5)] by (simp add: durInv_def)
  then show ?thesis
    using diskOk_crash durStep_ack [OF assms(5)] unfolding ackOk_def by blast
qed

section \<open>Two runs\<close>

text \<open>
  A follower that has just started on an empty directory, and leaders that each send it one
  entry with index 1. \<open>runNode\<close> is the node in term \<open>t\<close> with the log \<open>[e]\<close>, \<open>runStore\<close> its store
  with the given file, synced length and queue.
\<close>

definition exampleRequest :: "nat \<Rightarrow> LogEntry \<Rightarrow> AppendEntriesArgs" where
  "exampleRequest t e = \<lparr>aeTerm = t, aeLeaderID = ''b'', aePrevLogIndex = 0, aePrevLogTerm = 0,
     aeEntries = [e], aeLeaderCommit = 0, aeWantMatch = True\<rparr>"

definition runStore :: "nat \<Rightarrow> bytes \<Rightarrow> nat \<Rightarrow> bytes \<Rightarrow> logStore" where
  "runStore t h synced q = freshStore\<lparr>sMetaFile := Some (encodeMeta \<lparr>mTerm = t, mVote = []\<rparr>),
     sMeta := \<lparr>mTerm = t, mVote = []\<rparr>, sHandle := h, sSize := length h, sSynced := synced, sPend := q\<rparr>"

definition runNode :: "nat \<Rightarrow> LogEntry \<Rightarrow> nat \<Rightarrow> aeWaiter list \<Rightarrow> logStore \<Rightarrow> RaftNode" where
  "runNode t e d ws st = (exampleNode ''a'' [''a''])\<lparr>ps := \<lparr>CurrentTerm = t, VotedFor = [], Log = [e]\<rparr>,
     store := st, syncKick := True, aeWaiters := ws, leaderContact := Some 0, LeaderID := ''b'',
     electionGeneration := t, durableIndex := d\<rparr>"

definition runWaiter :: "nat \<Rightarrow> LogEntry \<Rightarrow> nat \<Rightarrow> aeWaiter" where
  "runWaiter t e p = \<lparr>wTerm = t, wTarget = 1, wTargetTerm = eTerm e, wRespond = p\<rparr>"

definition refused :: "nat \<Rightarrow> AppendEntriesReply" where
  "refused t = \<lparr>aerTerm = t, aerSuccess = False, aerConflictIndex = 2, aerConflictTerm = 0,
     aerHasMatch = False, aerMatchIndex = 0, aerCaps = 1\<rparr>"

definition acked :: "nat \<Rightarrow> AppendEntriesReply" where
  "acked t = \<lparr>aerTerm = t, aerSuccess = True, aerConflictIndex = 0, aerConflictTerm = 0,
     aerHasMatch = True, aerMatchIndex = 1, aerCaps = 1\<rparr>"

lemmas request_eval = HandleAppendEntriesAsync_def appendEntriesLocked_def acceptEntries_def
  exampleRequest_def exampleNode_def noteLeaderContactLocked_def resetElectionTimer_def
  becomeFollower_def persistMetaLocked_def popMetaIO_def saveMeta_def writeMeta_def failWaitersLocked_def
  advanceFollowerCommit_def notifyApplier_def takeDecidedWaitersLocked_def decideWaiter_def decidedReply_def
  localCaps_def lastLogIndex_def logTerm_def logFirstIndex_def Let_def setLog_def enqueueLocked_def enqueue_def
  kickSyncerLocked_def refreshConfigFromLog_def setConfig_def syncReplicatorsLocked_def IsMember_def
  isLearner_def containsVoter_def exampleEntry_def freshStore_def runStore_def runNode_def runWaiter_def refused_def

lemma exampleRequest_ok:
  "0 < t \<Longrightarrow> t < 2 ^ 64 \<Longrightarrow> wfArgs (exampleRequest u (exampleEntry t 1)) \<and>
   (\<forall>e \<in> set (aeEntries (exampleRequest u (exampleEntry t 1))). storable e \<and> 0 < eTerm e)"
  by (simp add: wfArgs_def exampleRequest_def) (simp add: exampleEntry_def)

lemma run_first:
  "HandleAppendEntriesAsync exampleGob 0 (exampleRequest 1 (exampleEntry 1 1)) 7 (exampleNode ''a'' [''a'']) =
     ([], runNode 1 (exampleEntry 1 1) 0 [runWaiter 1 (exampleEntry 1 1) 7]
        (runStore 1 (logFileBytes []) raftLogHdrLen (encodeRecord (exampleEntry 1 1))))"
  by (simp add: request_eval) (simp add: logFileBytes_eq)

lemma run_replace:
  "HandleAppendEntriesAsync exampleGob 0 (exampleRequest 2 (exampleEntry 2 1)) 8
      (runNode 1 (exampleEntry 1 1) 0 [runWaiter 1 (exampleEntry 1 1) 7] (runStore 1 h n [])) =
     ([(7, refused 2)], runNode 2 (exampleEntry 2 1) 0 [runWaiter 2 (exampleEntry 2 1) 8]
        (runStore 2 h n (encodeRecord (exampleEntry 2 1))))"
  by (simp add: request_eval)

lemma run_restore:
  "HandleAppendEntriesAsync exampleGob 0 (exampleRequest 3 (exampleEntry 1 1)) 9
      (runNode 2 (exampleEntry 2 1) 0 [runWaiter 2 (exampleEntry 2 1) 8] (runStore 2 h n q)) =
     ([(8, refused 3)], runNode 3 (exampleEntry 1 1) 0 [runWaiter 3 (exampleEntry 1 1) 9]
        (runStore 3 h n (q @ encodeRecord (exampleEntry 1 1))))"
  by (simp add: request_eval encodeRecords_eq)

lemma run_begin: "syncBegin (runNode t (exampleEntry u 1) d ws st) = (1, u)"
  by (simp add: syncBegin_def lastLogIndex_def lastLogTerm_def) (simp add: runNode_def exampleEntry_def)

lemma run_write:
  "q \<noteq> [] \<Longrightarrow> flushWrite WriteOk (runStore t h n q) = (FlushSync 0, runStore t (h @ q) n [])"
  by (simp add: flushWrite_def runStore_def freshStore_def)

lemma run_fsync: "flushSync True 0 (runStore t h n q) = (None, runStore t h (length h) q)"
  by (simp add: flushSync_def runStore_def freshStore_def)

lemma run_finish:
  "syncEnd exampleGob None 1 1 (runNode t (exampleEntry 1 1) 0 [runWaiter t (exampleEntry 1 1) p] (runStore t h n q)) =
     ([(p, acked t)], runNode t (exampleEntry 1 1) 1 [] (runStore t h n q))"
  by (simp add: syncEnd_def markDurableLocked_def request_eval acked_def)

lemma run_store [simp]: "store (runNode t e d ws st) = st" "(runNode t e d ws st)\<lparr>store := st'\<rparr> = runNode t e d ws st'"
  by (simp_all add: runNode_def)

abbreviation dur_run :: "RaftNode \<times> capture option \<times> bool \<Rightarrow> RaftNode \<times> capture option \<times> bool \<Rightarrow> bool" where
  "dur_run \<equiv> (\<lambda>a b. \<exists>rs. durStep exampleGob a rs b)\<^sup>*\<^sup>*"

lemma durRun_step: "dur_run st (rn, g, b) \<Longrightarrow> durStep exampleGob (rn, g, b) rs st' \<Longrightarrow> dur_run st st'"
  by (rule rtranclp.rtrancl_into_rtrancl, assumption, rule exI)

text \<open>The entry arrives, the syncer captures it and flushes it with success.\<close>

lemma run_flushed:
  "\<exists>c. capIdx c = 1 \<and> capTerm c = 1 \<and> capPhase c = Flushed None \<and> capClean c \<and>
     dur_run (exampleNode ''a'' [''a''], None, False)
       (runNode 1 (exampleEntry 1 1) 0 [runWaiter 1 (exampleEntry 1 1) 7]
          (runStore 1 (logFileBytes [exampleEntry 1 1]) (length (logFileBytes [exampleEntry 1 1])) []), Some c, False)"
proof -
  let ?e = "exampleEntry 1 1" and ?H = "logFileBytes []"
  let ?n = "\<lambda>st. runNode 1 ?e 0 [runWaiter 1 ?e 7] st"
  define s1 where "s1 = runStore 1 ?H raftLogHdrLen (encodeRecord ?e)"
  define s2 where "s2 = runStore 1 (?H @ encodeRecord ?e) raftLogHdrLen []"
  define s3 where "s3 = runStore 1 (?H @ encodeRecord ?e) (length (?H @ encodeRecord ?e)) []"
  define c where "c = \<lparr>capIdx = 1, capTerm = 1, capPhase = Captured, capWritten = writtenRecords s1, capClean = True\<rparr>"
  have "durStep exampleGob (exampleNode ''a'' [''a''], None, False) []
      (?n s1, noticed (exampleNode ''a'' [''a'']) (?n s1) None, False)"
    using durStep.request [OF _ _ run_first] exampleRequest_ok [of 1 1] by (simp add: s1_def)
  then have a: "dur_run (exampleNode ''a'' [''a''], None, False) (?n s1, None, False)"
    by (auto simp: noticed_def intro: r_into_rtranclp)
  have b: "dur_run (exampleNode ''a'' [''a''], None, False) (?n s1, Some c, False)"
    by (rule durRun_step [OF a]) (use durStep.begin_sync [OF run_begin] in \<open>simp add: c_def\<close>)
  have "encodeRecord ?e \<noteq> []" using length_encodeRecord [of ?e] by (auto simp: recHdrLen_def)
  then have w: "flushWrite WriteOk (store (?n s1)) = (FlushSync 0, s2)"
    using run_write [of "encodeRecord ?e"] by (simp add: s1_def s2_def)
  have d: "dur_run (exampleNode ''a'' [''a''], None, False) (?n s2, Some (c\<lparr>capPhase := Fsyncing 0\<rparr>), False)"
    by (rule durRun_step [OF b]) (use durStep.write_sync [OF _ w, of c] in \<open>simp add: c_def\<close>)
  have y: "flushSync True 0 (store (?n s2)) = (None, s3)"
    using run_fsync by (simp add: s2_def s3_def)
  have "dur_run (exampleNode ''a'' [''a''], None, False) (?n s3, Some (c\<lparr>capPhase := Flushed None\<rparr>), False)"
    by (rule durRun_step [OF d]) (use durStep.fsync [OF _ y, of "c\<lparr>capPhase := Fsyncing 0\<rparr>"] in simp)
  moreover have "s3 = runStore 1 (logFileBytes [?e]) (length (logFileBytes [?e])) []"
    by (simp add: s3_def logFileBytes_eq)
  ultimately show ?thesis
    by (intro exI [of _ "c\<lparr>capPhase := Flushed None\<rparr>"]) (simp add: c_def)
qed

lemma run_crash:
  assumes "\<forall>r \<in> set (D @ W @ V). storable r"
  shows "crashRecovers (runStore t (logFileBytes (D @ W @ V)) (length (logFileBytes D)) q) (replayed (D @ W))"
proof -
  let ?s = "runStore t (logFileBytes (D @ W @ V)) (length (logFileBytes D)) q"
  have "crashFile False (length (concat (map encodeRecord W))) ?s = encodeRecords raftLogHeader (D @ W) @ []"
    by (simp add: crashFile_def runStore_def freshStore_def logFileBytes_eq encodeRecords_eq)
  moreover have "\<forall>r \<in> set (D @ W). storable r"
    using assms by auto
  ultimately show ?thesis
    using replayBytes_records [of "D @ W" "[]"] readRecord_Nil unfolding crashRecovers_def by metis
qed

lemma run_entry: "entryAt (runNode t (exampleEntry u 1) d ws st) 1 = Some (exampleEntry u 1)"
  by (simp add: entryAt_def lastLogIndex_def) (simp add: runNode_def exampleEntry_def)

lemma example_replayed: "replayed [exampleEntry t (Suc 0)] = [exampleEntry t (Suc 0)]"
    "replayed [exampleEntry t (Suc 0), exampleEntry u (Suc 0)] = [exampleEntry u (Suc 0)]"
  by (simp_all add: replayed_def replayRecord_def exampleEntry_def)

text \<open>The follower acknowledges the entry to its leader, and a crash recovers it.\<close>

theorem acknowledged_survives_witness:
  "\<exists>rn c rn' found. dur_run (exampleNode ''a'' [''a''], None, False) (rn, Some c, False) \<and>
     durStep exampleGob (rn, Some c, False) [(7, acked 1)] (rn', None, False) \<and>
     crashRecovers (store rn') found \<and> find (\<lambda>e. eIndex e = 1) found = Some (exampleEntry 1 1)"
proof -
  let ?e = "exampleEntry 1 1"
  let ?s = "runStore 1 (logFileBytes [?e]) (length (logFileBytes [?e])) []"
  let ?rn = "runNode 1 ?e 0 [runWaiter 1 ?e 7] ?s" and ?rn' = "runNode 1 ?e 1 [] ?s"
  obtain c where c: "capIdx c = 1" "capTerm c = 1" "capPhase c = Flushed None" "capClean c"
      "dur_run (exampleNode ''a'' [''a''], None, False) (?rn, Some c, False)"
    using run_flushed by blast
  have st: "durStep exampleGob (?rn, Some c, False) [(7, acked 1)] (?rn', None, False)"
    using durStep.finish [OF c(3), of exampleGob ?rn "[(7, acked 1)]" ?rn' False] run_finish [of 1 7] c
    by (simp add: replacedAndRestored_def)
  have start: "NewRaftNodeWithOptions exampleGob goodIO AtomicOk True (\<lambda>_. True) plainOptions None
      emptyDisk [] ((exampleNode ''a'' [])\<lparr>replReady := False\<rparr>) = (None, exampleNode ''a'' [''a''])"
    using exampleStart_ok by (simp add: exampleStart_def)
  have "crashedDisk emptyDisk" "\<not> optForceNewCluster plainOptions"
    by (simp_all add: crashedDisk_def emptyDisk_def plainOptions_def)
  note a = acknowledged_survives [OF start this c(5) st]
  have found: "crashRecovers (store ?rn') [?e]"
    using run_crash [of "[?e]" "[]" "[]" 1 "[]"] by (simp add: example_replayed)
  have "lastIncludedIndex ?rn' < 1" "1 \<le> durableIndex ?rn'"
    by (simp_all add: runNode_def exampleNode_def)
  then have "find (\<lambda>e. eIndex e = 1) [?e] = entryAt ?rn' 1"
    using a found by blast
  then have "find (\<lambda>e. eIndex e = 1) [?e] = Some ?e" by (simp only: run_entry)
  with c(5) st found show ?thesis by blast
qed

text \<open>While the first flush runs the entry is replaced and put back; then the flush ends.\<close>

lemma run_restored:
  fixes q :: bytes
  defines "q \<equiv> encodeRecord (exampleEntry 2 1) @ encodeRecord (exampleEntry 1 1)"
  shows "\<exists>rn c. dur_run (exampleNode ''a'' [''a''], None, False) (rn, Some c, False) \<and>
     durStep exampleGob (rn, Some c, False) [(9, acked 3)]
       (runNode 3 (exampleEntry 1 1) 1 []
          (runStore 3 (logFileBytes [exampleEntry 1 1]) (length (logFileBytes [exampleEntry 1 1])) q), None, True)"
proof -
  let ?e = "exampleEntry 1 1" and ?x = "exampleEntry 2 1"
  let ?h = "logFileBytes [?e]"
  let ?s = "\<lambda>t q. runStore t ?h (length ?h) q"
  let ?n1 = "runNode 1 ?e 0 [runWaiter 1 ?e 7] (?s 1 [])"
  let ?n2 = "runNode 2 ?x 0 [runWaiter 2 ?x 8] (?s 2 (encodeRecord ?x))"
  let ?n3 = "runNode 3 ?e 0 [runWaiter 3 ?e 9] (?s 3 q)"
  obtain c where c: "capIdx c = 1" "capTerm c = 1" "capPhase c = Flushed None" "capClean c"
      "dur_run (exampleNode ''a'' [''a''], None, False) (?n1, Some c, False)"
    using run_flushed by blast
  define c2 where "c2 = c\<lparr>capClean := newAbove ?n1 ?n2 1\<rparr>"
  define c3 where "c3 = c\<lparr>capClean := newAbove ?n1 ?n2 1 \<and> newAbove ?n2 ?n3 1\<rparr>"
  have "durStep exampleGob (?n1, Some c, False) [(7, refused 2)] (?n2, Some c2, False)"
    using durStep.request [OF _ _ run_replace, where g = "Some c"] exampleRequest_ok [of 2 2] c
    by (simp add: noticed_def c2_def)
  from durRun_step [OF c(5) this]
  have r2: "dur_run (exampleNode ''a'' [''a''], None, False) (?n2, Some c2, False)" .
  have "durStep exampleGob (?n2, Some c2, False) [(8, refused 3)] (?n3, Some c3, False)"
    using durStep.request [OF _ _ run_restore, where g = "Some c2"] exampleRequest_ok [of 1 3] c
    by (simp add: noticed_def c2_def c3_def q_def)
  from durRun_step [OF r2 this]
  have r3: "dur_run (exampleNode ''a'' [''a''], None, False) (?n3, Some c3, False)" .
  have "writtenRecords (?s 1 []) = [?e]" "writtenRecords (?s 2 (encodeRecord ?x)) = [?e, ?x]"
    using parseRecords_encode [of "[?e]" "[]"] parseRecords_encode [of "[?e, ?x]" "[]"]
    by (simp_all add: writtenRecords_def runStore_def freshStore_def logFileBytes_eq parseRecords_stop)
  then have "\<not> newAbove ?n1 ?n2 1" by (simp add: newAbove_def) (simp add: exampleEntry_def)
  then have rr: "replacedAndRestored ?n3 c3"
    using c by (simp add: replacedAndRestored_def c3_def)
      (simp add: logTerm_def lastLogIndex_def runNode_def exampleNode_def exampleEntry_def)
  have s4: "durStep exampleGob (?n3, Some c3, False) [(9, acked 3)] (runNode 3 ?e 1 [] (?s 3 q), None, True)"
    using durStep.finish [of c3 None exampleGob ?n3 "[(9, acked 3)]" "runNode 3 ?e 1 [] (?s 3 q)" False] run_finish [of 3 9] rr c
    by (simp add: c3_def)
  with r3 show ?thesis by blast
qed

text \<open>The next pass writes the queue; before its fsync a crash may keep the first record of it.\<close>

lemma run_next_write:
  fixes h
  defines "h \<equiv> logFileBytes [exampleEntry 1 1]"
  shows "\<exists>g. dur_run (runNode 3 (exampleEntry 1 1) 1 []
        (runStore 3 h (length h) (encodeRecord (exampleEntry 2 1) @ encodeRecord (exampleEntry 1 1))), None, True)
      (runNode 3 (exampleEntry 1 1) 1 [] (runStore 3 (logFileBytes [exampleEntry 1 1, exampleEntry 2 1, exampleEntry 1 1])
        (length h) []), g, True)"
proof -
  let ?e = "exampleEntry 1 1" and ?x = "exampleEntry 2 1"
  let ?n4 = "runNode 3 ?e 1 [] (runStore 3 h (length h) (encodeRecord ?x @ encodeRecord ?e))"
  let ?n5 = "runNode 3 ?e 1 [] (runStore 3 (logFileBytes [?e, ?x, ?e]) (length h) [])"
  define k where "k = \<lparr>capIdx = 1, capTerm = 1, capPhase = Captured, capWritten = writtenRecords (store ?n4), capClean = True\<rparr>"
  have a: "dur_run (?n4, None, True) (?n4, Some k, True)"
    by (rule durRun_step [OF rtranclp.rtrancl_refl]) (use durStep.begin_sync [OF run_begin] in \<open>simp add: k_def\<close>)
  have "flushWrite WriteOk (store ?n4) = (FlushSync 0, runStore 3 (logFileBytes [?e, ?x, ?e]) (length h) [])"
    using run_write [of "encodeRecord ?x @ encodeRecord ?e" 3 h] length_encodeRecord [of ?x]
    by (auto simp: logFileBytes_eq recHdrLen_def h_def)
  then have "durStep exampleGob (?n4, Some k, True) [] (?n5, Some (k\<lparr>capPhase := Fsyncing 0\<rparr>), True)"
    using durStep.write_sync [of k WriteOk ?n4 0 _ exampleGob True] by (simp add: k_def)
  from durRun_step [OF a this]
  have r5: "dur_run (?n4, None, True) (?n5, Some (k\<lparr>capPhase := Fsyncing 0\<rparr>), True)" .
  then show ?thesis by blast
qed

text \<open>
  C17: the schedule the term check of \<open>markDurableLocked\<close> does not
  recognise. A follower starts on an empty directory and receives an entry of term 1. While the
  syncer flushes it, a leader of term 2 replaces the entry and a leader of term 3 puts it back;
  both records are only queued. The flush ends, the entry at the captured index has the
  captured term again, the index is marked durable, and the node acknowledges the entry to
  the leader of term 3. The next flush writes the two queued records, and a crash of the
  machine that keeps the first of them leaves a log with the entry of term 2 in place of the
  acknowledged one.
\<close>

theorem restored_capture_loses:
  "\<exists>rn c rn1 g rn2 found. dur_run (exampleNode ''a'' [''a''], None, False) (rn, Some c, False) \<and>
     durStep exampleGob (rn, Some c, False) [(9, acked 3)] (rn1, None, True) \<and>
     dur_run (rn1, None, True) (rn2, g, True) \<and> durableIndex rn2 = 1 \<and>
     entryAt rn2 1 = Some (exampleEntry 1 1) \<and> crashRecovers (store rn2) found \<and>
     find (\<lambda>e. eIndex e = 1) found = Some (exampleEntry 2 1)"
proof -
  let ?e = "exampleEntry 1 1" and ?x = "exampleEntry 2 1"
  let ?n5 = "runNode 3 ?e 1 [] (runStore 3 (logFileBytes [?e, ?x, ?e]) (length (logFileBytes [?e])) [])"
  have "crashRecovers (store ?n5) [?x]"
    using run_crash [of "[?e]" "[?x]" "[?e]" 3 "[]"] by (simp add: example_replayed)
  moreover have "find (\<lambda>e. eIndex e = 1) [?x] = Some ?x" by (simp add: exampleEntry_def)
  moreover have "durableIndex ?n5 = 1" by (simp add: runNode_def)
  moreover have "entryAt ?n5 1 = Some ?e" by (rule run_entry)
  ultimately show ?thesis using run_restored run_next_write by blast
qed

end
