(* ===== verification/RaftCommit.thy ===== *)
theory RaftCommit
  imports RaftLog
begin

text \<open>
  Commitment and application. \<open>maybeAdvanceCommit\<close> scans from the end of the log; it is shown
  to compute the greatest index of the current term that a majority of the voters hold
  durably. The applier's loop is shown to return, to reach the commit index, and to hand the
  state machine exactly the committed commands, each once and in log order.
\<close>

section \<open>The commit rule\<close>

definition holds :: "RaftNode \<Rightarrow> nat \<Rightarrow> string \<Rightarrow> bool" where
  "holds rn n s \<longleftrightarrow> (if s = rnId rn then n \<le> durableIndex rn else n \<le> matchIndex rn s)"

text \<open>The reference: indices a leader may commit, by counting the voters that hold them.\<close>

definition committable :: "RaftNode \<Rightarrow> nat set" where
  "committable rn = {n. commitIndex rn < n \<and> n \<le> lastLogIndex rn \<and> logTerm rn n = curTerm rn \<and>
     card (set (Servers (config rn))) < 2 * card {s \<in> set (Servers (config rn)). holds rn n s}}"

lemma replicatedCount_card:
  assumes "distinct (Servers (config rn))"
  shows "replicatedCount rn n = card {s \<in> set (Servers (config rn)). holds rn n s}"
proof -
  have "replicatedCount rn n = length (filter (holds rn n) (Servers (config rn)))"
    unfolding replicatedCount_def holds_def by (metis (no_types, lifting) filter_cong)
  also have "\<dots> = card (set (filter (holds rn n) (Servers (config rn))))"
    using assms distinct_card [OF distinct_filter] by metis
  finally show ?thesis by simp
qed

lemma quorum_majority:
  assumes "distinct (Servers (config rn))"
  shows "quorumSize rn \<le> k \<longleftrightarrow> card (set (Servers (config rn))) < 2 * k"
  using distinct_card [OF assms] by (auto simp: quorumSize_def)

lemma commitScan_spec:
  assumes d: "distinct (Servers (config rn))" and m: "m \<le> lastLogIndex rn"
  shows "case commitScan rn m of
      None \<Rightarrow> (\<forall>n \<in> committable rn. m < n)
    | Some n \<Rightarrow> n \<in> committable rn \<and> (\<forall>k \<in> committable rn. k \<le> m \<longrightarrow> k \<le> n)"
  using m
proof (induction m)
  case 0
  then show ?case by (auto simp: committable_def)
next
  case (Suc m)
  let ?n = "Suc m"
  have in_c: "?n \<in> committable rn \<longleftrightarrow> commitIndex rn < ?n \<and> logTerm rn ?n = curTerm rn \<and>
      quorumSize rn \<le> replicatedCount rn ?n"
    using Suc.prems quorum_majority [OF d] replicatedCount_card [OF d] by (auto simp: committable_def)
  show ?case
  proof (cases "?n \<le> commitIndex rn")
    case True
    then show ?thesis by (auto simp: committable_def)
  next
    case False
    show ?thesis
    proof (cases "?n \<in> committable rn")
      case True
      then show ?thesis using in_c by simp
    next
      case no: False
      then have "commitScan rn ?n = commitScan rn m"
        using False in_c by auto
      moreover have "k \<le> m" if "k \<in> committable rn" "k \<le> ?n" for k
        using that no by (metis le_SucE)
      moreover have "m < n \<Longrightarrow> ?n < n" if "n \<in> committable rn" for n
        using that no by (metis Suc_lessI)
      ultimately show ?thesis
        using Suc by (auto split: option.splits)
    qed
  qed
qed

lemma committable_finite: "finite (committable rn)"
  by (rule finite_subset [of _ "{..lastLogIndex rn}"]) (auto simp: committable_def)

text \<open>
  C4: what \<open>maybeAdvanceCommit\<close> does to the commit index is the rule of Raft:
  it becomes the greatest index that carries an entry of the current term and that a strict
  majority of the voters hold on stable storage, and it stays where it is when there is none.
  The leader's own copy counts only up to its durable index.
\<close>

theorem commit_rule:
  assumes "distinct (Servers (config rn))"
  shows "commitIndex (maybeAdvanceCommit rn) = Max (insert (commitIndex rn) (committable rn))"
proof (cases "commitScan rn (lastLogIndex rn)")
  case None
  then have "committable rn = {}"
    using commitScan_spec [OF assms, of "lastLogIndex rn"] by (fastforce simp: committable_def)
  then show ?thesis by (simp add: maybeAdvanceCommit_def None)
next
  case (Some n)
  then have n: "n \<in> committable rn" "\<forall>k \<in> committable rn. k \<le> n"
    using commitScan_spec [OF assms, of "lastLogIndex rn"] by (auto simp: committable_def)
  then have "commitIndex rn \<le> n"
    by (auto simp: committable_def)
  then have "Max (insert (commitIndex rn) (committable rn)) = n"
    using n committable_finite by (intro Max_eqI) auto
  then show ?thesis
    by (simp add: maybeAdvanceCommit_def Some notifyApplier_def)
qed

theorem commit_rule_witness:
  "commitIndex (maybeAdvanceCommit ((exampleNode ''a'' [''a'', ''b'', ''c''])
     \<lparr>role := RoleLeader, ps := \<lparr>CurrentTerm = 1, VotedFor = [], Log = [exampleEntry 1 1]\<rparr>,
      durableIndex := 1, matchIndex := (\<lambda>p. if p = ''b'' then 1 else 0)\<rparr>)) = 1"
  (is "commitIndex (maybeAdvanceCommit ?led) = 1")
proof -
  have "distinct (Servers (config ?led))"
    by (simp add: exampleNode_def)
  note commit_rule [OF this]
  moreover have "committable ?led = {1}"
  proof -
    have l: "lastLogIndex ?led = 1" "commitIndex ?led = 0" "logTerm ?led 1 = 1"
      by (simp_all add: exampleNode_def lastLogIndex_def exampleEntry_def logTerm_def Let_def)
    have s: "{s \<in> set (Servers (config ?led)). holds ?led 1 s} = {''a'', ''b''}"
      by (auto simp: exampleNode_def holds_def)
    have c: "set (Servers (config ?led)) = {''a'', ''b'', ''c''}"
      by (simp add: exampleNode_def)
    have "n \<in> committable ?led \<longleftrightarrow> n = 1" for n
    proof (cases "n = 1")
      case True
      then show ?thesis
        using l s c by (simp add: committable_def exampleNode_def)
    next
      case False
      then have "n = 0 \<or> n > 1" by auto
      then show ?thesis
        using False l by (auto simp: committable_def)
    qed
    then show ?thesis by blast
  qed
  moreover have "commitIndex ?led = 0"
    by (simp add: exampleNode_def)
  ultimately show ?thesis by simp
qed

section \<open>The applier\<close>

text \<open>The commands the state machine has been given, batches flattened.\<close>

fun handedCommands :: "sm_call list \<Rightarrow> bytes list" where
  "handedCommands [] = []"
| "handedCommands (SMApply c # cs) = c # handedCommands cs"
| "handedCommands (SMApplyBatch bs # cs) = bs @ handedCommands cs"
| "handedCommands (_ # cs) = handedCommands cs"

lemma handedCommands_append [simp]: "handedCommands (xs @ ys) = handedCommands xs @ handedCommands ys"
  by (induction xs rule: handedCommands.induct) simp_all

definition aview :: "RaftNode \<Rightarrow> nat \<times> sm_call list \<times> bool \<times> bool" where
  "aview rn = (commitIndex rn, smCalls rn, hasBatchSM rn, hasAppliedSM rn)"

lemma aview_startReplicators:
  "aview (startReplicators t ps' rn) = aview rn \<and>
   lastApplied (startReplicators t ps' rn) = lastApplied rn \<and>
   waiters (startReplicators t ps' rn) = waiters rn"
proof (induction ps' arbitrary: rn)
  case (Cons p ps')
  have "aview (rn\<lparr>prHeap := h, repl := rs, prNext := n\<rparr>) = aview rn" for h rs n
    by (simp add: aview_def)
  then show ?case by (simp add: Cons.IH)
qed simp

lemma aview_stepDown:
  "aview (stepDownLocked rn) = aview rn" "lastApplied (stepDownLocked rn) = lastApplied rn"
  "waiters (stepDownLocked rn) = []"
proof -
  have "aview (rn\<lparr>repl := rs, prHeap := h\<rparr>) = aview rn" for h rs and rn :: RaftNode
    by (simp add: aview_def)
  then show "aview (stepDownLocked rn) = aview rn" "lastApplied (stepDownLocked rn) = lastApplied rn"
    "waiters (stepDownLocked rn) = []"
    by (simp_all add: stepDownLocked_def syncReplicatorsLocked_def failWaitersLocked_def Let_def
        aview_startReplicators split: prod.splits) (simp_all add: aview_def)
qed

lemma finishApplied_effect:
  "aview (finishApplied e rn) = aview rn" "lastApplied (finishApplied e rn) = eIndex e"
  "set (waiters (finishApplied e rn)) \<subseteq> {w \<in> set (waiters rn). fst w \<noteq> eIndex e}"
  unfolding finishApplied_def onConfigCommitted_def Let_def
  by (auto simp: aview_stepDown) (simp_all add: aview_def)

text \<open>What applying a run of entries does.\<close>

definition appliedRun :: "LogEntry list \<Rightarrow> RaftNode \<Rightarrow> RaftNode \<Rightarrow> bool" where
  "appliedRun es rn rn' \<longleftrightarrow>
     commitIndex rn' = commitIndex rn \<and> hasBatchSM rn' = hasBatchSM rn \<and>
     hasAppliedSM rn' = hasAppliedSM rn \<and>
     lastApplied rn' = (if es = [] then lastApplied rn else eIndex (last es)) \<and>
     handedCommands (smCalls rn') =
       handedCommands (smCalls rn) @ map eCommand (filter batchable es) \<and>
     set (waiters rn') \<subseteq> {w \<in> set (waiters rn). fst w \<notin> eIndex ` set es}"

lemma appliedRun_trans:
  "appliedRun xs rn rn1 \<Longrightarrow> appliedRun ys rn1 rn2 \<Longrightarrow> appliedRun (xs @ ys) rn rn2"
  unfolding appliedRun_def by auto

lemma fold_finish:
  "es \<noteq> [] \<Longrightarrow> aview (fold finishApplied es rn) = aview rn \<and>
     lastApplied (fold finishApplied es rn) = eIndex (last es) \<and>
     set (waiters (fold finishApplied es rn)) \<subseteq> {w \<in> set (waiters rn). fst w \<notin> eIndex ` set es}"
proof (induction es rule: rev_induct)
  case (snoc e es)
  then show ?case
    using finishApplied_effect [of e "fold finishApplied es rn"]
    by (cases "es = []") auto
qed simp

lemma applyBatchRun_run:
  assumes "es \<noteq> []" "\<forall>e \<in> set es. batchable e"
  shows "appliedRun es rn (applyBatchRun es rn)"
  using fold_finish [OF assms(1), of "rn\<lparr>smCalls := smCalls rn @ [SMApplyBatch (map eCommand es)]\<rparr>"]
    assms by (auto simp: appliedRun_def applyBatchRun_def aview_def)

lemma applySingle_run: "appliedRun [e] rn (applySingle e rn)"
  using finishApplied_effect [of e "rn\<lparr>smCalls := smCalls rn @ [SMApply (eCommand e)]\<rparr>"]
    finishApplied_effect [of e rn]
  by (auto simp: appliedRun_def applySingle_def aview_def batchable_def)

lemma applyEntries_run: "appliedRun es rn (applyEntries es rn)"
proof (induction es rn rule: applyEntries.induct)
  case (1 rn)
  then show ?case by (simp add: appliedRun_def)
next
  case (2 e es rn)
  let ?run = "e # takeWhile batchable es"
  show ?case
  proof (cases "hasBatchSM rn \<and> batchable e")
    case True
    then have "appliedRun ?run rn (applyBatchRun ?run rn)"
      by (intro applyBatchRun_run) (auto dest: set_takeWhileD)
    from appliedRun_trans [OF this "2.IH"(1) [OF True]] show ?thesis
      using True by simp
  next
    case False
    from appliedRun_trans [OF applySingle_run "2.IH"(2) [OF False]] show ?thesis
      using False by (simp del: de_Morgan_conj)
  qed
qed

lemma gatherRun_ok:
  assumes "logOk rn" "lastIncludedIndex rn < i" "i + k \<le> lastLogIndex rn + 1"
  shows "gatherRun rn i k = take k (drop (i - (lastIncludedIndex rn + 1)) (rlog rn))"
  using assms(2,3)
proof (induction k arbitrary: i)
  case (Suc k)
  let ?j = "i - (lastIncludedIndex rn + 1)"
  have len: "?j < length (rlog rn)"
    using Suc.prems lastLog_logOk [OF assms(1)] by simp
  have "i + 1 - (lastIncludedIndex rn + 1) = Suc ?j"
    using Suc.prems by simp
  then show ?case
    using Suc len by (simp add: entryAt_ok [OF assms(1)] Cons_nth_drop_Suc [symmetric])
qed simp

text \<open>The committed entries that are not applied yet.\<close>

definition unapplied :: "RaftNode \<Rightarrow> LogEntry list" where
  "unapplied rn = filter (\<lambda>e. lastApplied rn < eIndex e \<and> eIndex e \<le> commitIndex rn) (rlog rn)"

lemma contig_filter:
  "contig f es \<Longrightarrow> f \<le> a + 1 \<Longrightarrow> filter (\<lambda>e. a < eIndex e \<and> eIndex e \<le> b) es = take (b - a) (drop (a + 1 - f) es)"
proof (induction es arbitrary: f a)
  case (Cons e es)
  show ?case
  proof (cases "f = a + 1")
    case True
    have shift: "filter (\<lambda>e. a < eIndex e \<and> eIndex e \<le> b) es =
        filter (\<lambda>e. a + 1 < eIndex e \<and> eIndex e \<le> b) es"
      using Cons.prems True by (intro filter_cong) (auto dest: contig_mem_bounds)
    show ?thesis
    proof (cases "a < b")
      case less: True
      then have "b - a = Suc (b - Suc a)" by simp
      then show ?thesis
        using Cons.prems Cons.IH [of "Suc f" "a + 1"] True shift less by simp
    next
      case no: False
      then show ?thesis
        using Cons.prems Cons.IH [of "Suc f" "a + 1"] True shift by simp
    qed
  next
    case False
    then show ?thesis
      using Cons.prems Cons.IH [of "Suc f" a] by (auto simp: Suc_diff_le)
  qed
qed simp

lemma unapplied_ok:
  assumes "logOk rn" "lastIncludedIndex rn \<le> lastApplied rn" "commitIndex rn \<le> lastLogIndex rn"
  shows "unapplied rn = gatherRun rn (lastApplied rn + 1) (commitIndex rn - lastApplied rn)"
    and "lastApplied rn < commitIndex rn \<Longrightarrow> unapplied rn \<noteq> [] \<and> eIndex (last (unapplied rn)) = commitIndex rn"
proof -
  let ?n = "lastApplied rn - lastIncludedIndex rn"
  have c: "contig (lastIncludedIndex rn + 1) (rlog rn)"
    using assms(1) by (simp add: logOk_def)
  have u: "unapplied rn = take (commitIndex rn - lastApplied rn) (drop ?n (rlog rn))"
    unfolding unapplied_def using contig_filter [OF c] assms(2) by simp
  show "unapplied rn = gatherRun rn (lastApplied rn + 1) (commitIndex rn - lastApplied rn)"
  proof (cases "lastApplied rn \<le> commitIndex rn")
    case True
    then show ?thesis
      using gatherRun_ok [OF assms(1), of "lastApplied rn + 1" "commitIndex rn - lastApplied rn"] assms u
      by simp
  qed (simp add: u)
  assume less: "lastApplied rn < commitIndex rn"
  have len: "length (unapplied rn) = commitIndex rn - lastApplied rn"
    using assms less lastLog_logOk [OF assms(1)] by (simp add: u)
  have "contig (lastIncludedIndex rn + 1 + ?n) (unapplied rn)"
    unfolding u by (intro contig_take contig_drop c)
  moreover have ne: "unapplied rn \<noteq> []"
    using len less by auto
  ultimately have "eIndex (last (unapplied rn)) = lastIncludedIndex rn + 1 + ?n + length (unapplied rn) - 1"
    by (rule contig_last)
  then show "unapplied rn \<noteq> [] \<and> eIndex (last (unapplied rn)) = commitIndex rn"
    using len less assms(2) ne by simp
qed

lemma appliedRun_record: "appliedRun es rn rn' \<Longrightarrow> appliedRun es rn (recordApplied e rn')"
  by (auto simp: appliedRun_def recordApplied_def)

lemma applyCommitted_run:
  assumes "logOk rn" "lastIncludedIndex rn \<le> lastApplied rn" "lastApplied rn \<le> commitIndex rn"
    "commitIndex rn \<le> lastLogIndex rn"
  obtains rn' where "applyCommitted rn = Some rn'" "appliedRun (unapplied rn) rn rn'"
    "lastApplied rn' = commitIndex rn"
proof (cases "lastApplied rn = commitIndex rn")
  case True
  then have "applyOneRun rn = (False, rn)"
    by (simp add: applyOneRun_def)
  then have "applyCommitted rn = Some rn"
    by (subst applyCommitted.simps) simp
  moreover have "unapplied rn = []"
    using unapplied_ok(1) [OF assms(1,2,4)] True by simp
  ultimately show ?thesis
    using that [of rn] True by (simp add: appliedRun_def)
next
  case False
  let ?es = "unapplied rn"
  define rn' where "rn' = recordApplied (last ?es) (applyEntries ?es rn)"
  have less: "lastApplied rn < commitIndex rn"
    using False assms(3) by simp
  note es = unapplied_ok(2) [OF assms(1,2,4) less]
  have run: "appliedRun ?es rn rn'"
    unfolding rn'_def by (intro appliedRun_record applyEntries_run)
  have la: "lastApplied rn' = commitIndex rn" "commitIndex rn' = commitIndex rn"
    using run es by (simp_all add: appliedRun_def)
  have "applyOneRun rn = (True, rn')"
    using less es unapplied_ok(1) [OF assms(1,2,4)]
    by (simp add: applyOneRun_def rn'_def Let_def)
  moreover have "applyOneRun rn' = (False, rn')"
    using la by (simp add: applyOneRun_def)
  ultimately have "applyCommitted rn = Some rn'"
    by (subst applyCommitted.simps) (simp add: applyCommitted.simps [of rn'])
  then show ?thesis
    using that run la by blast
qed

text \<open>
  C5: the applier's loop returns. When it does, the applied index has
  reached the commit index, the state machine has been handed exactly the commands of the
  normal entries between the two, each once and in log order whatever the batching, and no
  proposal of that range is left waiting.
\<close>

theorem apply_exactly_once:
  assumes "logOk rn" "lastIncludedIndex rn \<le> lastApplied rn" "lastApplied rn \<le> commitIndex rn"
    "commitIndex rn \<le> lastLogIndex rn"
  shows "\<exists>rn'. applyCommitted rn = Some rn' \<and> lastApplied rn' = commitIndex rn \<and>
    handedCommands (smCalls rn') = handedCommands (smCalls rn) @
      map eCommand (filter batchable
        (filter (\<lambda>e. lastApplied rn < eIndex e \<and> eIndex e \<le> commitIndex rn) (rlog rn))) \<and>
    (\<forall>(i, ch) \<in> set (waiters rn'). \<not> (lastApplied rn < i \<and> i \<le> commitIndex rn))"
proof -
  obtain rn' where r: "applyCommitted rn = Some rn'" "appliedRun (unapplied rn) rn rn'"
    "lastApplied rn' = commitIndex rn"
    by (rule applyCommitted_run [OF assms])
  have "i \<in> eIndex ` set (unapplied rn)" if "lastApplied rn < i" "i \<le> commitIndex rn" for i
  proof -
    have "entryAt rn i \<noteq> None"
      using that assms by (simp add: entryAt_ok)
    then obtain e where "e \<in> set (rlog rn)" "eIndex e = i"
      unfolding entryAt_find [OF assms(1)] find_None_iff by blast
    then show ?thesis
      using that by (auto simp: unapplied_def)
  qed
  then show ?thesis
    using r unfolding appliedRun_def unapplied_def by fastforce
qed

theorem apply_exactly_once_witness:
  "\<exists>rn'. applyCommitted ((exampleNode ''a'' [''a''])
      \<lparr>ps := \<lparr>CurrentTerm = 1, VotedFor = [], Log = [exampleEntry 1 1]\<rparr>, commitIndex := 1,
       waiters := [(1, 7)]\<rparr>) = Some rn' \<and>
    lastApplied rn' = 1 \<and> handedCommands (smCalls rn') = [eCommand (exampleEntry 1 1)] \<and>
    (1, 7) \<notin> set (waiters rn')"
  (is "\<exists>rn'. applyCommitted ?n = Some rn' \<and> _")
proof -
  have "logOk ?n" "lastIncludedIndex ?n \<le> lastApplied ?n" "lastApplied ?n \<le> commitIndex ?n"
    "commitIndex ?n \<le> lastLogIndex ?n"
    by (simp_all add: logOk_def exampleNode_def exampleEntry_def lastLogIndex_def)
  from apply_exactly_once [OF this] obtain rn' where
    "applyCommitted ?n = Some rn'" "lastApplied rn' = commitIndex ?n"
    "handedCommands (smCalls rn') = handedCommands (smCalls ?n) @ map eCommand (filter batchable
       (filter (\<lambda>e. lastApplied ?n < eIndex e \<and> eIndex e \<le> commitIndex ?n) (rlog ?n)))"
    "\<forall>(i, ch) \<in> set (waiters rn'). \<not> (lastApplied ?n < i \<and> i \<le> commitIndex ?n)"
    by blast
  then show ?thesis
    by (intro exI [of _ rn']) (auto simp: exampleNode_def exampleEntry_def batchable_def)
qed

end
