(* ===== verification/RaftChange.thy ===== *)
theory RaftChange
  imports RaftLog
begin

text \<open>
  Membership changes one at a time. Every operation that proposes a configuration changes the
  voters by at most one, so a majority of the old voters and a majority of the new ones share
  a node; the voter set never becomes empty; and a change starts only when the one before it
  is committed.
\<close>

section \<open>Majorities of neighbouring voter sets\<close>

definition majority :: "Configuration \<Rightarrow> string set \<Rightarrow> bool" where
  "majority c q \<longleftrightarrow> q \<subseteq> set (Servers c) \<and> length (Servers c) div 2 + 1 \<le> card q"

definition oneChange :: "Configuration \<Rightarrow> Configuration \<Rightarrow> bool" where
  "oneChange c c' \<longleftrightarrow> Servers c' = Servers c \<or>
     (\<exists>i. i \<notin> set (Servers c) \<and> Servers c' = Servers c @ [i]) \<or>
     (\<exists>i \<in> set (Servers c). Servers c' = removeID (Servers c) i)"

lemma removeID_distinct:
  assumes "distinct xs" "i \<in> set xs"
  shows "length (removeID xs i) + 1 = length xs"
  using assms
proof (induction xs)
  case (Cons x xs)
  moreover have "i \<notin> set xs \<Longrightarrow> filter (\<lambda>s. s \<noteq> i) xs = xs"
    by (rule filter_True) auto
  ultimately show ?case
    by (auto simp: removeID_def)
qed simp

lemma oneChange_voters:
  assumes d: "distinct (Servers c)" and "oneChange c c'"
  shows "distinct (Servers c')"
    "2 * card (set (Servers c) \<union> set (Servers c')) \<le> length (Servers c) + length (Servers c') + 1"
proof -
  consider (same) "Servers c' = Servers c"
    | (add) i where "i \<notin> set (Servers c)" "Servers c' = Servers c @ [i]"
    | (del) i where "i \<in> set (Servers c)" "Servers c' = removeID (Servers c) i"
    using assms(2) unfolding oneChange_def by blast
  then have "distinct (Servers c') \<and>
      2 * card (set (Servers c) \<union> set (Servers c')) \<le> length (Servers c) + length (Servers c') + 1"
  proof cases
    case same
    then show ?thesis using d distinct_card [OF d] by simp
  next
    case add
    then have "set (Servers c) \<union> set (Servers c') = insert i (set (Servers c))" by auto
    then show ?thesis using add d distinct_card [OF d] by simp
  next
    case del
    then have "set (Servers c) \<union> set (Servers c') = set (Servers c)"
      by (auto simp: removeID_def)
    then show ?thesis
      using del d distinct_card [OF d] removeID_distinct [OF d del(1)] by (simp add: removeID_def)
  qed
  then show "distinct (Servers c')"
    "2 * card (set (Servers c) \<union> set (Servers c')) \<le> length (Servers c) + length (Servers c') + 1"
    by blast+
qed

lemma neighbour_majorities:
  assumes "distinct (Servers c)" "oneChange c c'" "majority c q" "majority c' q'"
  shows "q \<inter> q' \<noteq> {}"
proof
  assume "q \<inter> q' = {}"
  let ?u = "set (Servers c) \<union> set (Servers c')"
  have sub: "q \<subseteq> ?u" "q' \<subseteq> ?u"
    using assms(3,4) by (auto simp: majority_def)
  then have "finite q" "finite q'"
    using finite_subset by blast+
  then have "card q + card q' \<le> card ?u"
    using \<open>q \<inter> q' = {}\<close> sub card_mono [of ?u "q \<union> q'"] by (simp add: card_Un_disjoint)
  moreover have "length (Servers c) div 2 + 1 \<le> card q" "length (Servers c') div 2 + 1 \<le> card q'"
    using assms(3,4) by (simp_all add: majority_def)
  ultimately show False
    using oneChange_voters(2) [OF assms(1,2)] by presburger
qed

section \<open>What a proposal does to the configuration\<close>

definition cview :: "RaftNode \<Rightarrow> Configuration \<times> nat \<times> nat \<times> RaftRole \<times> string" where
  "cview rn = (config rn, configIndex rn, commitIndex rn, role rn, rnId rn)"

lemma cview_fields:
  assumes "cview rn' = cview rn"
  shows "config rn' = config rn" "configIndex rn' = configIndex rn" "commitIndex rn' = commitIndex rn"
    "role rn' = role rn" "rnId rn' = rnId rn"
  using assms by (simp_all add: cview_def)

lemma cview_startReplicators: "cview (startReplicators t ps' rn) = cview rn"
proof (induction ps' arbitrary: rn)
  case (Cons p ps')
  have "cview (rn\<lparr>prHeap := h, repl := rs, prNext := n\<rparr>) = cview rn" for h rs n
    by (simp add: cview_def)
  then show ?case by (simp add: Cons.IH)
qed simp

lemma cview_syncReplicators: "cview (syncReplicatorsLocked rn) = cview rn"
proof -
  have "cview (rn\<lparr>repl := rs, prHeap := h\<rparr>) = cview rn" for h rs
    by (simp add: cview_def)
  then show ?thesis
    by (simp add: syncReplicatorsLocked_def Let_def cview_startReplicators split: prod.splits)
qed

lemma cview_fold_updPR: "cview (fold (\<lambda>(p, r). updPR r f) rs rn) = cview rn"
  by (induction rs arbitrary: rn) (auto simp: updPR_def cview_def)

lemma cview_kicks:
  "cview (kickSyncerLocked rn) = cview rn" "cview (kickReplicatorsOnAppendLocked rn) = cview rn"
  "cview (heartbeatLocked rn) = cview rn"
  by (simp_all add: kickSyncerLocked_def kickReplicatorsOnAppendLocked_def kickReplicatorsLocked_def
      heartbeatLocked_def cview_fold_updPR) (simp_all add: cview_def)

lemma config_setConfig: "config (setConfig cfg i rn) = cfg"
  by (simp add: setConfig_def Let_def cview_fields [OF cview_syncReplicators])

lemma config_proposeConfig:
  "config (snd (proposeConfigLocked G nxt rn)) = config rn \<or>
   config (snd (proposeConfigLocked G nxt rn)) = nxt"
proof (cases "gobEncode G nxt")
  case (Some cmd)
  obtain e ch rn1 where a: "appendEntryLocked EntryConfig cmd rn = ((e, ch), rn1)"
    by (metis prod.exhaust)
  obtain err rn2 where q: "enqueueLocked [e] rn1 = (err, rn2)"
    by (cases "enqueueLocked [e] rn1")
  have "config rn2 = config rn"
    using a q by (auto simp: appendEntryLocked_def enqueueLocked_def Let_def setLog_def split: prod.splits)
  then show ?thesis
    by (simp add: proposeConfigLocked_def Some a q setLog_def config_setConfig
        cview_fields [OF cview_kicks(1)] cview_fields [OF cview_kicks(2)] split: option.splits)
qed (simp add: proposeConfigLocked_def)

section \<open>The operations\<close>

lemma Servers_fillAddrs: "Servers (fillAddrs known c) = Servers c" "Learners (fillAddrs known c) = Learners c"
proof -
  have "Servers (fold (\<lambda>(m, a) c. if IsMember c m \<and> addrOf c m = [] \<and> a \<noteq> []
            then c\<lparr>Addrs := AList.update m a (Addrs c)\<rparr> else c) known c) = Servers c \<and>
    Learners (fold (\<lambda>(m, a) c. if IsMember c m \<and> addrOf c m = [] \<and> a \<noteq> []
            then c\<lparr>Addrs := AList.update m a (Addrs c)\<rparr> else c) known c) = Learners c"
    by (induction known arbitrary: c) auto
  then show "Servers (fillAddrs known c) = Servers c" "Learners (fillAddrs known c) = Learners c"
    unfolding fillAddrs_def by auto
qed

lemma withLearner_lists:
  "Servers (withLearner i addr known c) = Servers c"
  "Learners (withLearner i addr known c) = Learners c @ [i]"
  by (simp_all add: withLearner_def Let_def Servers_fillAddrs)

lemma reachable_nonempty: "reachableQuorumLocked now c rn \<Longrightarrow> Servers c \<noteq> []"
  by (auto simp: reachableQuorumLocked_def)

text \<open>What a change of configuration from \<open>rn\<close> to \<open>rn'\<close> is allowed to be.\<close>

definition sound :: "RaftNode \<Rightarrow> RaftNode \<Rightarrow> bool" where
  "sound rn rn' \<longleftrightarrow> config rn' = config rn \<or>
     (role rn = RoleLeader \<and> configIndex rn \<le> commitIndex rn \<and>
      oneChange (config rn) (config rn') \<and> (Servers (config rn) \<noteq> [] \<longrightarrow> Servers (config rn') \<noteq> []))"

lemma sound_refl: "sound rn rn"
  by (simp add: sound_def)

lemma sound_propose:
  assumes "beginChangeLocked rn = None" "oneChange (config rn) nxt"
    "Servers (config rn) \<noteq> [] \<Longrightarrow> Servers nxt \<noteq> []"
  shows "sound rn (snd (proposeConfigLocked G nxt rn))"
  using assms config_proposeConfig [of G nxt rn]
  by (auto simp: sound_def beginChangeLocked_def split: if_splits)

lemma sound_AddMember_resume: "sound rn (snd (AddMember_resume G now dl i addr known rn))"
  by (auto simp: AddMember_resume_def proposed_snd sound_refl oneChange_def withLearner_lists
      intro!: sound_propose split: wait_poll.splits option.splits)

lemma sound_AddMember: "sound rn (snd (AddMember G now i addr known rn))"
  by (simp add: AddMember_def sound_refl sound_AddMember_resume split: option.splits)

lemma oneChange_without: "oneChange c (withoutMember i c)"
  by (cases "i \<in> set (Servers c)")
    (auto simp: oneChange_def withoutMember_def removeID_def filter_id_conv)

lemma sound_RemoveMember_propose:
  assumes "Servers (config rn) \<noteq> [] \<Longrightarrow> Servers (withoutMember i (config rn)) \<noteq> []"
  shows "sound rn (snd (RemoveMember_propose G i rn))"
  using assms sound_propose [of rn "withoutMember i (config rn)" G, OF _ oneChange_without]
  by (auto simp: RemoveMember_propose_def proposed_snd sound_refl split: option.splits)

lemma sound_RemoveMember_resume: "sound rn (snd (RemoveMember_resume G now dl i rn))"
proof (cases "waitQuorumLocked now dl (withoutMember i (config rn)) rn")
  case WaitYes
  then have "Servers (withoutMember i (config rn)) \<noteq> []"
    by (auto simp: waitQuorumLocked_def dest: reachable_nonempty split: if_splits)
  then show ?thesis
    using sound_RemoveMember_propose by (simp add: RemoveMember_resume_def WaitYes)
qed (simp_all add: RemoveMember_resume_def sound_refl)

lemma sound_RemoveMember: "sound rn (snd (RemoveMember G now i rn))"
proof -
  have "sound rn (snd (RemoveMember_propose G i rn))" if "\<not> containsVoter (config rn) i"
  proof (rule sound_RemoveMember_propose)
    assume "Servers (config rn) \<noteq> []"
    moreover have "removeID (Servers (config rn)) i = Servers (config rn)"
      using that by (auto simp: removeID_def filter_id_conv containsVoter_def)
    ultimately show "Servers (withoutMember i (config rn)) \<noteq> []"
      by (simp add: withoutMember_def)
  qed
  then show ?thesis
    by (simp add: RemoveMember_def sound_refl sound_RemoveMember_resume split: option.splits)
qed

lemma promoteLoop_config:
  assumes "set ids \<subseteq> set (Learners (config rn))"
  shows "config (promoteLoop G now ids rn) = config rn \<or>
    (\<exists>i \<in> set (Learners (config rn)). Servers (config (promoteLoop G now ids rn)) = Servers (config rn) @ [i] \<and>
       Learners (config (promoteLoop G now ids rn)) = removeID (Learners (config rn)) i)"
  using assms
proof (induction ids arbitrary: rn)
  case (Cons i ids)
  have fresh: "?case" if "promoteLoop G now (i # ids) rn = promoteLoop G now ids rn'"
      "config rn' = config rn" for rn'
    using Cons.IH [of rn'] Cons.prems that by simp
  let ?nxt = "(config rn)\<lparr>Learners := removeID (Learners (config rn)) i, Servers := Servers (config rn) @ [i]\<rparr>"
  have prp: "?case" if "config (promoteLoop G now (i # ids) rn) = config (snd (proposeConfigLocked G ?nxt rn))"
    using that config_proposeConfig [of G ?nxt rn] Cons.prems by auto
  show ?case
  proof (cases "i = rnId rn")
    case True
    then show ?thesis by (intro fresh [of rn]) simp_all
  next
    case False
    show ?thesis
    proof (cases "learnerRounds rn i")
      case None
      then show ?thesis using False by (intro fresh) (simp, simp)
    next
      case (Some r)
      consider "matchIndex rn i < lrTarget r"
        | "\<not> matchIndex rn i < lrTarget r" "now - lrStart r > promoteRoundMax"
        | "\<not> matchIndex rn i < lrTarget r" "\<not> now - lrStart r > promoteRoundMax"
          "\<not> reachableQuorumLocked now ?nxt rn"
        | "\<not> matchIndex rn i < lrTarget r" "\<not> now - lrStart r > promoteRoundMax"
          "reachableQuorumLocked now ?nxt rn"
        by blast
      then show ?thesis
      proof cases
        case 1
        then show ?thesis using False Some by (intro fresh [of rn]) simp_all
      next
        case 2
        then show ?thesis using False Some by (intro fresh) (simp, simp)
      next
        case 3
        then show ?thesis using False Some by (intro fresh) (simp add: Let_def, simp)
      next
        case 4
        then show ?thesis
          using False Some
          by (intro prp) (simp add: Let_def split: prod.splits sum.splits)
      qed
    qed
  qed
qed simp

lemma sound_tick:
  assumes "set (Learners (config rn)) \<inter> set (Servers (config rn)) = {}"
  shows "sound rn (tickHeartbeat G now rn)"
proof -
  let ?h = "heartbeatLocked rn"
  note h = cview_fields [OF cview_kicks(3) [of rn]]
  have "sound rn (promoteLoop G now (Learners (config rn)) rn1)"
    if "role rn = RoleLeader" "configIndex rn \<le> commitIndex rn" "config rn1 = config rn" for rn1
    using promoteLoop_config [of "Learners (config rn)" rn1 G now] that assms
    by (auto simp: sound_def oneChange_def)
  then show ?thesis
    by (simp add: tickHeartbeat_def maybePromoteLearnersLocked_def Let_def h sound_refl)
      (simp add: sound_def h)
qed

text \<open>The sections of \<open>membership.go\<close> that propose a configuration.\<close>

inductive changeOp :: "gob \<Rightarrow> RaftNode \<Rightarrow> RaftNode \<Rightarrow> bool" for G where
  add: "changeOp G rn (snd (AddMember G now i addr known rn))"
| add_resume: "changeOp G rn (snd (AddMember_resume G now dl i addr known rn))"
| remove: "changeOp G rn (snd (RemoveMember G now i rn))"
| remove_resume: "changeOp G rn (snd (RemoveMember_resume G now dl i rn))"
| promote: "changeOp G rn (tickHeartbeat G now rn)"

lemma changeOp_sound:
  assumes "changeOp G rn rn'" "set (Learners (config rn)) \<inter> set (Servers (config rn)) = {}"
  shows "sound rn rn'"
  using assms
proof cases
  case (add now i addr known)
  then show ?thesis by (simp add: sound_AddMember)
next
  case (add_resume now dl i addr known)
  then show ?thesis by (simp add: sound_AddMember_resume)
next
  case (remove now i)
  then show ?thesis by (simp add: sound_RemoveMember)
next
  case (remove_resume now dl i)
  then show ?thesis by (simp add: sound_RemoveMember_resume)
next
  case (promote now)
  then show ?thesis using assms(2) by (simp add: sound_tick)
qed

text \<open>Voters and learners stay disjoint, but for the race of two calls of \<open>AddMember\<close>.\<close>

definition apart :: "Configuration \<Rightarrow> bool" where
  "apart c \<longleftrightarrow> set (Learners c) \<inter> set (Servers c) = {}"

lemma apart_propose:
  "apart (config rn) \<Longrightarrow> apart nxt \<Longrightarrow> apart (config (snd (proposeConfigLocked G nxt rn)))"
  using config_proposeConfig [of G nxt rn] by auto

lemma apart_AddMember_resume:
  assumes "apart (config rn)" "\<not> containsVoter (config rn) i"
  shows "apart (config (snd (AddMember_resume G now dl i addr known rn)))"
proof -
  have "apart (withLearner i addr known (config rn))"
    using assms by (auto simp: apart_def withLearner_lists containsVoter_def)
  then show ?thesis
    using assms(1) by (auto simp: AddMember_resume_def proposed_snd intro: apart_propose split: wait_poll.splits option.splits)
qed

lemma apart_AddMember: "apart (config rn) \<Longrightarrow> apart (config (snd (AddMember G now i addr known rn)))"
  by (simp add: AddMember_def apart_AddMember_resume split: option.splits)

lemma apart_RemoveMember_propose: "apart (config rn) \<Longrightarrow> apart (config (snd (RemoveMember_propose G i rn)))"
  by (auto simp: RemoveMember_propose_def proposed_snd apart_def withoutMember_def removeID_def
      dest: set_rev_mp intro!: apart_propose [unfolded apart_def] split: option.splits)

lemma apart_RemoveMember_resume: "apart (config rn) \<Longrightarrow> apart (config (snd (RemoveMember_resume G now dl i rn)))"
  by (simp add: RemoveMember_resume_def apart_RemoveMember_propose split: wait_poll.splits)

lemma apart_RemoveMember: "apart (config rn) \<Longrightarrow> apart (config (snd (RemoveMember G now i rn)))"
  by (simp add: RemoveMember_def apart_RemoveMember_propose apart_RemoveMember_resume split: option.splits)

lemma apart_promote:
  assumes "apart (config rn)" "set ids \<subseteq> set (Learners (config rn))"
  shows "apart (config (promoteLoop G now ids rn))"
  using promoteLoop_config [OF assms(2), of G now] assms(1) by (auto simp: apart_def removeID_def)

lemma apart_tick:
  assumes "apart (config rn)"
  shows "apart (config (tickHeartbeat G now rn))"
proof -
  note h = cview_fields [OF cview_kicks(3) [of rn]]
  show ?thesis
    using assms by (simp add: tickHeartbeat_def maybePromoteLearnersLocked_def Let_def h apart_promote)
qed

lemma changeOp_apart:
  assumes "changeOp G rn rn'" "apart (config rn)"
  shows "apart (config rn') \<or> (\<exists>now dl i addr known. containsVoter (config rn) i \<and>
    rn' = snd (AddMember_resume G now dl i addr known rn))"
  using assms
proof cases
  case (add_resume now dl i addr known)
  then show ?thesis using apart_AddMember_resume assms(2) by blast
qed (simp_all add: apart_AddMember apart_RemoveMember apart_RemoveMember_resume apart_tick)

text \<open>
  C6: take a configuration with distinct voters, at least one, none of them also
  a learner. Whatever \<open>AddMember\<close>, \<open>RemoveMember\<close> or the promotion of a learner makes of it, a
  majority of the voters before and a majority of the voters after have a node in common, the
  voters stay pairwise distinct and are never all removed, and the configuration is replaced
  only on a leader whose last configuration is committed. Voters and learners stay disjoint as
  well, unless the step is the second half of an \<open>AddMember\<close> for a node that has become a voter
  since its first half.
\<close>

theorem quorums_overlap:
  assumes "changeOp G rn rn'" and "distinct (Servers (config rn))" and "Servers (config rn) \<noteq> []"
    and "set (Learners (config rn)) \<inter> set (Servers (config rn)) = {}"
  shows "distinct (Servers (config rn')) \<and> Servers (config rn') \<noteq> [] \<and>
    (\<forall>q q'. majority (config rn) q \<longrightarrow> majority (config rn') q' \<longrightarrow> q \<inter> q' \<noteq> {}) \<and>
    (config rn' \<noteq> config rn \<longrightarrow> role rn = RoleLeader \<and> configIndex rn \<le> commitIndex rn) \<and>
    (set (Learners (config rn')) \<inter> set (Servers (config rn')) = {} \<or>
     (\<exists>now dl i addr known. containsVoter (config rn) i \<and> rn' = snd (AddMember_resume G now dl i addr known rn)))"
proof -
  have s: "sound rn rn'"
    by (rule changeOp_sound [OF assms(1,4)])
  then have one: "oneChange (config rn) (config rn')"
    by (auto simp: sound_def oneChange_def)
  show ?thesis
    using s assms(3) oneChange_voters(1) [OF assms(2) one] neighbour_majorities [OF assms(2) one]
      changeOp_apart [OF assms(1)] assms(4)
    unfolding sound_def apart_def by auto
qed

lemma config_proposeConfig_ok:
  assumes "fst (proposeConfigLocked G nxt rn) = Inr r"
  shows "config (snd (proposeConfigLocked G nxt rn)) = nxt"
proof (cases "gobEncode G nxt")
  case (Some cmd)
  obtain e ch rn1 where a: "appendEntryLocked EntryConfig cmd rn = ((e, ch), rn1)"
    by (metis prod.exhaust)
  obtain err rn2 where q: "enqueueLocked [e] rn1 = (err, rn2)"
    by (cases "enqueueLocked [e] rn1")
  show ?thesis
    using assms by (simp add: proposeConfigLocked_def Some a q config_setConfig
        cview_fields [OF cview_kicks(1)] cview_fields [OF cview_kicks(2)] split: if_splits option.splits)
qed (use assms in \<open>simp add: proposeConfigLocked_def\<close>)

lemma proposeConfig_accepted:
  assumes "gobEncode G nxt = Some cmd" "length cmd \<le> maxConfigBytes"
    and "\<not> sQClosed (store rn)" "sQFailed (store rn) = None"
  obtains r where "fst (proposeConfigLocked G nxt rn) = Inr r"
proof -
  obtain e ch rn1 where a: "appendEntryLocked EntryConfig cmd rn = ((e, ch), rn1)"
    by (metis prod.exhaust)
  then have "store rn1 = store rn"
    by (auto simp: appendEntryLocked_def Let_def setLog_def)
  then obtain rn2 where "enqueueLocked [e] rn1 = (None, rn2)"
    using assms(3,4) by (simp add: enqueueLocked_def enqueue_def)
  then show ?thesis
    using assms(1,2) a that by (simp add: proposeConfigLocked_def)
qed

text \<open>
  C30: \<open>AddMember\<close> looks whether the node is a member before it
  waits for a quorum, and not again after the wait, when another call may have added the
  node. On a leader that can start a change and reaches a quorum, with a log that takes the
  entry, the second half of the call is accepted although the node is a learner or a voter by
  then: it is appended to the learners again, so that it is listed twice.
\<close>

theorem add_member_rechecks_nothing:
  assumes "IsMember (config rn) i" and "beginChangeLocked rn = None" "reachableQuorumLocked now (config rn) rn"
    and "gobEncode G (withLearner i addr known (config rn)) = Some cmd" "length cmd \<le> maxConfigBytes"
    and "\<not> sQClosed (store rn)" "sQFailed (store rn) = None"
  shows "\<exists>e ch rn'. AddMember_resume G now dl i addr known rn = (ChangeWaitApplied e ch, rn') \<and>
    Learners (config rn') = Learners (config rn) @ [i] \<and> Servers (config rn') = Servers (config rn) \<and>
    \<not> distinct (Servers (config rn') @ Learners (config rn'))"
proof -
  let ?nxt = "withLearner i addr known (config rn)"
  let ?p = "proposeConfigLocked G ?nxt rn"
  obtain r where r: "fst ?p = Inr r"
    by (rule proposeConfig_accepted [OF assms(4-7)])
  obtain e ch where ec: "r = (e, ch)" by fastforce
  have "AddMember_resume G now dl i addr known rn = proposed ?p"
    using assms(2,3) by (simp add: AddMember_resume_def waitQuorumLocked_def)
  also have "\<dots> = (ChangeWaitApplied e ch, snd ?p)"
    using r ec by (cases ?p) (simp add: proposed_def)
  finally have "AddMember_resume G now dl i addr known rn = (ChangeWaitApplied e ch, snd ?p)" .
  moreover have "i \<in> set (Servers (config rn)) \<union> set (Learners (config rn))"
    using assms(1) by (auto simp: IsMember_def containsVoter_def isLearner_def)
  ultimately show ?thesis
    using config_proposeConfig_ok [OF r] by (auto simp: withLearner_lists)
qed


text \<open>A leader of one voter and one of two voters, each with a learner.\<close>

definition exampleLeader :: RaftNode where
  "exampleLeader = (exampleNode ''a'' [''a''])
     \<lparr>role := RoleLeader, config := \<lparr>Servers = [''a''], Learners = [''b''], Addrs = []\<rparr>\<rparr>"

definition exampleLeader2 :: RaftNode where
  "exampleLeader2 = exampleLeader\<lparr>config := \<lparr>Servers = [''a'', ''b''], Learners = [''c''], Addrs = []\<rparr>\<rparr>"

text \<open>A codec that writes the names of the members, each ended by a zero byte.\<close>

definition namesGob :: gob where
  "namesGob = exampleGob\<lparr>gobEncode := (\<lambda>c. Some (concat (map (\<lambda>s. map of_char s @ [0]) (Servers c @ Learners c))))\<rparr>"

theorem add_member_rechecks_nothing_witness:
  "\<exists>e ch rn'. AddMember_resume namesGob 0 0 ''b'' [] [] exampleLeader = (ChangeWaitApplied e ch, rn') \<and>
     Learners (config rn') = [''b'', ''b'']"
proof -
  have b: "IsMember (config exampleLeader) ''b''" "beginChangeLocked exampleLeader = None"
    "reachableQuorumLocked 0 (config exampleLeader) exampleLeader"
    by (simp_all add: exampleLeader_def exampleNode_def beginChangeLocked_def reachableQuorumLocked_def
        IsMember_def isLearner_def containsVoter_def)
  have c: "\<exists>cmd. gobEncode namesGob (withLearner ''b'' [] [] (config exampleLeader)) = Some cmd \<and>
      length cmd \<le> maxConfigBytes"
    by (simp add: namesGob_def withLearner_lists exampleLeader_def maxConfigBytes_def snap_consts)
  have s: "\<not> sQClosed (store exampleLeader)" "sQFailed (store exampleLeader) = None"
    by (simp_all add: exampleLeader_def exampleNode_def freshStore_def)
  have "Learners (config exampleLeader) = [''b'']"
    by (simp add: exampleLeader_def)
  with add_member_rechecks_nothing [OF b _ _ s, of namesGob "[]" "[]" _ 0] c show ?thesis by fastforce
qed

text \<open>The leader removes the other voter.\<close>

lemma exampleLeader2_removes:
  "config (snd (RemoveMember namesGob 0 ''b'' exampleLeader2)) =
     \<lparr>Servers = [''a''], Learners = [''c''], Addrs = []\<rparr>"
proof -
  let ?nxt = "\<lparr>Servers = [''a''], Learners = [''c''], Addrs = []\<rparr>"
  have w: "withoutMember ''b'' (config exampleLeader2) = ?nxt"
    by (simp add: withoutMember_def exampleLeader2_def removeID_def)
  have enc: "gobEncode namesGob ?nxt = Some [97, 0, 99, 0]" by (simp add: namesGob_def)
  have "length [97 :: byte, 0, 99, 0] \<le> maxConfigBytes" "\<not> sQClosed (store exampleLeader2)"
      "sQFailed (store exampleLeader2) = None"
    by (simp_all add: maxConfigBytes_def snap_consts exampleLeader2_def exampleLeader_def exampleNode_def freshStore_def)
  then obtain r where r: "fst (proposeConfigLocked namesGob ?nxt exampleLeader2) = Inr r"
    using proposeConfig_accepted [OF enc] by blast
  have "beginChangeLocked exampleLeader2 = None" "IsMember (config exampleLeader2) ''b''"
      "containsVoter (config exampleLeader2) ''b''" "length (Servers (config exampleLeader2)) = 2"
      "waitQuorumLocked 0 (0 + leaderContactGrace) ?nxt exampleLeader2 = WaitYes"
    by (simp_all add: exampleLeader2_def exampleLeader_def exampleNode_def beginChangeLocked_def
        waitQuorumLocked_def reachableQuorumLocked_def IsMember_def containsVoter_def)
  then show ?thesis
    using config_proposeConfig_ok [OF r]
    by (simp add: RemoveMember_def RemoveMember_resume_def RemoveMember_propose_def w proposed_snd)
qed

theorem quorums_overlap_witness:
  "\<exists>rn'. changeOp namesGob exampleLeader2 rn' \<and> Servers (config exampleLeader2) = [''a'', ''b''] \<and>
     Servers (config rn') = [''a''] \<and>
     (\<forall>q q'. majority (config exampleLeader2) q \<longrightarrow> majority (config rn') q' \<longrightarrow> q \<inter> q' \<noteq> {})"
proof -
  let ?rn = "snd (RemoveMember namesGob 0 ''b'' exampleLeader2)"
  have c: "distinct (Servers (config exampleLeader2))" "Servers (config exampleLeader2) \<noteq> []"
    "set (Learners (config exampleLeader2)) \<inter> set (Servers (config exampleLeader2)) = {}"
    by (simp_all add: exampleLeader2_def)
  have op: "changeOp namesGob exampleLeader2 ?rn" by (rule changeOp.remove)
  have "Servers (config exampleLeader2) = [''a'', ''b'']" by (simp add: exampleLeader2_def)
  with quorums_overlap [OF op c] op exampleLeader2_removes show ?thesis
    by (intro exI [of _ ?rn]) simp
qed

end
