(* ===== verification/RaftTransfer.thy ===== *)
theory RaftTransfer
  imports RaftSnapshot
begin

text \<open>
  The chunked transfer of a snapshot file. Chunks may be lost, repeated, delayed past a newer
  transfer or cut off by a crash of the leader; what the follower holds is always a prefix of
  the one file the transfer names, and the install only ever starts on the whole of it. With
  an undisturbed connection the transfer completes.
\<close>

section \<open>What the follower holds\<close>

type_synonym transferKey = "nat \<times> nat \<times> nat \<times> nat"

definition recvKey :: "snapRecv \<Rightarrow> transferKey" where
  "recvKey st = (srIndex st, srTerm st, srID st, srSize st)"

definition metaKey :: "snapshotMeta \<Rightarrow> transferKey" where
  "metaKey meta = (smIndex meta, smTerm meta, smID meta, FileSize meta)"

text \<open>
  The chunks leaders send. \<open>files\<close> gives the file of a transfer's name: the identity of a
  capture is a random 64-bit number, so two leaders that send under one name send one file.
\<close>

definition sentChunk :: "(transferKey \<Rightarrow> bytes) \<Rightarrow> InstallSnapshotChunkArgs \<Rightarrow> bool" where
  "sentChunk files args \<longleftrightarrow> (\<exists>term leader meta chunk off.
     length (files (metaKey meta)) = FileSize meta \<and> off \<le> FileSize meta \<and>
     args = chunkArgs term leader meta chunk (files (metaKey meta)) off)"

inductive recvStep :: "(transferKey \<Rightarrow> bytes) \<Rightarrow> RaftNode \<Rightarrow> RaftNode \<Rightarrow> bool" for files where
  chunk: "sentChunk files args \<Longrightarrow>
    recvStep files rn (snd (HandleInstallSnapshotChunk now openOk writeOk args rn))"
| finished: "recv rn = Some r \<Longrightarrow> srState r = recvInstalling \<Longrightarrow> st = recvInstalled \<or> st = recvFailed \<Longrightarrow>
    recvStep files rn (finishReceive st rn)"
| other: "recv rn' = recv rn \<Longrightarrow> recvStep files rn rn'"

definition transferOk :: "(transferKey \<Rightarrow> bytes) \<Rightarrow> snapRecv \<Rightarrow> bool" where
  "transferOk files st \<longleftrightarrow> length (files (recvKey st)) = srSize st \<and>
     srWritten st \<le> srSize st \<and> srFile st = take (srWritten st) (files (recvKey st)) \<and>
     (srState st \<noteq> recvReceiving \<longrightarrow> srWritten st = srSize st)"

definition recvOk :: "(transferKey \<Rightarrow> bytes) \<Rightarrow> RaftNode \<Rightarrow> bool" where
  "recvOk files rn \<longleftrightarrow> (case recv rn of None \<Rightarrow> True | Some st \<Rightarrow> transferOk files st)"

lemma sentChunk_fields:
  assumes "sentChunk files args"
  shows "length (files (icIndex args, icLastTerm args, icID args, icSize args)) = icSize args"
    "\<exists>n. icData args = take n (drop (icOffset args) (files (icIndex args, icLastTerm args, icID args, icSize args)))"
proof -
  obtain tm leader meta chunk off where
    l: "length (files (metaKey meta)) = FileSize meta"
    and a: "args = chunkArgs tm leader meta chunk (files (metaKey meta)) off"
    using assms unfolding sentChunk_def by blast
  have k: "(icIndex args, icLastTerm args, icID args, icSize args) = metaKey meta"
    by (simp add: a chunkArgs_def metaKey_def Let_def)
  show "length (files (icIndex args, icLastTerm args, icID args, icSize args)) = icSize args"
    unfolding k using l by (simp add: a chunkArgs_def Let_def)
  have "icData args = take (if off < FileSize meta then
      (if off + chunk > FileSize meta then FileSize meta - off else chunk) else 0)
      (drop (icOffset args) (files (metaKey meta)))"
    by (simp add: a chunkArgs_def Let_def)
  then show "\<exists>n. icData args = take n (drop (icOffset args) (files (icIndex args, icLastTerm args, icID args, icSize args)))"
    unfolding k by blast
qed

lemma recvOk_receiveChunk:
  assumes st: "transferOk files st" and rcv: "srState st = recvReceiving"
    and m: "matches st args" and sent: "sentChunk files args"
  shows "recvOk files (snd (receiveChunk writeOk args st reply rn))"
proof (cases "icOffset args \<noteq> srWritten st \<or> srWritten st + length (icData args) > srSize st")
  case True
  then show ?thesis using st by (simp add: receiveChunk_def recvOk_def)
next
  case False
  let ?f = "files (recvKey st)"
  have k: "(icIndex args, icLastTerm args, icID args, icSize args) = recvKey st"
    using m by (simp add: matches_def recvKey_def)
  obtain n where n: "icData args = take n (drop (srWritten st) ?f)"
    using sentChunk_fields(2) [OF sent] False unfolding k by auto
  define st1 where "st1 = st\<lparr>srFile := srFile st @ icData args,
     srWritten := srWritten st + length (icData args)\<rparr>"
  have "srFile st @ icData args = take (srWritten st + length (icData args)) ?f"
  proof -
    have "take (length (icData args)) (drop (srWritten st) ?f) = icData args"
      unfolding n by (metis length_take min.commute take_all take_take le_refl)
    then show ?thesis
      using st by (simp add: transferOk_def take_add)
  qed
  then have ok: "transferOk files st1"
    using st False rcv by (simp add: transferOk_def st1_def recvKey_def)
  have ok': "transferOk files (st1\<lparr>srState := s\<rparr>)" if "srWritten st1 = srSize st1" for s
    using ok that by (simp add: transferOk_def recvKey_def)
  have "recvOk files (snd (receiveChunk writeOk args st reply rn))"
    if "\<not> (icData args \<noteq> [] \<and> \<not> writeOk)"
    using False that ok ok'
    unfolding receiveChunk_def st1_def [symmetric] Let_def
    by (simp add: recvOk_def)
  then show ?thesis
    using False by (cases "icData args \<noteq> [] \<and> \<not> writeOk") (auto simp: receiveChunk_def recvOk_def)
qed

lemma recv_startReplicators: "recv (startReplicators t ps' rn) = recv rn"
  by (induction ps' arbitrary: rn) (simp_all add: Let_def)

lemma recv_syncReplicators: "recv (syncReplicatorsLocked rn) = recv rn"
  by (simp add: syncReplicatorsLocked_def Let_def recv_startReplicators split: prod.splits)

lemma recv_persistMeta: "recv (snd (persistMetaLocked rn)) = recv rn"
  by (auto simp: persistMetaLocked_def popMetaIO_def split: prod.splits list.splits)

lemma recv_becomeFollower: "recv (becomeFollower t rn) = recv rn"
  by (simp add: becomeFollower_def failWaitersLocked_def kickSyncerLocked_def recv_persistMeta
      recv_syncReplicators Let_def)

lemma recv_acceptLeader: "recv (snd (acceptLeaderLocked now t l rn)) = recv rn"
  using recv_persistMeta [of "becomeFollower t rn"]
  by (simp add: acceptLeaderLocked_def noteLeaderContactLocked_def resetElectionTimer_def
      recv_becomeFollower case_prod_unfold Let_def)

lemma recvOk_chunk:
  assumes ok: "recvOk files rn" and sent: "sentChunk files args"
  shows "recvOk files (snd (HandleInstallSnapshotChunk now openOk writeOk args rn))"
proof -
  obtain acc rn1 where a: "acceptLeaderLocked now (icTerm args) (icLeaderID args) rn = (acc, rn1)"
    by (cases "acceptLeaderLocked now (icTerm args) (icLeaderID args) rn")
  then have r: "recv rn1 = recv rn"
    using recv_acceptLeader [of now "icTerm args" "icLeaderID args" rn] by simp
  let ?fresh = "\<lparr>srIndex = icIndex args, srTerm = icLastTerm args, srID = icID args,
     srSize = icSize args, srFile = [], srWritten = 0, srState = recvReceiving\<rparr>"
  have "transferOk files ?fresh"
    using sentChunk_fields(1) [OF sent] by (simp add: transferOk_def recvKey_def)
  then have fresh: "recvOk files (snd (receiveChunk writeOk args ?fresh reply rn1))" for reply
    using sent by (intro recvOk_receiveChunk) (simp_all add: matches_def)
  have old: "recvOk files (snd (receiveChunk writeOk args st reply rn1))"
    if "recv rn = Some st" "matches st args" "srState st = recvReceiving" for st reply
    using that ok sent by (intro recvOk_receiveChunk) (simp_all add: recvOk_def)
  have none: "recvOk files (rn1\<lparr>recv := None\<rparr>)"
    by (simp add: recvOk_def)
  have same: "recvOk files rn1"
    using ok r by (simp add: recvOk_def)
  show ?thesis
    using ok a r same none fresh old
    by (simp add: HandleInstallSnapshotChunk_def Let_def split: option.splits recvState.splits)
qed

lemma recvOk_step: "recvStep files rn rn' \<Longrightarrow> recvOk files rn \<Longrightarrow> recvOk files rn'"
proof (induction rule: recvStep.induct)
  case (finished rn r st)
  then show ?case
    by (simp add: recvOk_def finishReceive_def transferOk_def recvKey_def)
next
  case (other rn' rn)
  then show ?case by (simp add: recvOk_def)
qed (simp add: recvOk_chunk)

text \<open>
  C14: from a node that is receiving nothing, through any sequence of
  chunks in any order, repeated or lost, of transfers by any leaders, with failing writes in
  between: a transfer that has reached its install, or ended it, holds byte for byte the file
  its leader pinned, and one still receiving holds a prefix of it.
\<close>

theorem install_whole_file:
  assumes "recv rn = None" and "(recvStep files)\<^sup>*\<^sup>* rn rn'" and "recv rn' = Some st"
  shows "(srState st \<noteq> recvReceiving \<longrightarrow> srFile st = files (recvKey st)) \<and>
    srFile st = take (srWritten st) (files (recvKey st)) \<and> srWritten st \<le> srSize st"
proof -
  have "recvOk files rn"
    using assms(1) by (simp add: recvOk_def)
  with assms(2) have "recvOk files rn'"
    by (induction rule: rtranclp_induct) (auto intro: recvOk_step)
  then show ?thesis
    using assms(3) by (auto simp: recvOk_def transferOk_def)
qed

section \<open>The transfer completes\<close>

text \<open>
  The leader's loop against the follower's handler with a connection that loses nothing:
  rounds of one chunk until the follower says that it is installing.
\<close>

fun deliver ::
  "nat \<Rightarrow> int \<Rightarrow> string \<Rightarrow> nat \<Rightarrow> nat \<Rightarrow> snapshotMeta \<Rightarrow> bytes \<Rightarrow> nat \<Rightarrow> RaftNode \<Rightarrow> RaftNode \<Rightarrow>
   RaftNode option" where
  "deliver 0 now peer t chunk meta bs off ld fl = None"
| "deliver (Suc k) now peer t chunk meta bs off ld fl =
     (case sendSnapshotChunks_prepare False True t chunk meta bs off ld of
        (None, _) \<Rightarrow> None
      | (Some args, ld1) \<Rightarrow>
          let (reply, fl1) = HandleInstallSnapshotChunk now True True args fl
          in if icrInstalling reply then Some fl1
             else case sendSnapshotChunks_reply peer t meta args (Some reply) True ld1 of
                    (ChunkStop _, _) \<Rightarrow> None
                  | (ChunkNext off', ld2) \<Rightarrow> deliver k now peer t chunk meta bs off' ld2 fl1)"

definition leads :: "nat \<Rightarrow> RaftNode \<Rightarrow> bool" where
  "leads t ld \<longleftrightarrow> role ld = RoleLeader \<and> curTerm ld = t \<and> \<not> stopped ld"

definition follows :: "nat \<Rightarrow> snapshotMeta \<Rightarrow> RaftNode \<Rightarrow> bool" where
  "follows t meta fl \<longleftrightarrow> curTerm fl = t \<and> \<not> stopped fl \<and> \<not> legacyPeer fl \<and>
     lastIncludedIndex fl < smIndex meta \<and> lastApplied fl < smIndex meta"

lemma stillLeading_leads: "leads t ld \<Longrightarrow> t' \<le> t \<Longrightarrow> stillLeading t t' ld = (True, ld)"
  by (simp add: leads_def stillLeading_def)

lemma acceptLeader_follows:
  assumes "follows t meta fl"
  obtains fl1 where "acceptLeaderLocked now t l fl = (True, fl1)" "follows t meta fl1" "recv fl1 = recv fl"
  using assms that by (simp add: acceptLeaderLocked_def follows_def noteLeaderContactLocked_def
      resetElectionTimer_def)

text \<open>The state of a transfer that has received \<open>off\<close> bytes.\<close>

definition halfway :: "snapshotMeta \<Rightarrow> bytes \<Rightarrow> nat \<Rightarrow> RaftNode \<Rightarrow> bool" where
  "halfway meta bs off fl \<longleftrightarrow>
     (case recv fl of
        None \<Rightarrow> off = 0
      | Some st \<Rightarrow> recvKey st = metaKey meta \<and> srState st = recvReceiving \<and> srWritten st = off \<and>
          srFile st = take off bs)"

lemma deliver_round:
  assumes f: "follows t meta fl" and h: "halfway meta bs off fl" and len: "length bs = FileSize meta"
    and off: "off < FileSize meta" and chunk: "0 < chunk"
  defines "n \<equiv> min chunk (FileSize meta - off)"
  obtains (more) fl1 where "off + n < FileSize meta" "follows t meta fl1" "halfway meta bs (off + n) fl1"
      "HandleInstallSnapshotChunk now True True (chunkArgs t l meta chunk bs off) fl =
        (\<lparr>icrTerm = t, icrNextOffset = off + n, icrInstalling = False, icrInstalled = False,
          icrBusy = False, icrFailed = False\<rparr>, fl1)"
    | (installing) reply fl1 st where "recv fl1 = Some st" "srState st = recvInstalling" "srFile st = bs"
      "icrInstalling reply"
      "HandleInstallSnapshotChunk now True True (chunkArgs t l meta chunk bs off) fl = (reply, fl1)"
proof -
  define a0 where "a0 = chunkArgs t l meta chunk bs off"
  have a: "icTerm a0 = t" "icLeaderID a0 = l" "icIndex a0 = smIndex meta" "icLastTerm a0 = smTerm meta"
    "icID a0 = smID meta" "icSize a0 = FileSize meta" "icOffset a0 = off"
    "icData a0 = take n (drop off bs)" "icDone a0 \<longleftrightarrow> off + n = FileSize meta"
    using off by (auto simp: a0_def chunkArgs_def Let_def n_def min_def)
  have n: "0 < n" "off + n \<le> FileSize meta" "length (take n (drop off bs)) = n"
    using off chunk len by (auto simp: n_def)
  obtain fl1 where acc: "acceptLeaderLocked now t l fl = (True, fl1)" "follows t meta fl1" "recv fl1 = recv fl"
    by (rule acceptLeader_follows [OF f])
  let ?reply = "\<lparr>icrTerm = t, icrNextOffset = 0, icrInstalling = False, icrInstalled = False,
     icrBusy = False, icrFailed = False\<rparr>"
  obtain st where st: "recvKey st = metaKey meta" "srState st = recvReceiving" "srWritten st = off"
      "srFile st = take off bs"
      "HandleInstallSnapshotChunk now True True a0 fl = receiveChunk True a0 st ?reply fl1"
  proof (cases "recv fl")
    case None
    let ?st = "\<lparr>srIndex = smIndex meta, srTerm = smTerm meta, srID = smID meta,
       srSize = FileSize meta, srFile = [], srWritten = 0, srState = recvReceiving\<rparr>"
    have "off = 0" using h None by (simp add: halfway_def)
    moreover have "HandleInstallSnapshotChunk now True True a0 fl = receiveChunk True a0 ?st ?reply fl1"
      using f acc None \<open>off = 0\<close> by (simp add: HandleInstallSnapshotChunk_def a follows_def Let_def)
    ultimately show ?thesis
      using that [of ?st] by (simp add: recvKey_def metaKey_def)
  next
    case (Some st)
    have s: "recvKey st = metaKey meta" "srState st = recvReceiving" "srWritten st = off"
      "srFile st = take off bs"
      using h Some by (simp_all add: halfway_def)
    then have "matches st a0"
      by (simp add: matches_def a recvKey_def metaKey_def)
    then have "HandleInstallSnapshotChunk now True True a0 fl = receiveChunk True a0 st ?reply fl1"
      using f acc Some s by (simp add: HandleInstallSnapshotChunk_def a follows_def Let_def)
    then show ?thesis using that s by blast
  qed
  have size: "srSize st = FileSize meta"
    using st(1) by (simp add: recvKey_def metaKey_def)
  let ?st = "st\<lparr>srFile := take off bs @ take n (drop off bs), srWritten := off + n\<rparr>"
  show ?thesis
  proof (cases "off + n = FileSize meta")
    case True
    have "take off bs @ take n (drop off bs) = bs"
      using True len by (simp add: take_add [symmetric])
    then have "receiveChunk True a0 st ?reply fl1 =
        (?reply\<lparr>icrNextOffset := off + n, icrInstalling := True\<rparr>,
         fl1\<lparr>recv := Some (?st\<lparr>srState := recvInstalling\<rparr>), installing := installing fl1 + 1\<rparr>)"
      using st(2-4) n True acc(2) by (simp add: receiveChunk_def a size follows_def)
    with st(5) show ?thesis
      using \<open>take off bs @ take n (drop off bs) = bs\<close>
      by (intro installing [unfolded a0_def [symmetric], where st = "?st\<lparr>srState := recvInstalling\<rparr>"]) simp_all
  next
    case False
    have fo: "follows t meta (fl1\<lparr>recv := Some ?st\<rparr>)"
      using acc(2) by (simp add: follows_def)
    have ha: "halfway meta bs (off + n) (fl1\<lparr>recv := Some ?st\<rparr>)"
      using st by (simp add: halfway_def recvKey_def take_add)
    have "receiveChunk True a0 st ?reply fl1 =
        (?reply\<lparr>icrNextOffset := off + n\<rparr>, fl1\<lparr>recv := Some ?st\<rparr>)"
      using st(2-4) n False by (simp add: receiveChunk_def a size)
    with st(5) show ?thesis
      using n False by (intro more [unfolded a0_def [symmetric], OF _ fo ha]) simp_all
  qed
qed

lemma deliver_completes:
  assumes "leads t ld" "follows t meta fl" "halfway meta bs off fl" "length bs = FileSize meta"
    "off < FileSize meta" "FileSize meta - off \<le> k"
  shows "\<exists>fl' st. deliver k now peer t chunk meta bs off ld fl = Some fl' \<and> recv fl' = Some st \<and>
    srState st = recvInstalling \<and> srFile st = bs"
  using assms
proof (induction k arbitrary: off ld fl)
  case (Suc k)
  define ck where "ck = (if chunk = 0 then DefaultSnapshotChunkSize else chunk)"
  define n where "n = min ck (FileSize meta - off)"
  have c: "0 < ck"
    by (simp add: ck_def DefaultSnapshotChunkSize_def)
  have lead: "stillLeading t 0 ld = (True, ld)" "stillLeading t t ld = (True, ld)"
    using Suc.prems(1) by (simp_all add: stillLeading_leads)
  have p: "sendSnapshotChunks_prepare False True t chunk meta bs off ld =
      (Some (chunkArgs t (rnId ld) meta ck bs off), ld)"
    using lead(1) by (simp add: sendSnapshotChunks_prepare_def ck_def)
  from Suc.prems(2-5) c show ?case
  proof (cases rule: deliver_round [of t meta fl bs off ck now "rnId ld"])
    case (more fl1)
    note more = more [folded n_def]
    have "deliver (Suc k) now peer t chunk meta bs off ld fl = deliver k now peer t chunk meta bs (off + n) ld fl1"
      using p more(1,4) lead(2) by (simp add: sendSnapshotChunks_reply_def chunkReply_def)
    moreover have "FileSize meta - (off + n) \<le> k"
      using Suc.prems(5,6) c by (simp add: n_def)
    ultimately show ?thesis
      using Suc.IH [OF Suc.prems(1) more(2,3) Suc.prems(4) more(1)] by simp
  next
    case (installing reply fl1 st)
    then show ?thesis using p by simp
  qed
qed simp

text \<open>
  C15: between a leader and a follower of its term that is behind the
  snapshot, over a connection that loses nothing, the transfer ends: after at most as many
  rounds as the file has bytes, whatever the chunk size, the follower is installing exactly
  the pinned file.
\<close>

theorem transfer_completes:
  assumes "leads t ld" and "follows t meta fl" and "recv fl = None" and "length bs = FileSize meta"
    and "bs \<noteq> []"
  shows "\<exists>fl' st. deliver (FileSize meta) now peer t chunk meta bs 0 ld fl = Some fl' \<and>
    recv fl' = Some st \<and> srState st = recvInstalling \<and> srFile st = bs"
  using assms deliver_completes [of t ld meta fl bs 0 "FileSize meta" now peer chunk]
  by (simp add: halfway_def) (metis length_greater_0_conv)

definition exampleTransfer :: "RaftNode \<times> RaftNode \<times> snapshotMeta" where
  "exampleTransfer = ((exampleNode ''a'' [''a'', ''b''])\<lparr>role := RoleLeader\<rparr>,
     exampleNode ''b'' [''a'', ''b''], exampleSnap)"

theorem transfer_completes_witness:
  "case exampleTransfer of (ld, fl, meta) \<Rightarrow>
     \<exists>fl' st. deliver (FileSize meta) 0 ''b'' 0 2 meta (replicate (FileSize meta) 7) 0 ld fl = Some fl' \<and>
       recv fl' = Some st \<and> srFile st = replicate (FileSize meta) 7"
proof -
  have "FileSize exampleSnap > 0"
    by (simp add: FileSize_def exampleSnap_def snap_consts)
  then have "leads 0 ((exampleNode ''a'' [''a'', ''b''])\<lparr>role := RoleLeader\<rparr>)"
    "follows 0 exampleSnap (exampleNode ''b'' [''a'', ''b''])"
    "recv (exampleNode ''b'' [''a'', ''b'']) = None"
    "length (replicate (FileSize exampleSnap) (7::8 word)) = FileSize exampleSnap"
    "replicate (FileSize exampleSnap) (7::8 word) \<noteq> []"
    by (simp_all add: leads_def follows_def exampleNode_def exampleSnap_def)
  from transfer_completes [OF this, of 0 "''b''" 2] show ?thesis
    unfolding exampleTransfer_def by auto
qed

lemma exampleTransfer_chunk:
  fixes bs :: bytes
  defines "bs \<equiv> replicate (FileSize exampleSnap) 7"
  obtains rn' st where "recvStep (\<lambda>_. bs) (exampleNode ''b'' [''a'', ''b'']) rn'" "recv rn' = Some st"
proof -
  have "FileSize exampleSnap > 0"
    by (simp add: FileSize_def exampleSnap_def snap_consts)
  then have h: "follows 0 exampleSnap (exampleNode ''b'' [''a'', ''b''])"
    "halfway exampleSnap bs 0 (exampleNode ''b'' [''a'', ''b''])"
    "length bs = FileSize exampleSnap" "0 < FileSize exampleSnap" "0 < (2::nat)"
    by (simp_all add: follows_def halfway_def exampleNode_def exampleSnap_def bs_def)
  have "sentChunk (\<lambda>_. bs) (chunkArgs 0 ''a'' exampleSnap 2 bs 0)"
    unfolding sentChunk_def using h(3)
    by (intro exI [of _ exampleSnap] exI [of _ "0::nat"] exI [of _ "2::nat"] exI [of _ "''a''"]) simp
  note step = recvStep.chunk [OF this, of "exampleNode ''b'' [''a'', ''b'']" 0 True True]
  from h show ?thesis
  proof (cases rule: deliver_round [of 0 exampleSnap "exampleNode ''b'' [''a'', ''b'']" bs 0 2 0 "''a''"])
    case (more fl1)
    then show ?thesis
      using that step h(4) by (auto simp: halfway_def split: option.splits)
  next
    case (installing reply fl1 st)
    then show ?thesis using that step by simp
  qed
qed

theorem install_whole_file_witness:
  "\<exists>(rn' :: RaftNode) st. recv rn' = Some st \<and>
     srFile st = take (srWritten st) (replicate (FileSize exampleSnap) 7) \<and> srWritten st \<le> srSize st"
proof -
  obtain rn' st where r: "recvStep (\<lambda>_. replicate (FileSize exampleSnap) 7) (exampleNode ''b'' [''a'', ''b'']) rn'"
    "recv rn' = Some st"
    by (rule exampleTransfer_chunk)
  have "recv (exampleNode ''b'' [''a'', ''b'']) = None"
    by (simp add: exampleNode_def)
  from install_whole_file [OF this r_into_rtranclp [of "recvStep _", OF r(1)] r(2)] r(2)
  show ?thesis by blast
qed

section \<open>Installing into the state machine\<close>

text \<open>
  C31: the loop of \<open>installSnapshot\<close> is meant to retry a failed restore
  until it succeeds. For a state machine that records no applied index it never does: the
  error of the first attempt is kept in a variable declared outside the loop, no later pass
  clears it, and \<open>restoreStateMachine\<close> is called once only, however many passes follow.
\<close>

theorem restore_not_retried:
  "restoreLoop False meta False (RestoreFails # ts) calls =
     (False, calls @ [SMRestore (smIndex meta) (smTerm meta)])"
proof -
  have "restoreLoop False meta True ts calls' = (False, calls')" for calls'
    by (induction ts) simp_all
  then show ?thesis by simp
qed

end
