(* ===== verification/OrderedIndex.thy ===== *)
theory OrderedIndex
  imports Prelude "HOL-Library.List_Lexorder"
begin

text \<open>
  The ordered view of the live keys (\<open>src/storage/ordered_index.go\<close>): a skip list. Nodes live
  in a list indexed by address, the head sentinel is node 0, and a missing next pointer is
  \<open>None\<close>. Operations run one at a time here, so the node locks are not part of the state; the
  validation after locking and the retry loops are kept, and a loop that would spin for ever
  is the value \<open>None\<close>. Keys are ordered bytewise, as Go compares strings.
\<close>

type_synonym addr = nat

definition oiMaxLevel :: nat where "oiMaxLevel = 24"

record oiNode =
  okey :: bytes
  marked :: bool
  fullyLinked :: bool
  topLevel :: nat
  onext :: "addr option list"

record orderedKeyIndex =
  onodes :: "oiNode list"
  oseed :: u64
  osize :: int

abbreviation node :: "orderedKeyIndex \<Rightarrow> addr \<Rightarrow> oiNode" where
  "node oi a \<equiv> onodes oi ! a"

abbreviation nextAt :: "orderedKeyIndex \<Rightarrow> addr \<Rightarrow> nat \<Rightarrow> addr option" where
  "nextAt oi a l \<equiv> onext (node oi a) ! l"

abbreviation keyAt :: "orderedKeyIndex \<Rightarrow> addr \<Rightarrow> bytes" where
  "keyAt oi a \<equiv> okey (node oi a)"

definition newOrderedKeyIndex :: orderedKeyIndex where
  "newOrderedKeyIndex =
     \<lparr>onodes = [\<lparr>okey = [], marked = False, fullyLinked = False, topLevel = oiMaxLevel - 1,
                 onext = replicate oiMaxLevel None\<rparr>],
      oseed = 0, osize = 0\<rparr>"

section \<open>Operations\<close>

text \<open>The level drawn for a new node: pairs of zero bits at the low end, at most 23.\<close>

fun levelLoop :: "nat \<Rightarrow> u64 \<Rightarrow> nat" where
  "levelLoop 0 x = 0"
| "levelLoop (Suc n) x = (if x AND 3 = 0 then Suc (levelLoop n (drop_bit 2 x)) else 0)"

definition randomLevel :: "orderedKeyIndex \<Rightarrow> nat \<times> orderedKeyIndex" where
  "randomLevel oi =
     (let seed = oseed oi + 0x9E3779B97F4A7C15;
          x = seed XOR drop_bit 33 seed; x = x * 0xff51afd7ed558ccd; x = x XOR drop_bit 33 x
      in (levelLoop (oiMaxLevel - 1) x, oi\<lparr>oseed := seed\<rparr>))"

text \<open>One level of a search: move right while the next key satisfies \<open>go\<close>.\<close>

partial_function (option) walk ::
  "(bytes \<Rightarrow> bool) \<Rightarrow> orderedKeyIndex \<Rightarrow> nat \<Rightarrow> addr \<Rightarrow> (addr \<times> addr option) option" where
  "walk go oi level pred =
     (case nextAt oi pred level of
        None \<Rightarrow> Some (pred, None)
      | Some cur \<Rightarrow> if go (keyAt oi cur) then walk go oi level cur else Some (pred, Some cur))"

text \<open>
  \<open>find\<close>: the search from the given number of levels down. \<open>preds\<close> and \<open>succs\<close> are lists
  indexed by level; \<open>lFound\<close> is the highest level at which the key is met.
\<close>

fun findLevels :: "orderedKeyIndex \<Rightarrow> bytes \<Rightarrow> nat \<Rightarrow> addr \<Rightarrow>
    nat option \<times> addr list \<times> addr option list \<Rightarrow>
    (nat option \<times> addr list \<times> addr option list) option" where
  "findLevels oi key 0 pred acc = Some acc"
| "findLevels oi key (Suc level) pred (lFound, preds, succs) =
     (case walk (\<lambda>k. k < key) oi level pred of
        None \<Rightarrow> None
      | Some (pred', cur) \<Rightarrow>
          findLevels oi key level pred'
            (if lFound = None \<and> (case cur of None \<Rightarrow> False | Some c \<Rightarrow> keyAt oi c = key) then Some level
             else lFound,
             pred' # preds, cur # succs))"

definition find_key :: "bytes \<Rightarrow> orderedKeyIndex \<Rightarrow>
    (nat option \<times> addr list \<times> addr option list) option" where
  "find_key key oi = findLevels oi key oiMaxLevel 0 (None, [], [])"

definition setNext :: "addr \<Rightarrow> nat \<Rightarrow> addr option \<Rightarrow> orderedKeyIndex \<Rightarrow> orderedKeyIndex" where
  "setNext a l v oi = oi\<lparr>onodes := (onodes oi)[a := (node oi a)\<lparr>onext := (onext (node oi a))[l := v]\<rparr>]\<rparr>"

definition insertValid :: "orderedKeyIndex \<Rightarrow> nat \<Rightarrow> addr list \<Rightarrow> addr option list \<Rightarrow> bool" where
  "insertValid oi lv preds succs \<longleftrightarrow>
     (\<forall>l < Suc lv. \<not> marked (node oi (preds ! l)) \<and> nextAt oi (preds ! l) l = succs ! l \<and>
        (case succs ! l of None \<Rightarrow> True | Some s \<Rightarrow> \<not> marked (node oi s)))"

definition linkNode :: "bytes \<Rightarrow> nat \<Rightarrow> addr list \<Rightarrow> addr option list \<Rightarrow> orderedKeyIndex \<Rightarrow>
    orderedKeyIndex" where
  "linkNode key lv preds succs oi =
     (let n = length (onodes oi);
          oi1 = oi\<lparr>onodes := onodes oi @
            [\<lparr>okey = key, marked = False, fullyLinked = False, topLevel = lv,
              onext = take (Suc lv) succs\<rparr>]\<rparr>;
          oi2 = fold (\<lambda>l. setNext (preds ! l) l (Some n)) [0..<Suc lv] oi1
      in oi2\<lparr>onodes := (onodes oi2)[n := (node oi2 n)\<lparr>fullyLinked := True\<rparr>],
             osize := osize oi2 + 1\<rparr>)"

partial_function (option) insertLoop ::
  "nat \<Rightarrow> bytes \<Rightarrow> orderedKeyIndex \<Rightarrow> (bool \<times> orderedKeyIndex) option" where
  "insertLoop lv key oi =
     (case find_key key oi of
        None \<Rightarrow> None
      | Some (Some lFound, preds, succs) \<Rightarrow>
          (let found = the (succs ! lFound)
           in if \<not> marked (node oi found)
              then if fullyLinked (node oi found) then Some (False, oi) else None
              else insertLoop lv key oi)
      | Some (None, preds, succs) \<Rightarrow>
          if \<not> insertValid oi lv preds succs then insertLoop lv key oi
          else Some (True, linkNode key lv preds succs oi))"

definition Insert_key :: "bytes \<Rightarrow> orderedKeyIndex \<Rightarrow> (bool \<times> orderedKeyIndex) option" where
  "Insert_key key oi = (let (lv, oi1) = randomLevel oi in insertLoop lv key oi1)"

definition removeValid :: "orderedKeyIndex \<Rightarrow> addr \<Rightarrow> nat \<Rightarrow> addr list \<Rightarrow> bool" where
  "removeValid oi victim lv preds \<longleftrightarrow>
     (\<forall>l < Suc lv. \<not> marked (node oi (preds ! l)) \<and> nextAt oi (preds ! l) l = Some victim)"

definition unlinkNode :: "addr \<Rightarrow> nat \<Rightarrow> addr list \<Rightarrow> orderedKeyIndex \<Rightarrow> orderedKeyIndex" where
  "unlinkNode victim lv preds oi =
     (fold (\<lambda>l oi. setNext (preds ! l) l (nextAt oi victim l) oi) (rev [0..<Suc lv]) oi)
       \<lparr>osize := osize oi - 1\<rparr>"

definition setMarked :: "addr \<Rightarrow> orderedKeyIndex \<Rightarrow> orderedKeyIndex" where
  "setMarked a oi = oi\<lparr>onodes := (onodes oi)[a := (node oi a)\<lparr>marked := True\<rparr>]\<rparr>"

text \<open>\<open>removeLoop\<close>: \<open>chosen\<close> is the victim once it is marked.\<close>

partial_function (option) removeLoop ::
  "addr option \<Rightarrow> bytes \<Rightarrow> orderedKeyIndex \<Rightarrow> (bool \<times> orderedKeyIndex) option" where
  "removeLoop chosen key oi =
     (case find_key key oi of
        None \<Rightarrow> None
      | Some (lFound, preds, succs) \<Rightarrow>
          (case chosen of
             None \<Rightarrow>
               (case lFound of
                  None \<Rightarrow> Some (False, oi)
                | Some l \<Rightarrow>
                    (let victim = the (succs ! l)
                     in if \<not> fullyLinked (node oi victim) \<or> topLevel (node oi victim) \<noteq> l \<or>
                           marked (node oi victim)
                        then Some (False, oi)
                        else let oi1 = setMarked victim oi; lv = topLevel (node oi1 victim)
                          in if removeValid oi1 victim lv preds
                             then Some (True, unlinkNode victim lv preds oi1)
                             else removeLoop (Some victim) key oi1))
           | Some victim \<Rightarrow>
               (let lv = topLevel (node oi victim)
                in if removeValid oi victim lv preds
                   then Some (True, unlinkNode victim lv preds oi)
                   else removeLoop (Some victim) key oi)))"

definition Remove_key :: "bytes \<Rightarrow> orderedKeyIndex \<Rightarrow> (bool \<times> orderedKeyIndex) option" where
  "Remove_key key oi = removeLoop None key oi"

fun containsLevels :: "orderedKeyIndex \<Rightarrow> bytes \<Rightarrow> nat \<Rightarrow> addr \<Rightarrow> bool option" where
  "containsLevels oi key 0 pred = Some False"
| "containsLevels oi key (Suc level) pred =
     (case walk (\<lambda>k. k < key) oi level pred of
        None \<Rightarrow> None
      | Some (pred', cur) \<Rightarrow>
          (case cur of
             Some c \<Rightarrow> if keyAt oi c = key then Some (fullyLinked (node oi c) \<and> \<not> marked (node oi c))
                      else containsLevels oi key level pred'
           | None \<Rightarrow> containsLevels oi key level pred'))"

definition contains_key :: "bytes \<Rightarrow> orderedKeyIndex \<Rightarrow> bool option" where
  "contains_key key oi = containsLevels oi key oiMaxLevel 0"

text \<open>
  \<open>ascend\<close>: the callback may change the state, and \<open>oi_of\<close> reads the index out of it; the
  iterator keeps the address of its node across the call.
\<close>

partial_function (option) ascendFrom ::
  "('s \<Rightarrow> orderedKeyIndex) \<Rightarrow> bytes \<Rightarrow> (bytes \<Rightarrow> 's \<Rightarrow> (bool \<times> 's) option) \<Rightarrow> addr option \<Rightarrow> 's \<Rightarrow>
   's option" where
  "ascendFrom oi_of end fn cur s =
     (case cur of
        None \<Rightarrow> Some s
      | Some c \<Rightarrow>
          (let oi = oi_of s
           in if end \<noteq> [] \<and> keyAt oi c \<ge> end then Some s
              else if fullyLinked (node oi c) \<and> \<not> marked (node oi c)
              then (case fn (keyAt oi c) s of
                      None \<Rightarrow> None
                    | Some (goOn, s1) \<Rightarrow>
                        if \<not> goOn then Some s1
                        else ascendFrom oi_of end fn (nextAt (oi_of s1) c 0) s1)
              else ascendFrom oi_of end fn (nextAt oi c 0) s))"

definition ascend :: "('s \<Rightarrow> orderedKeyIndex) \<Rightarrow> bytes \<Rightarrow> bytes \<Rightarrow>
    (bytes \<Rightarrow> 's \<Rightarrow> (bool \<times> 's) option) \<Rightarrow> 's \<Rightarrow> 's option" where
  "ascend oi_of start end fn s =
     (case find_key start (oi_of s) of
        None \<Rightarrow> None
      | Some (_, _, succs) \<Rightarrow> ascendFrom oi_of end fn (succs ! 0) s)"

fun seekLevels :: "orderedKeyIndex \<Rightarrow> bytes \<Rightarrow> nat \<Rightarrow> addr \<Rightarrow> addr option" where
  "seekLevels oi bound 0 pred = Some pred"
| "seekLevels oi bound (Suc level) pred =
     (case walk (\<lambda>k. bound = [] \<or> k < bound) oi level pred of
        None \<Rightarrow> None
      | Some (pred', _) \<Rightarrow> seekLevels oi bound level pred')"

definition seekLT :: "bytes \<Rightarrow> orderedKeyIndex \<Rightarrow> bytes option option" where
  "seekLT bound oi = (case seekLevels oi bound oiMaxLevel 0 of
     None \<Rightarrow> None
   | Some pred \<Rightarrow> Some (if pred = 0 then None else Some (keyAt oi pred)))"

partial_function (option) descendFrom ::
  "('s \<Rightarrow> orderedKeyIndex) \<Rightarrow> bytes \<Rightarrow> (bytes \<Rightarrow> 's \<Rightarrow> (bool \<times> 's) option) \<Rightarrow> bytes \<Rightarrow> 's \<Rightarrow>
   's option" where
  "descendFrom oi_of start fn bound s =
     (case seekLT bound (oi_of s) of
        None \<Rightarrow> None
      | Some None \<Rightarrow> Some s
      | Some (Some k) \<Rightarrow>
          if k < start then Some s
          else (case fn k s of
                  None \<Rightarrow> None
                | Some (goOn, s1) \<Rightarrow>
                    if \<not> goOn then Some s1 else descendFrom oi_of start fn k s1))"

definition descend :: "('s \<Rightarrow> orderedKeyIndex) \<Rightarrow> bytes \<Rightarrow> bytes \<Rightarrow>
    (bytes \<Rightarrow> 's \<Rightarrow> (bool \<times> 's) option) \<Rightarrow> 's \<Rightarrow> 's option" where
  "descend oi_of start end fn s = descendFrom oi_of start fn end s"

section \<open>The list behind the pointers\<close>

text \<open>\<open>chain oi l a ns\<close>: following the level-\<open>l\<close> pointers from \<open>a\<close> visits \<open>ns\<close> and ends.\<close>

fun chain :: "orderedKeyIndex \<Rightarrow> nat \<Rightarrow> addr \<Rightarrow> addr list \<Rightarrow> bool" where
  "chain oi l a [] \<longleftrightarrow> nextAt oi a l = None"
| "chain oi l a (b # bs) \<longleftrightarrow> nextAt oi a l = Some b \<and> chain oi l b bs"

abbreviation level :: "orderedKeyIndex \<Rightarrow> nat \<Rightarrow> addr list \<Rightarrow> addr list" where
  "level oi l ns \<equiv> filter (\<lambda>n. l \<le> topLevel (node oi n)) ns"

definition nodeOk :: "orderedKeyIndex \<Rightarrow> addr \<Rightarrow> bool" where
  "nodeOk oi n \<longleftrightarrow> 0 < n \<and> n < length (onodes oi) \<and> topLevel (node oi n) < oiMaxLevel \<and>
     length (onext (node oi n)) = Suc (topLevel (node oi n)) \<and>
     fullyLinked (node oi n) \<and> \<not> marked (node oi n)"

definition headOk :: "orderedKeyIndex \<Rightarrow> bool" where
  "headOk oi \<longleftrightarrow> onodes oi \<noteq> [] \<and> length (onext (node oi 0)) = oiMaxLevel \<and> \<not> marked (node oi 0) \<and>
     topLevel (node oi 0) = oiMaxLevel - 1"

text \<open>The nodes reachable from the head, in key order; every level is a sublist.\<close>

definition linked :: "orderedKeyIndex \<Rightarrow> addr list \<Rightarrow> bool" where
  "linked oi ns \<longleftrightarrow> headOk oi \<and> (\<forall>n \<in> set ns. nodeOk oi n) \<and>
     sorted_wrt (<) (map (keyAt oi) ns) \<and>
     (\<forall>l < oiMaxLevel. chain oi l 0 (level oi l ns)) \<and> osize oi = int (length ns)"

lemma chain_drop: "chain oi l a (xs @ b # ys) \<Longrightarrow> chain oi l b ys"
  by (induction xs arbitrary: a) auto

lemma chain_prefix_next: "chain oi l a (xs @ ys) \<Longrightarrow>
    nextAt oi (last (a # xs)) l = (case ys of [] \<Rightarrow> None | y # _ \<Rightarrow> Some y)"
  by (induction xs arbitrary: a) (auto split: list.splits)

lemma chain_unique: "chain oi l a xs \<Longrightarrow> chain oi l a ys \<Longrightarrow> xs = ys"
proof (induction xs arbitrary: a ys)
  case Nil
  then show ?case by (cases ys) auto
next
  case (Cons x xs)
  then show ?case by (cases ys) auto
qed

definition headOpt :: "addr list \<Rightarrow> addr option" where
  "headOpt ns = (case ns of [] \<Rightarrow> None | n # _ \<Rightarrow> Some n)"

lemma headOpt_simps [simp]: "headOpt [] = None" "headOpt (n # ns) = Some n"
  by (simp_all add: headOpt_def)

lemma walk_chain:
  assumes "chain oi l a (xs @ ys)" "\<forall>x \<in> set xs. go (keyAt oi x)" "ys \<noteq> [] \<longrightarrow> \<not> go (keyAt oi (hd ys))"
  shows "walk go oi l a = Some (last (a # xs), headOpt ys)"
  using assms
proof (induction xs arbitrary: a)
  case Nil
  then show ?case
    by (cases ys) (simp_all add: walk.simps [of go oi l a])
next
  case (Cons x xs)
  then show ?case
    by (simp add: walk.simps [of go oi l a])
qed

text \<open>
  The nodes of a sorted list split at a key: \<open>lows\<close> satisfies the walking condition and the
  rest does not.
\<close>

definition predAt :: "orderedKeyIndex \<Rightarrow> addr list \<Rightarrow> nat \<Rightarrow> addr" where
  "predAt oi lows l = last (0 # level oi l lows)"

lemma filter_last_split:
  "filter P xs = us @ [p] \<Longrightarrow> \<exists>vs ws. xs = vs @ p # ws \<and> filter P ws = []"
proof (induction xs arbitrary: us rule: rev_induct)
  case (snoc x xs)
  show ?case
  proof (cases "P x")
    case True
    with snoc.prems show ?thesis by (intro exI [of _ xs] exI [of _ "[]"]) simp
  next
    case False
    with snoc.prems have "filter P xs = us @ [p]" by simp
    with snoc.IH obtain vs ws where "xs = vs @ p # ws" "filter P ws = []" by blast
    with False show ?thesis by (intro exI [of _ vs] exI [of _ "ws @ [x]"]) simp
  qed
qed simp

lemma predAt_step:
  assumes "\<forall>l < oiMaxLevel. chain oi l 0 (level oi l (lows @ highs))" "l < oiMaxLevel"
  shows "\<exists>xs. chain oi l (predAt oi lows (Suc l)) (xs @ level oi l highs) \<and> set xs \<subseteq> set lows \<and>
    predAt oi lows l = last (predAt oi lows (Suc l) # xs)"
proof (cases "level oi (Suc l) lows = []")
  case True
  then show ?thesis
    using assms by (intro exI [of _ "level oi l lows"]) (auto simp: predAt_def)
next
  case False
  then obtain us p where up: "level oi (Suc l) lows = us @ [p]"
    by (metis rev_exhaust)
  then have "p \<in> set (level oi (Suc l) lows)"
    by simp
  then have p: "p \<in> set lows" "Suc l \<le> topLevel (node oi p)"
    by auto
  from up obtain vs ws where b: "lows = vs @ p # ws" and ws: "level oi (Suc l) ws = []"
    using filter_last_split [OF up] by blast
  have pr: "predAt oi lows (Suc l) = p"
    by (simp add: predAt_def up)
  have lv: "level oi l lows = level oi l vs @ p # level oi l ws"
    using p(2) by (simp add: b)
  have "chain oi l 0 (level oi l lows @ level oi l highs)"
    using assms by simp
  then have "chain oi l 0 (level oi l vs @ p # (level oi l ws @ level oi l highs))"
    unfolding lv by simp
  then have "chain oi l p (level oi l ws @ level oi l highs)"
    by (rule chain_drop)
  moreover have "predAt oi lows l = last (p # level oi l ws)"
    by (simp add: predAt_def lv)
  ultimately show ?thesis
    using b pr by (intro exI [of _ "level oi l ws"]) auto
qed

fun topTrue :: "(nat \<Rightarrow> bool) \<Rightarrow> nat \<Rightarrow> nat option" where
  "topTrue P 0 = None"
| "topTrue P (Suc n) = (if P n then Some n else topTrue P n)"

lemma topTrue_None: "\<forall>l < n. \<not> P l \<Longrightarrow> topTrue P n = None"
  by (induction n) auto

lemma topTrue_Some: "\<lbrakk>\<forall>l < n. P l \<longleftrightarrow> l \<le> t; t < n\<rbrakk> \<Longrightarrow> topTrue P n = Some t"
  by (induction n) (auto simp: less_Suc_eq)

definition succAt :: "orderedKeyIndex \<Rightarrow> addr list \<Rightarrow> nat \<Rightarrow> addr option" where
  "succAt oi highs l = headOpt (level oi l highs)"

definition metAt :: "orderedKeyIndex \<Rightarrow> addr list \<Rightarrow> bytes \<Rightarrow> nat \<Rightarrow> bool" where
  "metAt oi highs key l \<longleftrightarrow> (case succAt oi highs l of None \<Rightarrow> False | Some c \<Rightarrow> keyAt oi c = key)"

lemma level_hd: "level oi l ns = y # ys \<Longrightarrow> y \<in> set ns"
  by (metis filter_set list.set_intros(1) mem_Collect_eq set_filter)

lemma walk_level:
  assumes "\<forall>l < oiMaxLevel. chain oi l 0 (level oi l (lows @ highs))" "l < oiMaxLevel"
    and "\<forall>x \<in> set lows. go (keyAt oi x)" "\<forall>x \<in> set highs. \<not> go (keyAt oi x)"
  shows "walk go oi l (predAt oi lows (Suc l)) = Some (predAt oi lows l, succAt oi highs l)"
proof -
  obtain xs where xs: "chain oi l (predAt oi lows (Suc l)) (xs @ level oi l highs)"
      "set xs \<subseteq> set lows" "predAt oi lows l = last (predAt oi lows (Suc l) # xs)"
    using predAt_step [OF assms(1,2)] by blast
  have "\<forall>x \<in> set xs. go (keyAt oi x)"
    using xs(2) assms(3) by auto
  moreover have "level oi l highs \<noteq> [] \<longrightarrow> \<not> go (keyAt oi (hd (level oi l highs)))"
    using level_hd [of l oi highs] assms(4) by (cases "level oi l highs") auto
  ultimately show ?thesis
    unfolding xs(3) succAt_def by (intro walk_chain [OF xs(1)])
qed

lemma findLevels_spec:
  assumes "\<forall>l < oiMaxLevel. chain oi l 0 (level oi l (lows @ highs))" "n \<le> oiMaxLevel"
    and "\<forall>x \<in> set lows. keyAt oi x < key" "\<forall>x \<in> set highs. \<not> keyAt oi x < key"
  shows "findLevels oi key n (predAt oi lows n) (lf, ps, ss) =
    Some (if lf = None then topTrue (metAt oi highs key) n else lf,
          map (predAt oi lows) [0..<n] @ ps, map (succAt oi highs) [0..<n] @ ss)"
  using assms(2)
proof (induction n arbitrary: lf ps ss)
  case (Suc n)
  then have "walk (\<lambda>k. k < key) oi n (predAt oi lows (Suc n)) =
      Some (predAt oi lows n, succAt oi highs n)"
    by (intro walk_level [OF assms(1)]) (use assms(3,4) in auto)
  with Suc show ?case
    by (simp add: metAt_def)
qed simp

lemma level_all: "\<forall>n \<in> set ns. topLevel (node oi n) < oiMaxLevel \<Longrightarrow> level oi oiMaxLevel ns = []"
  by (auto simp: filter_empty_conv)

text \<open>What \<open>find\<close> returns: predecessors, successors and the level of the key.\<close>

lemma find_spec:
  assumes "linked oi (lows @ highs)"
    and "\<forall>x \<in> set lows. keyAt oi x < key" "\<forall>x \<in> set highs. \<not> keyAt oi x < key"
  shows "find_key key oi = Some
    (case highs of [] \<Rightarrow> None | v # _ \<Rightarrow> if keyAt oi v = key then Some (topLevel (node oi v)) else None,
     map (predAt oi lows) [0..<oiMaxLevel], map (succAt oi highs) [0..<oiMaxLevel])"
proof -
  have tops: "\<forall>n \<in> set (lows @ highs). topLevel (node oi n) < oiMaxLevel"
    using assms(1) by (auto simp: linked_def nodeOk_def)
  have "predAt oi lows oiMaxLevel = 0"
    using level_all [of lows oi] tops by (simp add: predAt_def)
  then have f: "find_key key oi = Some (topTrue (metAt oi highs key) oiMaxLevel,
      map (predAt oi lows) [0..<oiMaxLevel], map (succAt oi highs) [0..<oiMaxLevel])"
    using findLevels_spec [of oi lows highs oiMaxLevel key None "[]" "[]"] assms
    by (simp add: find_key_def linked_def)
  have met: "metAt oi highs key l \<longleftrightarrow> (\<exists>v vs. highs = v # vs \<and> keyAt oi v = key \<and>
      l \<le> topLevel (node oi v))" for l
  proof (cases highs)
    case (Cons v vs)
    have later: "keyAt oi v < keyAt oi w" if "w \<in> set vs" for w
      using assms(1) that by (auto simp: linked_def Cons sorted_wrt_append)
    show ?thesis
    proof (cases "l \<le> topLevel (node oi v)")
      case True
      then show ?thesis by (simp add: metAt_def succAt_def Cons)
    next
      case False
      have "keyAt oi w \<noteq> key" if "w \<in> set vs" for w
        using later [OF that] assms(3) Cons by auto
      then have "\<not> metAt oi highs key l"
        using False level_hd [of l oi vs]
        by (fastforce simp: metAt_def succAt_def Cons headOpt_def split: list.splits)
      with False show ?thesis by (simp add: Cons)
    qed
  qed (simp add: metAt_def succAt_def)
  show ?thesis
  proof (cases "\<exists>v vs. highs = v # vs \<and> keyAt oi v = key")
    case True
    then obtain v vs where v: "highs = v # vs" "keyAt oi v = key" by blast
    have "metAt oi highs key l \<longleftrightarrow> l \<le> topLevel (node oi v)" for l
      unfolding met using v by simp
    then have "topTrue (metAt oi highs key) oiMaxLevel = Some (topLevel (node oi v))"
      using tops v(1) by (intro topTrue_Some) simp_all
    then show ?thesis using v f by simp
  next
    case False
    then have "topTrue (metAt oi highs key) oiMaxLevel = None"
      by (intro topTrue_None) (auto simp: met)
    then show ?thesis using False f by (auto split: list.splits)
  qed
qed

section \<open>Splicing\<close>

lemma setNext_shape [simp]:
  "length (onodes (setNext a l v oi)) = length (onodes oi)"
  "keyAt (setNext a l v oi) b = keyAt oi b" "marked (node (setNext a l v oi) b) = marked (node oi b)"
  "fullyLinked (node (setNext a l v oi) b) = fullyLinked (node oi b)"
  "topLevel (node (setNext a l v oi) b) = topLevel (node oi b)"
  "length (onext (node (setNext a l v oi) b)) = length (onext (node oi b))"
  "osize (setNext a l v oi) = osize oi" "oseed (setNext a l v oi) = oseed oi"
  by (cases "a < length (onodes oi)"; cases "b = a"; simp add: setNext_def list_update_beyond)+

lemma nextAt_setNext:
  assumes "a < length (onodes oi)" "l < length (onext (node oi a))"
  shows "nextAt (setNext a l v oi) b m = (if b = a \<and> m = l then v else nextAt oi b m)"
  using assms by (cases "b = a"; cases "m = l") (simp_all add: setNext_def)

definition sameShape :: "orderedKeyIndex \<Rightarrow> orderedKeyIndex \<Rightarrow> bool" where
  "sameShape oi oi' \<longleftrightarrow> length (onodes oi') = length (onodes oi) \<and> osize oi' = osize oi \<and>
     oseed oi' = oseed oi \<and>
     (\<forall>b. keyAt oi' b = keyAt oi b \<and> marked (node oi' b) = marked (node oi b) \<and>
        fullyLinked (node oi' b) = fullyLinked (node oi b) \<and>
        topLevel (node oi' b) = topLevel (node oi b) \<and>
        length (onext (node oi' b)) = length (onext (node oi b)))"

lemma fold_setNext:
  assumes "\<forall>l < m. p l < length (onodes oi) \<and> l < length (onext (node oi (p l)))"
  shows "sameShape oi (fold (\<lambda>l. setNext (p l) l (v l)) [0..<m] oi) \<and>
    (\<forall>b l. nextAt (fold (\<lambda>l. setNext (p l) l (v l)) [0..<m] oi) b l =
       (if l < m \<and> b = p l then v l else nextAt oi b l))"
  using assms
proof (induction m)
  case 0
  then show ?case by (simp add: sameShape_def)
next
  case (Suc m)
  let ?oi = "fold (\<lambda>l. setNext (p l) l (v l)) [0..<m] oi"
  have IH: "sameShape oi ?oi"
    "\<And>b l. nextAt ?oi b l = (if l < m \<and> b = p l then v l else nextAt oi b l)"
    using Suc by simp_all
  have "p m < length (onodes ?oi)" "m < length (onext (node ?oi (p m)))"
    using Suc.prems IH(1) by (simp_all add: sameShape_def)
  note n = nextAt_setNext [OF this, of "v m"]
  show ?case
    using IH by (simp add: n sameShape_def less_Suc_eq)
qed

lemma fold_unlink:
  assumes "\<forall>l < m. p l < length (onodes oi) \<and> l < length (onext (node oi (p l))) \<and> p l \<noteq> x"
  shows "sameShape oi (fold (\<lambda>l oi. setNext (p l) l (nextAt oi x l) oi) (rev [0..<m]) oi) \<and>
    (\<forall>b l. nextAt (fold (\<lambda>l oi. setNext (p l) l (nextAt oi x l) oi) (rev [0..<m]) oi) b l =
       (if l < m \<and> b = p l then nextAt oi x l else nextAt oi b l))"
  using assms
proof (induction m arbitrary: oi)
  case 0
  then show ?case by (simp add: sameShape_def)
next
  case (Suc m)
  let ?oi = "setNext (p m) m (nextAt oi x m) oi"
  let ?fin = "fold (\<lambda>l oi. setNext (p l) l (nextAt oi x l) oi) (rev [0..<m]) ?oi"
  have "p m < length (onodes oi)" "m < length (onext (node oi (p m)))"
    using Suc.prems by simp_all
  note n = nextAt_setNext [OF this, of "nextAt oi x m"]
  have IH: "sameShape ?oi ?fin"
    "\<And>b l. nextAt ?fin b l = (if l < m \<and> b = p l then nextAt ?oi x l else nextAt ?oi b l)"
    using Suc.IH [of ?oi] Suc.prems by simp_all
  have "x \<noteq> p m" using Suc.prems by auto
  then show ?case
    using IH by (simp add: n sameShape_def less_Suc_eq)
qed

lemma chain_cong: "\<forall>b \<in> set (a # xs). nextAt oi' b l = nextAt oi b l \<Longrightarrow> chain oi' l a xs = chain oi l a xs"
  by (induction xs arbitrary: a) auto

lemma chain_insert:
  assumes "chain oi l a (xs @ ys)" "distinct (a # xs @ ys)" "n \<notin> set (a # xs @ ys)"
    and "nextAt oi' (last (a # xs)) l = Some n" "nextAt oi' n l = headOpt ys"
    and "\<forall>b \<in> set (a # xs @ ys). b \<noteq> last (a # xs) \<longrightarrow> nextAt oi' b l = nextAt oi b l"
  shows "chain oi' l a (xs @ n # ys)"
  using assms
proof (induction xs arbitrary: a)
  case Nil
  have "chain oi' l n ys"
  proof (cases ys)
    case (Cons y zs)
    then have "chain oi' l y zs = chain oi l y zs"
      using Nil by (intro chain_cong) auto
    then show ?thesis using Nil Cons by simp
  qed (use Nil in simp)
  then show ?case using Nil by simp
next
  case (Cons x xs)
  then have "last (x # xs) \<noteq> a"
    by (metis append_Cons distinct.simps(2) in_set_conv_decomp last_in_set list.distinct(1) set_append UnI1)
  then have "nextAt oi' a l = nextAt oi a l"
    using Cons.prems by auto
  moreover have "chain oi' l x (xs @ n # ys)"
    using Cons.prems by (intro Cons.IH) auto
  ultimately show ?case using Cons.prems by simp
qed

lemma chain_remove:
  assumes "chain oi l a (xs @ x # ys)" "distinct (a # xs @ x # ys)"
    and "nextAt oi' (last (a # xs)) l = nextAt oi x l"
    and "\<forall>b \<in> set (a # xs @ ys). b \<noteq> last (a # xs) \<longrightarrow> nextAt oi' b l = nextAt oi b l"
  shows "chain oi' l a (xs @ ys)"
  using assms
proof (induction xs arbitrary: a)
  case Nil
  show ?case
  proof (cases ys)
    case (Cons y zs)
    then have "chain oi' l y zs = chain oi l y zs"
      using Nil by (intro chain_cong) auto
    then show ?thesis using Nil Cons by simp
  qed (use Nil in simp)
next
  case (Cons z xs)
  then have "last (z # xs) \<noteq> a"
    by (metis append_Cons distinct.simps(2) in_set_conv_decomp last_in_set list.distinct(1) set_append UnI1)
  then have "nextAt oi' a l = nextAt oi a l"
    using Cons.prems by auto
  moreover have "chain oi' l z (xs @ ys)"
    using Cons.prems by (intro Cons.IH) auto
  ultimately show ?case using Cons.prems by simp
qed

section \<open>Insert and Remove\<close>

lemma linked_distinct:
  assumes "linked oi ns"
  shows "distinct (0 # ns)"
proof -
  have "distinct (map (keyAt oi) ns)"
    using assms strict_sorted_iff by (auto simp: linked_def)
  then have "distinct ns"
    by (simp add: distinct_map)
  moreover have "0 \<notin> set ns"
    using assms by (auto simp: linked_def nodeOk_def)
  ultimately show ?thesis by simp
qed

lemma predAt_in: "predAt oi lows l = 0 \<or> predAt oi lows l \<in> set lows \<and> l \<le> topLevel (node oi (predAt oi lows l))"
proof (cases "level oi l lows = []")
  case False
  from last_in_set [OF this] have "last (level oi l lows) \<in> {n \<in> set lows. l \<le> topLevel (node oi n)}"
    by (simp only: set_filter)
  with False show ?thesis by (simp add: predAt_def)
qed (simp add: predAt_def)

lemma predAt_ok:
  assumes "linked oi (lows @ highs)" "l < oiMaxLevel"
  shows "predAt oi lows l < length (onodes oi)" "l < length (onext (node oi (predAt oi lows l)))"
    "\<not> marked (node oi (predAt oi lows l))" "predAt oi lows l \<notin> set highs"
    "nextAt oi (predAt oi lows l) l = succAt oi highs l"
proof -
  show "predAt oi lows l < length (onodes oi)" "l < length (onext (node oi (predAt oi lows l)))"
    "\<not> marked (node oi (predAt oi lows l))"
    using predAt_in [of oi lows l] assms by (auto simp: linked_def headOk_def nodeOk_def)
  show "predAt oi lows l \<notin> set highs"
    using predAt_in [of oi lows l] linked_distinct [OF assms(1)] by auto
  have "chain oi l 0 (level oi l lows @ level oi l highs)"
    using assms by (simp add: linked_def)
  from chain_prefix_next [OF this] show "nextAt oi (predAt oi lows l) l = succAt oi highs l"
    by (simp add: predAt_def succAt_def headOpt_def)
qed

lemma headOpt_in: "headOpt (level oi l ns) = Some x \<Longrightarrow> x \<in> set ns"
  using level_hd [of l oi ns] by (auto simp: headOpt_def split: list.splits)

lemma insertValid_here:
  assumes "linked oi (lows @ highs)" "lv < oiMaxLevel"
  shows "insertValid oi lv (map (predAt oi lows) [0..<oiMaxLevel]) (map (succAt oi highs) [0..<oiMaxLevel])"
proof -
  have "\<not> marked (node oi x)" if "succAt oi highs l = Some x" for l x
    using headOpt_in [of l oi highs x] that assms(1) by (auto simp: succAt_def linked_def nodeOk_def)
  then show ?thesis
    using predAt_ok [OF assms(1)] assms(2) by (auto simp: insertValid_def split: option.splits)
qed

lemma linkNode_nodes:
  fixes key :: bytes
  assumes lk: "linked oi (lows @ highs)" and lv: "lv < oiMaxLevel"
  defines "n \<equiv> length (onodes oi)"
    and "oi' \<equiv> linkNode key lv (map (predAt oi lows) [0..<oiMaxLevel])
      (map (succAt oi highs) [0..<oiMaxLevel]) oi"
  shows "length (onodes oi') = Suc n" "osize oi' = osize oi + 1"
    "b < n \<Longrightarrow> keyAt oi' b = keyAt oi b" "b < n \<Longrightarrow> marked (node oi' b) = marked (node oi b)"
    "b < n \<Longrightarrow> fullyLinked (node oi' b) = fullyLinked (node oi b)"
    "b < n \<Longrightarrow> topLevel (node oi' b) = topLevel (node oi b)"
    "b < n \<Longrightarrow> length (onext (node oi' b)) = length (onext (node oi b))"
    "b < n \<Longrightarrow> nextAt oi' b l = (if l \<le> lv \<and> b = predAt oi lows l then Some n else nextAt oi b l)"
    "keyAt oi' n = key" "\<not> marked (node oi' n)" "fullyLinked (node oi' n)"
    "topLevel (node oi' n) = lv" "length (onext (node oi' n)) = Suc lv"
    "l \<le> lv \<Longrightarrow> nextAt oi' n l = succAt oi highs l"
proof -
  define oi1 where "oi1 = oi\<lparr>onodes := onodes oi @
    [\<lparr>okey = key, marked = False, fullyLinked = False, topLevel = lv,
      onext = take (Suc lv) (map (succAt oi highs) [0..<oiMaxLevel])\<rparr>]\<rparr>"
  define oi2 where "oi2 = fold (\<lambda>l. setNext (map (predAt oi lows) [0..<oiMaxLevel] ! l) l (Some n)) [0..<Suc lv] oi1"
  have at: "map (predAt oi lows) [0..<oiMaxLevel] ! l = predAt oi lows l" if "l < Suc lv" for l
    using that lv by simp
  have old: "node oi1 b = node oi b" if "b < n" for b
    using that by (simp add: oi1_def n_def nth_append)
  have new: "node oi1 n = \<lparr>okey = key, marked = False, fullyLinked = False, topLevel = lv,
      onext = take (Suc lv) (map (succAt oi highs) [0..<oiMaxLevel])\<rparr>"
    by (simp add: oi1_def n_def)
  have len: "length (onodes oi1) = Suc n"
    by (simp add: oi1_def n_def)
  have "\<forall>l < Suc lv. map (predAt oi lows) [0..<oiMaxLevel] ! l < length (onodes oi1) \<and>
      l < length (onext (node oi1 (map (predAt oi lows) [0..<oiMaxLevel] ! l)))"
    using predAt_ok(1,2) [OF lk] lv by (simp add: at len old n_def less_Suc_eq)
  from fold_setNext [OF this, of "\<lambda>_. Some n"]
  have sh: "sameShape oi1 oi2" and
    nx: "nextAt oi2 b l = (if l < Suc lv \<and> b = map (predAt oi lows) [0..<oiMaxLevel] ! l then Some n else nextAt oi1 b l)" for b l
    by (simp_all add: oi2_def)
  have oi': "oi' = oi2\<lparr>onodes := (onodes oi2)[n := (node oi2 n)\<lparr>fullyLinked := True\<rparr>], osize := osize oi2 + 1\<rparr>"
    by (simp add: oi'_def linkNode_def Let_def oi1_def oi2_def n_def)
  have n2: "length (onodes oi2) = Suc n"
    using sh len by (simp add: sameShape_def)
  have below: "predAt oi lows l \<noteq> n" if "l < Suc lv" for l
    using predAt_ok(1) [OF lk, of l] that lv by (simp add: n_def)
  show "length (onodes oi') = Suc n" by (simp add: oi' n2)
  show "osize oi' = osize oi + 1"
    using sh by (simp add: oi' sameShape_def oi1_def)
  show "b < n \<Longrightarrow> keyAt oi' b = keyAt oi b" "b < n \<Longrightarrow> marked (node oi' b) = marked (node oi b)"
    "b < n \<Longrightarrow> fullyLinked (node oi' b) = fullyLinked (node oi b)"
    "b < n \<Longrightarrow> topLevel (node oi' b) = topLevel (node oi b)"
    "b < n \<Longrightarrow> length (onext (node oi' b)) = length (onext (node oi b))"
    using sh by (simp_all add: oi' sameShape_def old)
  show "b < n \<Longrightarrow> nextAt oi' b l = (if l \<le> lv \<and> b = predAt oi lows l then Some n else nextAt oi b l)"
    by (simp add: oi' nx old less_Suc_eq_le) (metis at less_Suc_eq_le)
  show "keyAt oi' n = key" "\<not> marked (node oi' n)" "fullyLinked (node oi' n)"
    "topLevel (node oi' n) = lv" "length (onext (node oi' n)) = Suc lv"
    using sh lv by (simp_all add: oi' n2 sameShape_def new)
  show "l \<le> lv \<Longrightarrow> nextAt oi' n l = succAt oi highs l"
    using below [of l] lv by (simp add: oi' n2 nx at new)
qed

lemma level_cong: "\<forall>n \<in> set ns. topLevel (node oi' n) = topLevel (node oi n) \<Longrightarrow> level oi' l ns = level oi l ns"
  by (auto intro!: filter_cong)

lemma linkNode_linked:
  assumes lk: "linked oi (lows @ highs)" and lv: "lv < oiMaxLevel"
    and lo: "\<forall>x \<in> set lows. keyAt oi x < key" and hi: "\<forall>x \<in> set highs. key < keyAt oi x"
  shows "linked (linkNode key lv (map (predAt oi lows) [0..<oiMaxLevel])
      (map (succAt oi highs) [0..<oiMaxLevel]) oi) (lows @ length (onodes oi) # highs)"
    (is "linked ?oi (lows @ ?n # highs)")
proof -
  note nd = linkNode_nodes [OF lk lv, where key = key]
  have old: "x < ?n" if "x \<in> set (lows @ highs)" for x
    using lk that by (auto simp: linked_def nodeOk_def)
  have "0 < ?n" using lk by (auto simp: linked_def headOk_def)
  have keys: "map (keyAt ?oi) lows = map (keyAt oi) lows" "map (keyAt ?oi) highs = map (keyAt oi) highs"
    using nd(3) old by auto
  have lev: "level ?oi l lows = level oi l lows" "level ?oi l highs = level oi l highs" for l
    using nd(6) old by (auto intro!: level_cong)
  have "chain ?oi l 0 (level ?oi l (lows @ ?n # highs))" if l: "l < oiMaxLevel" for l
  proof -
    have ch: "chain oi l 0 (level oi l lows @ level oi l highs)"
      using lk l by (simp add: linked_def)
    have dist: "distinct (0 # level oi l lows @ level oi l highs)"
      using linked_distinct [OF lk] by auto
    have small: "b < ?n" if "b \<in> set (0 # level oi l lows @ level oi l highs)" for b
      using that old \<open>0 < ?n\<close> by auto
    show ?thesis
    proof (cases "l \<le> lv")
      case True
      have "chain ?oi l 0 (level oi l lows @ ?n # level oi l highs)"
      proof (rule chain_insert [OF ch dist])
        show "?n \<notin> set (0 # level oi l lows @ level oi l highs)"
          using small by blast
        show "nextAt ?oi (last (0 # level oi l lows)) l = Some ?n"
          using nd(8) [of "predAt oi lows l" l] predAt_ok(1) [OF lk l] True by (simp add: predAt_def)
        show "nextAt ?oi ?n l = headOpt (level oi l highs)"
          using nd(14) [OF True] by (simp add: succAt_def)
        show "\<forall>b \<in> set (0 # level oi l lows @ level oi l highs). b \<noteq> last (0 # level oi l lows) \<longrightarrow>
            nextAt ?oi b l = nextAt oi b l"
          using nd(8) small by (simp add: predAt_def)
      qed
      then show ?thesis using True nd(12) by (simp add: lev)
    next
      case False
      then have "chain ?oi l 0 (level oi l lows @ level oi l highs)"
        using ch nd(8) small by (subst chain_cong [where oi = oi]) auto
      then show ?thesis using False nd(12) by (simp add: lev)
    qed
  qed
  moreover have "\<forall>x \<in> set (lows @ ?n # highs). nodeOk ?oi x"
    using lk lv nd(1,4-7) nd(10-13) old \<open>0 < ?n\<close> by (auto simp: linked_def nodeOk_def less_SucI)
  moreover have "headOk ?oi"
    using lk nd(1,4,6,7) \<open>0 < ?n\<close> by (auto simp: linked_def headOk_def)
  moreover have "sorted_wrt (<) (map (keyAt ?oi) (lows @ ?n # highs))"
    using lk lo hi nd(9) by (fastforce simp: linked_def sorted_wrt_append keys)
  ultimately show ?thesis
    using lk nd(2) by (simp add: linked_def)
qed

lemma setMarked_shape [simp]:
  "length (onodes (setMarked a oi)) = length (onodes oi)" "keyAt (setMarked a oi) b = keyAt oi b"
  "fullyLinked (node (setMarked a oi) b) = fullyLinked (node oi b)"
  "topLevel (node (setMarked a oi) b) = topLevel (node oi b)"
  "onext (node (setMarked a oi) b) = onext (node oi b)"
  "b \<noteq> a \<Longrightarrow> marked (node (setMarked a oi) b) = marked (node oi b)"
  "osize (setMarked a oi) = osize oi" "oseed (setMarked a oi) = oseed oi"
  by (cases "a < length (onodes oi)"; cases "b = a"; simp add: setMarked_def list_update_beyond)+

lemma removeValid_here:
  assumes "linked oi (lows @ x # highs)"
  shows "removeValid (setMarked x oi) x (topLevel (node oi x)) (map (predAt oi lows) [0..<oiMaxLevel])"
proof -
  have "predAt oi lows l \<noteq> x \<and> \<not> marked (node oi (predAt oi lows l)) \<and>
      nextAt oi (predAt oi lows l) l = Some x" if "l < Suc (topLevel (node oi x))" for l
  proof -
    have l: "l < oiMaxLevel" using that assms by (simp add: linked_def nodeOk_def)
    show ?thesis
      using predAt_ok(3-5) [OF assms l] that by (auto simp: succAt_def)
  qed
  moreover have "topLevel (node oi x) < oiMaxLevel"
    using assms by (simp add: linked_def nodeOk_def)
  ultimately show ?thesis
    by (auto simp: removeValid_def)
qed

lemma unlinkNode_nodes:
  assumes lk: "linked oi (lows @ x # highs)"
  defines "oi' \<equiv> unlinkNode x (topLevel (node oi x)) (map (predAt oi lows) [0..<oiMaxLevel]) (setMarked x oi)"
  shows "sameShape (setMarked x oi) (oi'\<lparr>osize := osize oi\<rparr>)" "osize oi' = osize oi - 1"
    "nextAt oi' b l =
      (if l \<le> topLevel (node oi x) \<and> b = predAt oi lows l then nextAt oi x l else nextAt oi b l)"
proof -
  let ?t = "topLevel (node oi x)" and ?p = "\<lambda>l. map (predAt oi lows) [0..<oiMaxLevel] ! l"
  let ?f = "fold (\<lambda>l oi. setNext (?p l) l (nextAt oi x l) oi) (rev [0..<Suc ?t]) (setMarked x oi)"
  have t: "?t < oiMaxLevel"
    using lk by (simp add: linked_def nodeOk_def)
  have at: "?p l = predAt oi lows l" if "l < Suc ?t" for l
    using that t by simp
  have "\<forall>l < Suc ?t. ?p l < length (onodes (setMarked x oi)) \<and>
      l < length (onext (node (setMarked x oi) (?p l))) \<and> ?p l \<noteq> x"
  proof (intro allI impI)
    fix l assume l: "l < Suc ?t"
    show "?p l < length (onodes (setMarked x oi)) \<and>
      l < length (onext (node (setMarked x oi) (?p l))) \<and> ?p l \<noteq> x"
      unfolding at [OF l] using predAt_ok(1,2,4) [OF lk, of l] l t by auto
  qed
  note f = fold_unlink [OF this]
  have oi': "oi' = ?f\<lparr>osize := osize (setMarked x oi) - 1\<rparr>"
    by (simp add: oi'_def unlinkNode_def)
  show "sameShape (setMarked x oi) (oi'\<lparr>osize := osize oi\<rparr>)" "osize oi' = osize oi - 1"
    using f by (simp_all add: oi' sameShape_def)
  show "nextAt oi' b l =
      (if l \<le> ?t \<and> b = predAt oi lows l then nextAt oi x l else nextAt oi b l)"
    using f at [of l] by (simp add: oi' less_Suc_eq_le)
qed

lemma unlinkNode_linked:
  assumes lk: "linked oi (lows @ x # highs)"
  shows "linked (unlinkNode x (topLevel (node oi x)) (map (predAt oi lows) [0..<oiMaxLevel])
      (setMarked x oi)) (lows @ highs)" (is "linked ?oi _")
proof -
  note un = unlinkNode_nodes [OF lk]
  have x: "x \<notin> set (0 # lows @ highs)" and d: "distinct (0 # lows @ x # highs)"
    using linked_distinct [OF lk] by auto
  have sh: "length (onodes ?oi) = length (onodes oi)" "\<And>b. keyAt ?oi b = keyAt oi b"
    "\<And>b. topLevel (node ?oi b) = topLevel (node oi b)"
    "\<And>b. length (onext (node ?oi b)) = length (onext (node oi b))"
    "\<And>b. fullyLinked (node ?oi b) = fullyLinked (node oi b)"
    "\<And>b. b \<noteq> x \<Longrightarrow> marked (node ?oi b) = marked (node oi b)"
    using un(1) by (simp_all add: sameShape_def)
  have "chain ?oi l 0 (level ?oi l (lows @ highs))" if l: "l < oiMaxLevel" for l
  proof (cases "l \<le> topLevel (node oi x)")
    case True
    have "chain oi l 0 (level oi l lows @ x # level oi l highs)"
      using lk l True by (auto simp: linked_def)
    then have "chain ?oi l 0 (level oi l lows @ level oi l highs)"
    proof (rule chain_remove)
      show "distinct (0 # level oi l lows @ x # level oi l highs)" using d by auto
      show "nextAt ?oi (last (0 # level oi l lows)) l = nextAt oi x l"
        using un(3) True by (simp add: predAt_def)
      show "\<forall>b \<in> set (0 # level oi l lows @ level oi l highs). b \<noteq> last (0 # level oi l lows) \<longrightarrow>
          nextAt ?oi b l = nextAt oi b l"
        using un(3) by (simp add: predAt_def)
    qed
    then show ?thesis by (simp add: sh)
  next
    case False
    then have "chain oi l 0 (level oi l lows @ level oi l highs)"
      using lk l by (auto simp: linked_def)
    then have "chain ?oi l 0 (level oi l lows @ level oi l highs)"
      using False un(3) by (subst chain_cong [where oi = oi]) auto
    then show ?thesis by (simp add: sh)
  qed
  moreover have "\<forall>y \<in> set (lows @ highs). nodeOk ?oi y"
  proof
    fix y assume y: "y \<in> set (lows @ highs)"
    then have "y \<noteq> x" "nodeOk oi y" using x lk by (auto simp: linked_def)
    then show "nodeOk ?oi y" by (simp add: nodeOk_def sh)
  qed
  moreover have "headOk ?oi"
  proof -
    have "headOk oi" "0 \<noteq> x" using lk x by (auto simp: linked_def)
    then show ?thesis by (simp add: headOk_def sh flip: length_greater_0_conv)
  qed
  moreover have "sorted_wrt (<) (map (keyAt ?oi) (lows @ highs))"
    using lk by (simp add: linked_def sorted_wrt_append sh)
  ultimately show ?thesis
    using lk un(2) by (simp add: linked_def)
qed

section \<open>The set of keys\<close>

definition represents :: "orderedKeyIndex \<Rightarrow> bytes set \<Rightarrow> bool" where
  "represents oi K \<longleftrightarrow> (\<exists>ns. linked oi ns \<and> K = keyAt oi ` set ns)"

lemma representsI: "\<lbrakk>linked oi ns; keyAt oi ` set ns = K\<rbrakk> \<Longrightarrow> represents oi K"
  by (auto simp: represents_def)

lemma sorted_split:
  "sorted_wrt (<) (map f ns) \<Longrightarrow> \<exists>lows highs. ns = lows @ highs \<and> (\<forall>x \<in> set lows. f x < (k :: bytes)) \<and>
     (\<forall>x \<in> set highs. \<not> f x < k)"
proof (induction ns)
  case (Cons n ns)
  show ?case
  proof (cases "f n < k")
    case True
    from Cons obtain lows highs where "ns = lows @ highs" "\<forall>x \<in> set lows. f x < k" "\<forall>x \<in> set highs. \<not> f x < k"
      by auto
    with True show ?thesis by (intro exI [of _ "n # lows"] exI [of _ highs]) auto
  next
    case False
    with Cons.prems show ?thesis by (intro exI [of _ "[]"] exI [of _ "n # ns"]) fastforce
  qed
qed simp

lemma linked_split:
  assumes "linked oi ns"
  obtains lows highs where "ns = lows @ highs" "\<forall>x \<in> set lows. keyAt oi x < key"
    "\<forall>x \<in> set highs. \<not> keyAt oi x < key"
    "key \<in> keyAt oi ` set ns \<longleftrightarrow> (\<exists>v vs. highs = v # vs \<and> keyAt oi v = key)"
proof -
  obtain lows highs where s: "ns = lows @ highs" "\<forall>x \<in> set lows. keyAt oi x < key"
      "\<forall>x \<in> set highs. \<not> keyAt oi x < key"
    using assms sorted_split [of "keyAt oi" ns key] by (auto simp: linked_def)
  have "\<exists>v vs. highs = v # vs \<and> keyAt oi v = key" if "key \<in> keyAt oi ` set ns"
  proof -
    have h: "key \<in> keyAt oi ` set highs"
      using that s by auto
    then obtain v vs where v: "highs = v # vs" by (cases highs) auto
    have "keyAt oi v < keyAt oi w" if "w \<in> set vs" for w
      using assms that by (auto simp: linked_def s(1) v sorted_wrt_append)
    then have "keyAt oi v = key"
      using h s(3) v by fastforce
    with v show ?thesis by blast
  qed
  moreover have "key \<in> keyAt oi ` set ns" if "\<exists>v vs. highs = v # vs \<and> keyAt oi v = key"
    using that s(1) by auto
  ultimately show ?thesis
    using that [OF s] by blast
qed

lemma levelLoop_le: "levelLoop n x \<le> n"
  by (induction n x rule: levelLoop.induct) auto

lemma randomLevel_less: "randomLevel oi = (lv, oi') \<Longrightarrow> lv < oiMaxLevel"
proof -
  have "levelLoop 23 x < 24" for x
    using levelLoop_le [of 23 x] by simp
  then show "randomLevel oi = (lv, oi') \<Longrightarrow> lv < oiMaxLevel"
    by (auto simp: randomLevel_def Let_def oiMaxLevel_def)
qed

lemma chain_seed [simp]: "chain (oi\<lparr>oseed := v\<rparr>) l a ns = chain oi l a ns"
  by (induction ns arbitrary: a) auto

lemma linked_seed [simp]: "linked (oi\<lparr>oseed := v\<rparr>) ns = linked oi ns"
  by (simp add: linked_def headOk_def nodeOk_def)

lemma represents_new: "represents newOrderedKeyIndex {}"
  by (auto simp: represents_def linked_def newOrderedKeyIndex_def headOk_def oiMaxLevel_def)

lemma Insert_represents:
  assumes "represents oi K"
  shows "\<exists>oi'. Insert_key key oi = Some (key \<notin> K, oi') \<and> represents oi' (insert key K)"
proof -
  obtain lv oi1 where r: "randomLevel oi = (lv, oi1)" by fastforce
  then have oi1: "\<exists>v. oi1 = oi\<lparr>oseed := v\<rparr>" by (auto simp: randomLevel_def Let_def)
  obtain ns where ns: "linked oi1 ns" "K = keyAt oi1 ` set ns"
    using assms oi1 by (auto simp: represents_def)
  obtain lows highs where s: "ns = lows @ highs" "\<forall>x \<in> set lows. keyAt oi1 x < key"
      "\<forall>x \<in> set highs. \<not> keyAt oi1 x < key"
      "key \<in> keyAt oi1 ` set ns \<longleftrightarrow> (\<exists>v vs. highs = v # vs \<and> keyAt oi1 v = key)"
    using linked_split [OF ns(1)] by blast
  have lk: "linked oi1 (lows @ highs)" using ns s by simp
  note f = find_spec [OF lk s(2,3)]
  show ?thesis
  proof (cases "key \<in> K")
    case True
    then obtain v vs where v: "highs = v # vs" "keyAt oi1 v = key"
      using s(4) ns(2) by auto
    have "nodeOk oi1 v" using lk v by (simp add: linked_def)
    then have "Insert_key key oi = Some (False, oi1)"
      using f v by (simp add: Insert_key_def r insertLoop.simps [of lv key oi1] nodeOk_def succAt_def)
    then show ?thesis
      using True ns by (auto simp: represents_def insert_absorb)
  next
    case False
    then have no: "\<forall>v vs. highs = v # vs \<longrightarrow> keyAt oi1 v \<noteq> key"
      using s(4) ns(2) by auto
    have hi: "\<forall>x \<in> set highs. key < keyAt oi1 x"
      using False s(1,3) ns(2) by (fastforce simp: not_less_iff_gr_or_eq)
    let ?oi = "linkNode key lv (map (predAt oi1 lows) [0..<oiMaxLevel])
      (map (succAt oi1 highs) [0..<oiMaxLevel]) oi1"
    have "find_key key oi1 = Some (None, map (predAt oi1 lows) [0..<oiMaxLevel],
        map (succAt oi1 highs) [0..<oiMaxLevel])"
      using f no by (cases highs) auto
    then have "Insert_key key oi = Some (True, ?oi)"
      using insertValid_here [OF lk randomLevel_less [OF r]]
      by (simp add: Insert_key_def r insertLoop.simps [of lv key oi1])
    moreover have "linked ?oi (lows @ length (onodes oi1) # highs)"
      by (rule linkNode_linked [OF lk randomLevel_less [OF r] s(2) hi])
    moreover have "keyAt ?oi ` set (lows @ length (onodes oi1) # highs) = insert key K"
      using linkNode_nodes(3,9) [OF lk randomLevel_less [OF r], where key = key] lk ns(2) s(1)
      by (force simp: linked_def nodeOk_def)
    ultimately show ?thesis
      using False representsI by auto
  qed
qed

lemma Remove_linked:
  assumes lk: "linked oi (lows @ v # vs)"
  shows "\<exists>oi'. Remove_key (keyAt oi v) oi = Some (True, oi') \<and> linked oi' (lows @ vs) \<and>
    (\<forall>b. keyAt oi' b = keyAt oi b) \<and> nextAt oi' v 0 = nextAt oi v 0"
proof -
  let ?key = "keyAt oi v"
  have lo: "\<forall>x \<in> set lows. keyAt oi x < ?key" and hi: "\<forall>x \<in> set (v # vs). \<not> keyAt oi x < ?key"
    using lk by (fastforce simp: linked_def sorted_wrt_append)+
  let ?oi = "unlinkNode v (topLevel (node oi v)) (map (predAt oi lows) [0..<oiMaxLevel]) (setMarked v oi)"
  have nv: "nodeOk oi v" using lk by (simp add: linked_def)
  have "Remove_key ?key oi = Some (True, ?oi)"
    using find_spec [OF lk lo hi] nv removeValid_here [OF lk]
    by (simp add: Remove_key_def removeLoop.simps [of None ?key oi] nodeOk_def succAt_def Let_def)
  moreover have "linked ?oi (lows @ vs)"
    by (rule unlinkNode_linked [OF lk])
  moreover have "keyAt ?oi b = keyAt oi b" for b
    using unlinkNode_nodes(1) [OF lk] by (simp add: sameShape_def)
  moreover have "nextAt ?oi v 0 = nextAt oi v 0"
    using unlinkNode_nodes(3) [OF lk, of v 0] predAt_ok(4) [OF lk, of 0] by (auto simp: oiMaxLevel_def)
  ultimately show ?thesis by blast
qed

lemma Remove_represents:
  assumes "represents oi K"
  shows "\<exists>oi'. Remove_key key oi = Some (key \<in> K, oi') \<and> represents oi' (K - {key})"
proof -
  obtain ns where ns: "linked oi ns" "K = keyAt oi ` set ns"
    using assms by (auto simp: represents_def)
  obtain lows highs where s: "ns = lows @ highs" "\<forall>x \<in> set lows. keyAt oi x < key"
      "\<forall>x \<in> set highs. \<not> keyAt oi x < key"
      "key \<in> keyAt oi ` set ns \<longleftrightarrow> (\<exists>v vs. highs = v # vs \<and> keyAt oi v = key)"
    using linked_split [OF ns(1)] by blast
  have lk: "linked oi (lows @ highs)" using ns s by simp
  show ?thesis
  proof (cases "key \<in> K")
    case True
    then obtain v vs where v: "highs = v # vs" "keyAt oi v = key"
      using s(4) ns(2) by auto
    then obtain oi' where oi': "Remove_key key oi = Some (True, oi')" "linked oi' (lows @ vs)"
        "\<forall>b. keyAt oi' b = keyAt oi b"
      using Remove_linked [of oi lows v vs] lk by auto
    have "key \<notin> keyAt oi ` set (lows @ vs)"
      using lk v by (fastforce simp: linked_def sorted_wrt_append)
    then have "keyAt oi' ` set (lows @ vs) = K - {key}"
      using oi'(3) ns(2) s(1) v by auto
    then show ?thesis
      using True oi' representsI by auto
  next
    case False
    then have "\<forall>v vs. highs = v # vs \<longrightarrow> keyAt oi v \<noteq> key"
      using s(4) ns(2) by auto
    then have "find_key key oi = Some (None, map (predAt oi lows) [0..<oiMaxLevel],
        map (succAt oi highs) [0..<oiMaxLevel])"
      using find_spec [OF lk s(2,3)] by (cases highs) auto
    then have "Remove_key key oi = Some (False, oi)"
      by (simp add: Remove_key_def removeLoop.simps [of None key oi])
    then show ?thesis
      using False assms by auto
  qed
qed

section \<open>Lookups and scans\<close>

lemma containsLevels_spec:
  assumes "linked oi (lows @ highs)" "n \<le> oiMaxLevel"
    and "\<forall>x \<in> set lows. keyAt oi x < key" "\<forall>x \<in> set highs. \<not> keyAt oi x < key"
  shows "containsLevels oi key n (predAt oi lows n) = Some (\<exists>l < n. metAt oi highs key l)"
  using assms(2)
proof (induction n)
  case (Suc n)
  then have "walk (\<lambda>k. k < key) oi n (predAt oi lows (Suc n)) =
      Some (predAt oi lows n, succAt oi highs n)"
    using assms by (intro walk_level) (auto simp: linked_def)
  moreover have "fullyLinked (node oi c) \<and> \<not> marked (node oi c)" if "succAt oi highs n = Some c" for c
    using headOpt_in [of n oi highs c] that assms(1) by (auto simp: succAt_def linked_def nodeOk_def)
  moreover have "(\<exists>l < Suc n. metAt oi highs key l) \<longleftrightarrow> metAt oi highs key n \<or> (\<exists>l < n. metAt oi highs key l)"
    by (auto simp: less_Suc_eq)
  ultimately show ?case
    using Suc by (auto simp: metAt_def [of _ _ _ n] split: option.splits)
qed simp

lemma predAt_top: "linked oi (lows @ highs) \<Longrightarrow> predAt oi lows oiMaxLevel = 0"
  using level_all [of lows oi] by (auto simp: predAt_def linked_def nodeOk_def)

lemma contains_represents:
  assumes "represents oi K"
  shows "contains_key key oi = Some (key \<in> K)"
proof -
  obtain ns where ns: "linked oi ns" "K = keyAt oi ` set ns"
    using assms by (auto simp: represents_def)
  obtain lows highs where s: "ns = lows @ highs" "\<forall>x \<in> set lows. keyAt oi x < key"
      "\<forall>x \<in> set highs. \<not> keyAt oi x < key"
      "key \<in> keyAt oi ` set ns \<longleftrightarrow> (\<exists>v vs. highs = v # vs \<and> keyAt oi v = key)"
    using linked_split [OF ns(1)] by blast
  have lk: "linked oi (lows @ highs)" using ns s by simp
  have "contains_key key oi = Some (\<exists>l < oiMaxLevel. metAt oi highs key l)"
    using containsLevels_spec [OF lk _ s(2,3), of oiMaxLevel] predAt_top [OF lk]
    by (simp add: contains_key_def)
  moreover have "(\<exists>l < oiMaxLevel. metAt oi highs key l) \<longleftrightarrow> key \<in> K"
  proof
    assume "\<exists>l < oiMaxLevel. metAt oi highs key l"
    then obtain l c where "succAt oi highs l = Some c" "keyAt oi c = key"
      by (auto simp: metAt_def split: option.splits)
    then show "key \<in> K"
      using headOpt_in [of l oi highs c] s(1) ns(2) by (auto simp: succAt_def)
  next
    assume "key \<in> K"
    then obtain v vs where v: "highs = v # vs" "keyAt oi v = key" using s(4) ns(2) by auto
    then have "metAt oi highs key 0" by (simp add: metAt_def succAt_def)
    moreover have "0 < oiMaxLevel" by (simp add: oiMaxLevel_def)
    ultimately show "\<exists>l < oiMaxLevel. metAt oi highs key l" by blast
  qed
  ultimately show ?thesis by simp
qed

lemma seekLevels_spec:
  assumes "linked oi (lows @ highs)" "n \<le> oiMaxLevel"
    and "\<forall>x \<in> set lows. bound = [] \<or> keyAt oi x < bound"
    and "\<forall>x \<in> set highs. \<not> (bound = [] \<or> keyAt oi x < bound)"
  shows "seekLevels oi bound n (predAt oi lows n) = Some (predAt oi lows 0)"
  using assms(2)
proof (induction n)
  case (Suc n)
  then have "walk (\<lambda>k. bound = [] \<or> k < bound) oi n (predAt oi lows (Suc n)) =
      Some (predAt oi lows n, succAt oi highs n)"
    using assms by (intro walk_level) (auto simp: linked_def)
  with Suc show ?case by simp
qed simp

text \<open>The keys of a represented set that lie below a bound, where the empty bound is no bound.\<close>

definition keysBelow :: "bytes \<Rightarrow> bytes set \<Rightarrow> bytes set" where
  "keysBelow bound K = {k \<in> K. bound = [] \<or> k < bound}"

lemma represents_finite: "represents oi K \<Longrightarrow> finite K"
  by (auto simp: represents_def)

lemma linked_last_Max:
  assumes "linked oi (lows @ highs)" "lows \<noteq> []"
  shows "keyAt oi (last lows) = Max (keyAt oi ` set lows)"
proof -
  have st: "sorted_wrt (<) (map (keyAt oi) lows)"
    using assms(1) by (simp add: linked_def sorted_wrt_append)
  obtain us x where us: "lows = us @ [x]" using assms(2) by (metis rev_exhaust)
  then have "\<forall>y \<in> set us. keyAt oi y < keyAt oi x"
    using st by (auto simp: sorted_wrt_append)
  then show ?thesis
    unfolding us by (intro Max_eqI [symmetric]) auto
qed

lemma seekLT_represents:
  assumes "represents oi K"
  shows "seekLT bound oi = Some (if keysBelow bound K = {} then None else Some (Max (keysBelow bound K)))"
proof -
  obtain ns where ns: "linked oi ns" "K = keyAt oi ` set ns"
    using assms by (auto simp: represents_def)
  obtain lows highs where s: "ns = lows @ highs" "\<forall>x \<in> set lows. bound = [] \<or> keyAt oi x < bound"
      "\<forall>x \<in> set highs. \<not> (bound = [] \<or> keyAt oi x < bound)"
  proof (cases "bound = []")
    case True
    then show ?thesis using that [of ns "[]"] by simp
  next
    case False
    then show ?thesis using that linked_split [OF ns(1), of bound] by metis
  qed
  have lk: "linked oi (lows @ highs)" using ns s by simp
  have K: "keysBelow bound K = keyAt oi ` set lows"
    using s ns(2) by (auto simp: keysBelow_def)
  have "seekLevels oi bound oiMaxLevel 0 = Some (last (0 # lows))"
    using seekLevels_spec [OF lk _ s(2,3), of oiMaxLevel] predAt_top [OF lk]
    by (simp add: predAt_def)
  moreover have "last lows \<noteq> 0" if "lows \<noteq> []"
    using linked_distinct [OF lk] last_in_set [OF that] by auto
  ultimately show ?thesis
    using linked_last_Max [OF lk] by (cases "lows = []") (simp_all add: seekLT_def K)
qed

text \<open>What a scan does with its callback: the keys one after the other until it says stop.\<close>

fun visit :: "(bytes \<Rightarrow> 's \<Rightarrow> (bool \<times> 's) option) \<Rightarrow> bytes list \<Rightarrow> 's \<Rightarrow> 's option" where
  "visit fn [] s = Some s"
| "visit fn (k # ks) s = (case fn k s of
     None \<Rightarrow> None
   | Some (goOn, s1) \<Rightarrow> if \<not> goOn then Some s1 else visit fn ks s1)"

text \<open>A callback may drop the key it is called with from the index and nothing else.\<close>

definition callbackOk :: "('s \<Rightarrow> orderedKeyIndex) \<Rightarrow> (bytes \<Rightarrow> 's \<Rightarrow> (bool \<times> 's) option) \<Rightarrow> bool" where
  "callbackOk oi_of fn \<longleftrightarrow> (\<forall>k s goOn s1. fn k s = Some (goOn, s1) \<longrightarrow>
     oi_of s1 = oi_of s \<or> (\<exists>r. Remove_key k (oi_of s) = Some (r, oi_of s1)))"

lemma callback_represents:
  assumes "callbackOk oi_of fn" "fn k s = Some (goOn, s1)" "represents (oi_of s) K"
  shows "\<exists>K1. represents (oi_of s1) K1 \<and> (K1 = K \<or> K1 = K - {k})"
proof (cases "oi_of s1 = oi_of s")
  case False
  then obtain r where "Remove_key k (oi_of s) = Some (r, oi_of s1)"
    using assms(1,2) unfolding callbackOk_def by blast
  then have "represents (oi_of s1) (K - {k})"
    using Remove_represents [OF assms(3), of k] by auto
  then show ?thesis by auto
qed (use assms(3) in auto)

text \<open>Descending: the largest key first.\<close>

lemma sorted_list_of_set_Max:
  assumes "finite S" "S \<noteq> {}"
  shows "sorted_list_of_set S = sorted_list_of_set (S - {Max S}) @ [Max S]"
proof -
  let ?xs = "sorted_list_of_set (S - {Max S}) @ [Max S]"
  have "sorted ?xs" "distinct ?xs"
    using assms(1) by (auto simp: sorted_append)
  then have "sorted_list_of_set (set ?xs) = ?xs"
    by (rule sorted_list_of_set.idem_if_sorted_distinct)
  moreover have "set ?xs = S"
    using assms(1) Max_in [OF assms] by (simp add: insert_absorb)
  ultimately show ?thesis by (simp only:)
qed

definition rangeSet :: "bytes \<Rightarrow> bytes \<Rightarrow> bytes set \<Rightarrow> bytes set" where
  "rangeSet start end K = {k \<in> keysBelow end K. start \<le> k}"

lemma rangeSet_Max:
  assumes "finite K" "keysBelow end K \<noteq> {}" "start \<le> Max (keysBelow end K)"
  shows "finite (rangeSet start end K)" "rangeSet start end K \<noteq> {}"
    "Max (rangeSet start end K) = Max (keysBelow end K)"
proof -
  have fin: "finite (keysBelow end K)" using assms(1) by (simp add: keysBelow_def)
  then show "finite (rangeSet start end K)" by (simp add: rangeSet_def)
  have m: "Max (keysBelow end K) \<in> rangeSet start end K"
    using Max_in [OF fin assms(2)] assms(3) by (simp add: rangeSet_def)
  then show "rangeSet start end K \<noteq> {}" by blast
  show "Max (rangeSet start end K) = Max (keysBelow end K)"
    using m fin by (intro Max_eqI) (auto simp: rangeSet_def)
qed

lemma rangeSet_below:
  assumes "finite K" "keysBelow end K \<noteq> {}" "Max (keysBelow end K) \<noteq> []" "K1 = K \<or> K1 = K - {Max (keysBelow end K)}"
  shows "keysBelow (Max (keysBelow end K)) K1 = keysBelow end K - {Max (keysBelow end K)}"
    "rangeSet start (Max (keysBelow end K)) K1 = rangeSet start end K - {Max (keysBelow end K)}"
proof -
  define m where "m = Max (keysBelow end K)"
  have fin: "finite (keysBelow end K)" using assms(1) by (simp add: keysBelow_def)
  have m: "m \<in> keysBelow end K" "\<And>x. x \<in> keysBelow end K \<Longrightarrow> x \<le> m"
    unfolding m_def using fin assms(2) by simp_all
  note hyps = assms(3,4) [folded m_def]
  have "keysBelow m K1 = keysBelow end K - {m}"
  proof (intro equalityI subsetI)
    fix x assume "x \<in> keysBelow m K1"
    then have "x \<in> K" "x < m" using hyps by (auto simp: keysBelow_def)
    then show "x \<in> keysBelow end K - {m}"
      using m(1) order.strict_trans [of x m "end"] by (auto simp: keysBelow_def)
  next
    fix x assume x: "x \<in> keysBelow end K - {m}"
    then have "x < m" using m(2) [of x] by auto
    then show "x \<in> keysBelow m K1"
      using x hyps(2) by (auto simp: keysBelow_def)
  qed
  then show "keysBelow (Max (keysBelow end K)) K1 = keysBelow end K - {Max (keysBelow end K)}"
    by (simp only: m_def)
  then show "rangeSet start (Max (keysBelow end K)) K1 = rangeSet start end K - {Max (keysBelow end K)}"
    by (auto simp only: rangeSet_def)
qed

lemma descendFrom_visits:
  assumes "callbackOk oi_of fn" "represents (oi_of s) K" "start \<noteq> [] \<or> [] \<notin> K"
  shows "descendFrom oi_of start fn bound s = visit fn (rev (sorted_list_of_set (rangeSet start bound K))) s"
  using assms(2,3)
proof (induction "card (keysBelow bound K)" arbitrary: bound s K rule: less_induct)
  case less
  note fin = represents_finite [OF less.prems(1)]
  note seek = seekLT_represents [OF less.prems(1), of bound]
  show ?case
  proof (cases "keysBelow bound K = {} \<or> Max (keysBelow bound K) < start")
    case True
    then have "rangeSet start bound K = {}"
    proof (cases "keysBelow bound K = {}")
      case False
      moreover have "finite (keysBelow bound K)" using fin by (simp add: keysBelow_def)
      ultimately have "\<forall>x \<in> keysBelow bound K. x < start"
        using True by simp
      then show ?thesis by (fastforce simp: rangeSet_def)
    qed (simp add: rangeSet_def)
    then show ?thesis
      using True seek by (subst descendFrom.simps) (simp, blast)
  next
    case False
    define m where "m = Max (keysBelow bound K)"
    have ne: "keysBelow bound K \<noteq> {}" and st: "start \<le> m" using False m_def by (auto simp only: not_less)
    have fu: "finite (keysBelow bound K)" using fin by (simp add: keysBelow_def)
    have m: "m \<in> keysBelow bound K" unfolding m_def using fu ne by simp
    have "m \<noteq> []"
    proof
      assume "m = []"
      then show False using st m less.prems(2) by (simp add: keysBelow_def)
    qed
    note below = rangeSet_below [OF fin ne, folded m_def, OF this]
    have ks: "rev (sorted_list_of_set (rangeSet start bound K)) =
        m # rev (sorted_list_of_set (rangeSet start bound K - {m}))"
      using sorted_list_of_set_Max [of "rangeSet start bound K"] rangeSet_Max [OF fin ne, of start] st
      by (simp add: m_def)
    have "descendFrom oi_of start fn m s1 =
        visit fn (rev (sorted_list_of_set (rangeSet start bound K - {m}))) s1"
      if fm: "fn m s = Some (goOn, s1)" for goOn s1
    proof -
      obtain K1 where K1: "represents (oi_of s1) K1" "K1 = K \<or> K1 = K - {m}"
        using callback_represents [OF assms(1) fm less.prems(1)] by blast
      have "card (keysBelow m K1) < card (keysBelow bound K)"
        unfolding below(1) [OF K1(2)] using fu m by (rule card_Diff1_less)
      then show ?thesis
        using less.hyps [OF _ K1(1)] K1(2) less.prems(2) below(2) [OF K1(2)] by auto
    qed
    then show ?thesis
      using ne leD [OF st] seek
      by (subst descendFrom.simps) (simp add: ks m_def [symmetric] split: option.splits)
  qed
qed

text \<open>Ascending: the iterator stays on its node while the callback runs.\<close>

lemma linked_next:
  assumes "linked oi (lows @ c # cs)"
  shows "nextAt oi c 0 = headOpt cs"
proof -
  have "\<forall>l < oiMaxLevel. chain oi l 0 (level oi l (lows @ c # cs))" "0 < oiMaxLevel"
    using assms by (simp_all only: linked_def oiMaxLevel_def) simp
  then have "chain oi 0 0 (lows @ c # cs)"
    by fastforce
  from chain_drop [OF this] show ?thesis
    by (cases cs) simp_all
qed

lemma callback_linked:
  assumes "callbackOk oi_of fn" "linked (oi_of s) (lows @ c # cs)"
    and "fn (keyAt (oi_of s) c) s = Some (goOn, s1)"
  shows "\<exists>lows1. linked (oi_of s1) (lows1 @ cs) \<and> nextAt (oi_of s1) c 0 = headOpt cs \<and>
    (\<forall>b. keyAt (oi_of s1) b = keyAt (oi_of s) b)"
proof (cases "oi_of s1 = oi_of s")
  case True
  then show ?thesis
    using assms(2) linked_next [OF assms(2)] by (intro exI [of _ "lows @ [c]"]) simp
next
  case False
  then obtain r where "Remove_key (keyAt (oi_of s) c) (oi_of s) = Some (r, oi_of s1)"
    using assms(1,3) unfolding callbackOk_def by blast
  then show ?thesis
    using Remove_linked [OF assms(2)] linked_next [OF assms(2)] by auto
qed

lemma ascendFrom_visits:
  assumes "callbackOk oi_of fn" "linked (oi_of s) (lows @ highs)"
  shows "ascendFrom oi_of end fn (headOpt highs) s =
    visit fn (takeWhile (\<lambda>k. end = [] \<or> k < end) (map (keyAt (oi_of s)) highs)) s"
  using assms(2)
proof (induction highs arbitrary: lows s)
  case Nil
  show ?case by (subst ascendFrom.simps) simp
next
  case (Cons c cs)
  let ?k = "keyAt (oi_of s) c"
  have ok: "fullyLinked (node (oi_of s) c)" "\<not> marked (node (oi_of s) c)"
    using Cons.prems by (simp_all add: linked_def nodeOk_def)
  show ?case
  proof (cases "end = [] \<or> ?k < end")
    case False
    then have "end \<noteq> []" "end \<le> ?k" by auto
    with False show ?thesis by (subst ascendFrom.simps) simp
  next
    case True
    have "ascendFrom oi_of end fn (nextAt (oi_of s1) c 0) s1 =
        visit fn (takeWhile (\<lambda>k. end = [] \<or> k < end) (map (keyAt (oi_of s)) cs)) s1"
      if fm: "fn ?k s = Some (goOn, s1)" for goOn s1
    proof -
      obtain lows1 where l1: "linked (oi_of s1) (lows1 @ cs)" "nextAt (oi_of s1) c 0 = headOpt cs"
          "\<forall>b. keyAt (oi_of s1) b = keyAt (oi_of s) b"
        using callback_linked [OF assms(1) Cons.prems fm] by blast
      have "map (keyAt (oi_of s1)) cs = map (keyAt (oi_of s)) cs"
        using l1(3) by simp
      with Cons.IH [OF l1(1)] l1(2) show ?thesis by simp
    qed
    moreover have "\<not> (end \<noteq> [] \<and> end \<le> ?k)" using True by auto
    ultimately show ?thesis
      using True ok by (subst ascendFrom.simps) (auto simp: Let_def split: option.splits)
  qed
qed

lemma sorted_takeWhile_set:
  assumes "sorted_wrt (<) ks"
  shows "takeWhile (\<lambda>k. end = [] \<or> k < (end :: bytes)) ks = sorted_list_of_set {k \<in> set ks. end = [] \<or> k < end}"
proof -
  have "takeWhile (\<lambda>k. end = [] \<or> k < end) ks = filter (\<lambda>k. end = [] \<or> k < end) ks"
    using assms
  proof (induction ks)
    case (Cons k ks)
    have "filter (\<lambda>k. k < end) ks = []" if "\<not> k < end"
      using Cons.prems that by (fastforce simp: filter_empty_conv)
    with Cons show ?case by (cases "end = []") auto
  qed simp
  moreover have "sorted_wrt (<) (filter (\<lambda>k. end = [] \<or> k < end) ks)"
    by (rule sorted_wrt_filter [OF assms])
  then have "sorted_list_of_set (set (filter (\<lambda>k. end = [] \<or> k < end) ks)) =
      filter (\<lambda>k. end = [] \<or> k < end) ks"
    by (intro sorted_list_of_set.idem_if_sorted_distinct) (simp_all add: strict_sorted_iff)
  ultimately show ?thesis by simp
qed

lemma ascend_visits:
  assumes "callbackOk oi_of fn" "represents (oi_of s) K"
  shows "ascend oi_of start end fn s = visit fn (sorted_list_of_set (rangeSet start end K)) s"
proof -
  let ?oi = "oi_of s"
  obtain ns where ns: "linked ?oi ns" "K = keyAt ?oi ` set ns"
    using assms by (auto simp: represents_def)
  obtain lows highs where s: "ns = lows @ highs" "\<forall>x \<in> set lows. keyAt ?oi x < start"
      "\<forall>x \<in> set highs. \<not> keyAt ?oi x < start"
    using linked_split [OF ns(1), of start] by metis
  have lk: "linked ?oi (lows @ highs)" using ns s by simp
  have "sorted_wrt (<) (map (keyAt ?oi) highs)"
    using lk by (simp add: linked_def sorted_wrt_append)
  note sorted_takeWhile_set [OF this, of "end"]
  moreover have "{k \<in> set (map (keyAt ?oi) highs). end = [] \<or> k < end} = rangeSet start end K"
    using s ns(2) by (auto simp: rangeSet_def keysBelow_def not_less)
  moreover have "succAt ?oi highs 0 = headOpt highs"
    by (simp add: succAt_def)
  ultimately show ?thesis
    using find_spec [OF lk s(2,3)] ascendFrom_visits [OF assms(1) lk, of "end"]
    by (simp add: ascend_def oiMaxLevel_def)
qed

section \<open>The interface\<close>

text \<open>
  \<open>Insert\<close> and \<open>Remove\<close> return on every represented index, so the shards call them through
  these total forms.
\<close>

definition oInsert :: "bytes \<Rightarrow> orderedKeyIndex \<Rightarrow> orderedKeyIndex" where
  "oInsert key oi = (case Insert_key key oi of Some (_, oi') \<Rightarrow> oi' | None \<Rightarrow> oi)"

definition oRemove :: "bytes \<Rightarrow> orderedKeyIndex \<Rightarrow> orderedKeyIndex" where
  "oRemove key oi = (case Remove_key key oi of Some (_, oi') \<Rightarrow> oi' | None \<Rightarrow> oi)"

text \<open>A key set as a client sees it: what it holds after an insertion and after a removal.\<close>

locale key_set =
  fixes holds :: "'s \<Rightarrow> 'k set \<Rightarrow> bool" and ins :: "'k \<Rightarrow> 's \<Rightarrow> 's" and del :: "'k \<Rightarrow> 's \<Rightarrow> 's"
  assumes holds_ins: "holds s K \<Longrightarrow> holds (ins k s) (insert k K)"
    and holds_del: "holds s K \<Longrightarrow> holds (del k s) (K - {k})"
begin

lemma holds_ins_all: "holds s K \<Longrightarrow> holds (fold ins ks s) (set ks \<union> K)"
proof (induction ks arbitrary: s K)
  case (Cons k ks)
  from Cons.IH [OF holds_ins [OF Cons.prems, of k]] show ?case by simp
qed simp

lemma holds_del_all: "holds s K \<Longrightarrow> holds (fold del ks s) (K - set ks)"
proof (induction ks arbitrary: s K)
  case (Cons k ks)
  have "K - {k} - set ks = K - set (k # ks)" by auto
  with Cons.IH [OF holds_del [OF Cons.prems, of k]] show ?case
    by simp
qed simp

lemma holds_ins_present: "holds s K \<Longrightarrow> k \<in> K \<Longrightarrow> holds (ins k s) K"
  using holds_ins [of s K k] by (simp add: insert_absorb)

lemma holds_del_absent: "holds s K \<Longrightarrow> k \<notin> K \<Longrightarrow> holds (del k s) K"
  using holds_del [of s K k] by simp

end

interpretation oi: key_set represents oInsert oRemove
proof
  fix s K k assume r: "represents s K"
  show "represents (oInsert k s) (insert k K)"
    using Insert_represents [OF r, of k] by (auto simp: oInsert_def)
  show "represents (oRemove k s) (K - {k})"
    using Remove_represents [OF r, of k] by (auto simp: oRemove_def)
qed

section \<open>The skip list is an ordered set\<close>

text \<open>
  C11: on an index that represents a set of keys, \<open>Insert\<close> returns whether
  the key was new and leaves the set with it, \<open>Remove\<close> returns whether it was there and leaves
  the set without it, and \<open>contains\<close> answers membership. None of the search or retry loops
  runs for ever.
\<close>

theorem ordered_index_refines:
  assumes "represents oi K"
  shows "(\<exists>oi'. Insert_key key oi = Some (key \<notin> K, oi') \<and> represents oi' (insert key K)) \<and>
    (\<exists>oi'. Remove_key key oi = Some (key \<in> K, oi') \<and> represents oi' (K - {key})) \<and>
    contains_key key oi = Some (key \<in> K)"
  using Insert_represents [OF assms] Remove_represents [OF assms] contains_represents [OF assms]
  by blast

theorem ordered_index_refines_witness:
  "\<exists>oi. represents oi {[7 :: byte]} \<and> contains_key [7] oi = Some True \<and>
     (\<exists>oi'. Remove_key [7] oi = Some (True, oi') \<and> represents oi' {})"
proof -
  obtain oi where oi: "represents oi {[7 :: byte]}"
    using ordered_index_refines [OF represents_new, of "[7]"] by auto
  with ordered_index_refines [OF oi, of "[7]"] show ?thesis by auto
qed

text \<open>
  C25: a forward scan hands its callback exactly the keys of the interval in
  ascending order until the callback stops it, also when the callback drops expired keys
  from the index on the way; a reverse scan does the same in descending order unless the
  interval starts at the empty key and that key is present.
\<close>

theorem range_scan_visits:
  assumes "callbackOk oi_of fn" "represents (oi_of s) K"
  shows "ascend oi_of start end fn s = visit fn (sorted_list_of_set (rangeSet start end K)) s \<and>
    (start \<noteq> [] \<or> [] \<notin> K \<longrightarrow>
     descend oi_of start end fn s = visit fn (rev (sorted_list_of_set (rangeSet start end K))) s)"
  using ascend_visits [OF assms] descendFrom_visits [OF assms] by (simp add: descend_def)

definition collectKey :: "bytes \<Rightarrow> orderedKeyIndex \<times> bytes list \<Rightarrow>
    (bool \<times> orderedKeyIndex \<times> bytes list) option" where
  "collectKey k s = Some (True, fst s, snd s @ [k])"

lemma collectKey_ok: "callbackOk fst collectKey"
  by (auto simp: callbackOk_def collectKey_def)

lemma represents_example: "\<exists>oi. represents oi {[7 :: byte], [9]}"
  using oi.holds_ins_all [OF represents_new, of "[[7], [9]]"] by auto

theorem range_scan_visits_witness:
  "\<exists>oi. represents oi {[7 :: byte], [9]} \<and>
     ascend fst [8] [] collectKey (oi, []) = Some (oi, [[9]]) \<and>
     descend fst [1] [] collectKey (oi, []) = Some (oi, [[9], [7]])"
proof -
  obtain oi where oi: "represents oi {[7 :: byte], [9]}"
    using represents_example by blast
  have s: "rangeSet [8] [] {[7 :: byte], [9]} = {[9]}" "rangeSet [1] [] {[7 :: byte], [9]} = {[7], [9]}"
    by (auto simp: rangeSet_def keysBelow_def)
  have "ascend fst [8] [] collectKey (oi, []) = Some (oi, [[9]])"
    using range_scan_visits [OF collectKey_ok, of "(oi, [])" _ "[8]" "[]"] oi
    by (auto simp: s collectKey_def)
  moreover have "descend fst [1] [] collectKey (oi, []) = Some (oi, [[9], [7]])"
    using range_scan_visits [OF collectKey_ok, of "(oi, [])" _ "[1]" "[]"] oi
    by (auto simp: s collectKey_def)
  ultimately show ?thesis using oi by blast
qed

text \<open>
  C32: \<open>seekLT\<close> reads an empty bound as "no bound", and \<open>descend\<close> passes
  the last key it visited as the next bound. When the empty key is live and the interval has
  no lower limit, a reverse scan whose callback never stops it starts again at the maximum
  after visiting the empty key and never returns.
\<close>

theorem reverse_scan_diverges:
  assumes "represents (oi_of s) K" "[] \<in> K"
    and "\<forall>k s. \<exists>s1. fn k s = Some (True, s1) \<and> oi_of s1 = oi_of s"
  shows "descend oi_of [] end fn s = None"
proof -
  have "o' = oi_of \<longrightarrow> st = [] \<longrightarrow> f = fn \<longrightarrow> \<not> represents (oi_of u) K"
    if d: "descendFrom o' st f bound u = Some r" for o' st f bound u r
  proof (rule descendFrom.raw_induct [OF _ d])
    fix run :: "('a \<Rightarrow> orderedKeyIndex) \<Rightarrow> bytes \<Rightarrow> (bytes \<Rightarrow> 'a \<Rightarrow> (bool \<times> 'a) option) \<Rightarrow> bytes \<Rightarrow> 'a \<Rightarrow> 'a option"
      and o' st f b u r
    assume IH: "\<And>o' st f b u r. run o' st f b u = Some r \<Longrightarrow>
        o' = oi_of \<longrightarrow> st = [] \<longrightarrow> f = fn \<longrightarrow> \<not> represents (oi_of u) K"
      and body: "(case seekLT b (o' u) of None \<Rightarrow> None | Some None \<Rightarrow> Some u
        | Some (Some k) \<Rightarrow> if k < st then Some u
            else case f k u of None \<Rightarrow> None
              | Some (goOn, s1) \<Rightarrow> if \<not> goOn then Some s1 else run o' st f k s1) = Some r"
    show "o' = oi_of \<longrightarrow> st = [] \<longrightarrow> f = fn \<longrightarrow> \<not> represents (oi_of u) K"
    proof (intro impI notI)
      assume e: "o' = oi_of" "st = []" "f = fn" and r: "represents (oi_of u) K"
      have "[] \<in> keysBelow b K"
        using assms(2) by (cases b) (simp_all add: keysBelow_def)
      then have ne: "keysBelow b K \<noteq> {}" by blast
      obtain s1 where s1: "fn (Max (keysBelow b K)) u = Some (True, s1)" "oi_of s1 = oi_of u"
        using assms(3) by blast
      have "run oi_of [] fn (Max (keysBelow b K)) s1 = Some r"
        using body seekLT_represents [OF r, of b] ne s1(1) by (simp add: e)
      from IH [OF this] show False using r s1(2) by simp
    qed
  qed
  then show ?thesis
    using assms(1) by (cases "descend oi_of [] end fn s") (auto simp: descend_def)
qed

theorem reverse_scan_diverges_witness:
  "\<exists>oi. represents oi {[] :: bytes} \<and> descend fst [] [] collectKey (oi, []) = None"
proof -
  obtain oi where oi: "represents oi {[] :: bytes}"
    using oi.holds_ins [OF represents_new, of "[]"] by auto
  have "\<forall>k s. \<exists>s1. collectKey k s = Some (True, s1) \<and> fst s1 = fst s"
    by (simp add: collectKey_def)
  from reverse_scan_diverges [OF _ _ this, of "(oi, [])" "{[]}" "[]"] oi show ?thesis by auto
qed

end
