(* ===== verification/Bloom.thy ===== *)
theory Bloom
  imports Prelude
begin

text \<open>
  The per-shard Bloom filter (\<open>src/storage/bloom_shard.go\<close>): \<open>k\<close> probe positions derived from
  the two halves of the 64-bit key hash, in an array of 64-bit words whose size is a power of
  two. Each probe's compare-and-swap loop is one update of its word.
\<close>

record shardBloom =
  bfBits :: "u64 list"
  bfMask :: u64
  bfK :: nat

text \<open>The first power of two that is not below \<open>words\<close>, found by doubling.\<close>

function nextPow2 :: "nat \<Rightarrow> nat \<Rightarrow> nat" where
  "nextPow2 p words = (if p = 0 \<or> p \<ge> words then p else nextPow2 (2 * p) words)"
  by pat_completeness auto
termination
  by (relation "measure (\<lambda>(p, words). words - p)") auto

declare nextPow2.simps [simp del]

definition newShardBloom :: "nat \<Rightarrow> nat \<Rightarrow> shardBloom" where
  "newShardBloom bitCount k =
     (let bitCount = (if bitCount < 64 then 64 else bitCount);
          words = (bitCount + 63) div 64; pow2 = nextPow2 1 words
      in \<lparr>bfBits = replicate pow2 0, bfMask = of_nat (pow2 * 64 - 1),
          bfK = (if k = 0 then 7 else if k > 16 then 16 else k)\<rparr>)"

definition probe :: "shardBloom \<Rightarrow> u64 \<Rightarrow> nat \<Rightarrow> u64" where
  "probe b h i =
     (let h1 = h AND 0xFFFFFFFF; h2 = drop_bit 32 h
      in (h1 + of_nat i * h2) AND bfMask b)"

definition probes :: "shardBloom \<Rightarrow> u64 \<Rightarrow> u64 list" where
  "probes b h = map (probe b h) [0..<bfK b]"

definition setBit :: "u64 \<Rightarrow> shardBloom \<Rightarrow> shardBloom" where
  "setBit pos b =
     (let word = unat (drop_bit 6 pos); bit' = push_bit (unat (pos AND 63)) 1
      in b\<lparr>bfBits := (bfBits b)[word := bfBits b ! word OR bit']\<rparr>)"

definition Add :: "u64 \<Rightarrow> shardBloom \<Rightarrow> shardBloom" where
  "Add h b = fold setBit (probes b h) b"

definition testBit :: "shardBloom \<Rightarrow> u64 \<Rightarrow> bool" where
  "testBit b pos \<longleftrightarrow>
     bfBits b ! unat (drop_bit 6 pos) AND push_bit (unat (pos AND 63)) 1 \<noteq> 0"

definition MayContain :: "shardBloom \<Rightarrow> u64 \<Rightarrow> bool" where
  "MayContain b h \<longleftrightarrow> list_all (testBit b) (probes b h)"

definition Reset :: "shardBloom \<Rightarrow> shardBloom" where
  "Reset b = b\<lparr>bfBits := replicate (length (bfBits b)) 0\<rparr>"

section \<open>No false negatives\<close>

text \<open>The mask selects a bit of the array.\<close>

definition bloomOk :: "shardBloom \<Rightarrow> bool" where
  "bloomOk b \<longleftrightarrow> (\<exists>n. length (bfBits b) = 2 ^ n \<and> n \<le> 57 \<and> bfMask b = mask (n + 6))"

lemma nextPow2_power: "\<exists>n. nextPow2 (2 ^ m) words = 2 ^ n \<and> words \<le> 2 ^ n"
proof (induction "2 ^ m :: nat" words arbitrary: m rule: nextPow2.induct)
  case (1 words)
  show ?case
  proof (cases "words \<le> 2 ^ m")
    case True
    then show ?thesis by (auto simp: nextPow2.simps [of "2 ^ m"])
  next
    case False
    then show ?thesis
      using 1 [of "Suc m"] by (simp add: nextPow2.simps [of "2 ^ m"])
  qed
qed

lemma nextPow2_small: "p \<le> 2 * words \<Longrightarrow> nextPow2 p words \<le> 2 * words"
proof (induction p words rule: nextPow2.induct)
  case (1 p words)
  then show ?case
    by (simp add: nextPow2.simps [of p words])
qed

lemma bloomOk_new:
  assumes "bitCount \<le> 2 ^ 40"
  shows "bloomOk (newShardBloom bitCount k)"
proof -
  define words where "words = ((if bitCount < 64 then 64 else bitCount) + 63) div 64"
  obtain n where n: "nextPow2 1 words = 2 ^ n"
    using nextPow2_power [of 0 words] by auto
  have "1 \<le> words" "words \<le> 2 ^ 35"
    using assms by (auto simp: words_def)
  then have "2 ^ n \<le> (2::nat) ^ 36"
    using nextPow2_small [of 1 words] n by simp
  then have "n \<le> 36"
    by (rule power_le_imp_le_exp [rotated]) simp
  moreover have "(of_nat (2 ^ n * 64 - 1) :: u64) = mask (n + 6)"
  proof -
    have "(2::nat) ^ n * 64 = 2 ^ (n + 6)"
      by (simp add: power_add)
    then show ?thesis
      by (simp add: mask_eq_exp_minus_1 of_nat_diff)
  qed
  ultimately show ?thesis
    using n by (auto simp: bloomOk_def newShardBloom_def Let_def words_def)
qed

lemma unat_take_bit_less: "unat (take_bit n (x :: u64)) < 2 ^ n"
  by (simp only: unsigned_take_bit_eq take_bit_nat_less_exp)

lemma probe_bound:
  assumes "bloomOk b"
  shows "unat (drop_bit 6 (probe b h i)) < length (bfBits b)"
proof -
  obtain n where n: "length (bfBits b) = 2 ^ n" "n \<le> 57" "bfMask b = mask (n + 6)"
    using assms by (auto simp: bloomOk_def)
  obtain x where x: "probe b h i = x AND mask (n + 6)"
    by (auto simp: probe_def Let_def n(3))
  have "unat (probe b h i) < 2 ^ (n + 6)"
    unfolding x take_bit_eq_mask [symmetric] by (rule unat_take_bit_less)
  then have "unat (probe b h i) div 2 ^ 6 < 2 ^ n"
    by (simp add: less_mult_imp_div_less power_add)
  then show ?thesis
    by (simp add: n(1) unat_div drop_bit_eq_div)
qed

lemma setBit_shape [simp]:
  "length (bfBits (setBit pos b)) = length (bfBits b)" "bfMask (setBit pos b) = bfMask b"
  "bfK (setBit pos b) = bfK b"
  by (simp_all add: setBit_def Let_def)

lemma probes_cong: "bfMask b' = bfMask b \<Longrightarrow> bfK b' = bfK b \<Longrightarrow> probes b' h = probes b h"
  by (simp add: probes_def probe_def)

lemma probes_setBit [simp]: "probes (setBit pos b) h = probes b h"
  by (rule probes_cong) simp_all

lemma fold_setBit_shape [simp]:
  "length (bfBits (fold setBit ps b)) = length (bfBits b)" "bfMask (fold setBit ps b) = bfMask b"
  "bfK (fold setBit ps b) = bfK b"
  by (induction ps arbitrary: b) simp_all

lemma bloomOk_Add [simp]: "bloomOk (Add h b) = bloomOk b"
  by (simp add: bloomOk_def Add_def)

lemma bfK_Add [simp]: "bfK (Add h b) = bfK b"
  by (simp add: Add_def)

lemma bloomOk_Reset [simp]: "bloomOk (Reset b) = bloomOk b"
  by (simp add: bloomOk_def Reset_def)

lemma and_or_neq_0: "(x :: u64) AND y \<noteq> 0 \<Longrightarrow> (x OR z) AND y \<noteq> 0"
proof
  assume "x AND y \<noteq> 0" "(x OR z) AND y = 0"
  then have "(x AND y) OR (z AND y) = 0"
    by (simp add: bit.conj_disj_distrib2)
  then have "x AND y = 0"
    by (simp add: or_eq_0_iff)
  with \<open>x AND y \<noteq> 0\<close> show False by simp
qed

lemma testBit_mono: "testBit b p \<Longrightarrow> testBit (setBit q b) p"
proof -
  assume t: "testBit b p"
  let ?w = "unat (drop_bit 6 q)"
  show ?thesis
  proof (cases "?w < length (bfBits b) \<and> ?w = unat (drop_bit 6 p)")
    case True
    then have "bfBits (setBit q b) ! unat (drop_bit 6 p) =
        bfBits b ! unat (drop_bit 6 p) OR push_bit (unat (q AND 63)) 1"
      by (simp add: setBit_def Let_def)
    then show ?thesis
      using t and_or_neq_0 unfolding testBit_def by metis
  next
    case False
    then have "bfBits (setBit q b) ! unat (drop_bit 6 p) = bfBits b ! unat (drop_bit 6 p)"
      by (auto simp: setBit_def Let_def list_update_beyond)
    then show ?thesis
      using t by (simp add: testBit_def)
  qed
qed

lemma testBit_setBit:
  assumes "unat (drop_bit 6 p) < length (bfBits b)"
  shows "testBit (setBit p b) p"
proof -
  let ?m = "push_bit (unat (p AND 63)) 1 :: u64"
  have "unat (p AND 63) < 64"
  proof -
    have "p AND 63 = take_bit 6 p"
      unfolding take_bit_eq_mask by (simp add: mask_eq_exp_minus_1)
    then show ?thesis
      using unat_take_bit_less [of 6 p] by simp
  qed
  then have "bit ?m (unat (p AND 63))"
    by (simp add: bit_exp_iff)
  then have "?m \<noteq> 0"
    by (metis bit_0_eq bot_apply bot_bool_def)
  moreover have "(x OR ?m) AND ?m = ?m" for x
    by (simp add: and.commute)
  ultimately show ?thesis
    using assms by (simp add: testBit_def setBit_def Let_def)
qed

lemma testBit_fold_mono: "testBit b p \<Longrightarrow> testBit (fold setBit ps b) p"
  by (induction ps arbitrary: b) (simp_all add: testBit_mono)

lemma testBit_fold:
  assumes "p \<in> set ps" "\<forall>p \<in> set ps. unat (drop_bit 6 p) < length (bfBits b)"
  shows "testBit (fold setBit ps b) p"
  using assms
proof (induction ps arbitrary: b)
  case (Cons q ps)
  then show ?case
    by (cases "p = q") (auto intro: testBit_fold_mono testBit_setBit)
qed simp

text \<open>What was added is found, and stays found while more is added.\<close>

lemma MayContain_Add:
  assumes "bloomOk b"
  shows "MayContain (Add h b) h"
proof -
  have "probes (Add h b) h = probes b h"
    by (rule probes_cong) (simp_all add: Add_def)
  moreover have "\<forall>p \<in> set (probes b h). unat (drop_bit 6 p) < length (bfBits b)"
    using probe_bound [OF assms] by (auto simp: probes_def)
  ultimately show ?thesis
    by (simp add: MayContain_def list_all_iff Add_def testBit_fold)
qed

lemma MayContain_mono: "MayContain b h \<Longrightarrow> MayContain (Add h' b) h"
proof -
  have "probes (Add h' b) h = probes b h"
    by (rule probes_cong) (simp_all add: Add_def)
  then show "MayContain b h \<Longrightarrow> MayContain (Add h' b) h"
    by (simp add: MayContain_def list_all_iff Add_def testBit_fold_mono)
qed

lemma MayContain_adds: "bloomOk b \<Longrightarrow> h \<in> set hs \<Longrightarrow> MayContain (fold Add hs b) h"
proof (induction hs arbitrary: b)
  case (Cons x hs)
  have keep: "MayContain c h \<Longrightarrow> MayContain (fold Add ys c) h" for c ys
    by (induction ys arbitrary: c) (simp_all add: MayContain_mono)
  show ?case
  proof (cases "h = x")
    case True
    then show ?thesis
      using keep [OF MayContain_Add [OF Cons.prems(1)]] by simp
  next
    case False
    then show ?thesis
      using Cons by simp
  qed
qed simp

lemma bloomOk_adds [simp]: "bloomOk (fold Add hs b) = bloomOk b"
  by (induction hs arbitrary: b) simp_all

text \<open>An empty filter refuses everything.\<close>

lemma MayContain_Reset:
  assumes "bloomOk b" "0 < bfK b"
  shows "\<not> MayContain (Reset b) h"
proof -
  have "probe (Reset b) h 0 \<in> set (probes (Reset b) h)"
    using assms(2) by (simp add: probes_def Reset_def)
  moreover have "\<not> testBit (Reset b) (probe (Reset b) h 0)"
    using probe_bound [of "Reset b" h 0] assms(1) by (simp add: testBit_def) (simp add: Reset_def)
  ultimately show ?thesis
    by (auto simp: MayContain_def list_all_iff)
qed

end
