(* ===== verification/ShardIndex.thy ===== *)
theory ShardIndex
  imports OrderedIndex Bloom
begin

text \<open>
  The in-memory index: \<open>src/storage/types.go\<close> (index entries), \<open>src/storage/index_table.go\<close>
  (the Go map table), \<open>src/storage/shard.go\<close> and \<open>src/storage/tombstone_checkpoint.go\<close> (the
  sharded index), with the write tracker of \<open>src/storage/snapshot_support.go\<close>.

  A Go map is an association list without repeated keys; its order stands for the iteration
  order. Each method is one function, as it runs under the shard lock. Only \<open>put\<close> and the Bloom
  rebuild touch the filter outside or under a shared lock, and those are split in sections.
\<close>

section \<open>Index entries\<close>

definition FlagTombstone :: byte where "FlagTombstone = 0x01"
definition FlagCompressed :: byte where "FlagCompressed = 0x02"
definition FlagEncrypted :: byte where "FlagEncrypted = 0x04"
definition FlagHasTTL :: byte where "FlagHasTTL = 0x08"
definition FlagReplicaApplied :: byte where "FlagReplicaApplied = 0x10"
definition FlagPacked :: byte where "FlagPacked = 0x40"
definition FlagTiered :: byte where "FlagTiered = 0x80"

record IndexEntry =
  ieKeyHash :: u64
  ieDiskOffset :: nat
  ieSegmentID :: nat
  ieValueSize :: nat
  ieUncompressedSize :: nat
  ieKeySize :: nat
  ieWriteTimestampUs :: int
  ieTTLExpiryUs :: int
  ieCRC32C :: nat
  ieShardID :: nat
  ieFlags :: byte
  ieSchemaVersion :: nat

definition zeroEntry :: IndexEntry where
  "zeroEntry = \<lparr>ieKeyHash = 0, ieDiskOffset = 0, ieSegmentID = 0, ieValueSize = 0,
     ieUncompressedSize = 0, ieKeySize = 0, ieWriteTimestampUs = 0, ieTTLExpiryUs = 0,
     ieCRC32C = 0, ieShardID = 0, ieFlags = 0, ieSchemaVersion = 0\<rparr>"

definition hasFlag :: "byte \<Rightarrow> IndexEntry \<Rightarrow> bool" where
  "hasFlag f e \<longleftrightarrow> ieFlags e AND f \<noteq> 0"

definition IsTombstone :: "IndexEntry \<Rightarrow> bool" where "IsTombstone e \<longleftrightarrow> hasFlag FlagTombstone e"
definition HasTTL :: "IndexEntry \<Rightarrow> bool" where "HasTTL e \<longleftrightarrow> hasFlag FlagHasTTL e"
definition IsPacked :: "IndexEntry \<Rightarrow> bool" where "IsPacked e \<longleftrightarrow> hasFlag FlagPacked e"

definition CacheExpiryUs :: "IndexEntry \<Rightarrow> int" where
  "CacheExpiryUs e = (if HasTTL e \<and> ieTTLExpiryUs e > 0 then ieTTLExpiryUs e else 0)"

definition IsExpired :: "int \<Rightarrow> IndexEntry \<Rightarrow> bool" where
  "IsExpired nowUs e \<longleftrightarrow> HasTTL e \<and> ieTTLExpiryUs e > 0 \<and> nowUs \<ge> ieTTLExpiryUs e"

definition MarkTombstone :: "int \<Rightarrow> IndexEntry \<Rightarrow> IndexEntry" where
  "MarkTombstone nowUs e =
     e\<lparr>ieFlags := (ieFlags e AND NOT FlagReplicaApplied) OR FlagTombstone, ieValueSize := 0,
       ieWriteTimestampUs := nowUs\<rparr>"

definition setFlag :: "byte \<Rightarrow> IndexEntry \<Rightarrow> IndexEntry" where
  "setFlag f e = e\<lparr>ieFlags := ieFlags e OR f\<rparr>"

definition clearFlag :: "byte \<Rightarrow> IndexEntry \<Rightarrow> IndexEntry" where
  "clearFlag f e = e\<lparr>ieFlags := ieFlags e AND NOT f\<rparr>"

definition walTTLExpiryUs :: "int \<Rightarrow> int \<Rightarrow> int" where
  "walTTLExpiryUs nowUs ttl = (if ttl \<le> 0 then 0 else nowUs + ttl * 1000000)"

section \<open>The map table\<close>

type_synonym entryTable = "(bytes \<times> IndexEntry) list"

definition tget :: "bytes \<Rightarrow> entryTable \<Rightarrow> IndexEntry option" where
  "tget key t = map_of t key"

definition tswap :: "bytes \<Rightarrow> u64 \<Rightarrow> IndexEntry \<Rightarrow> entryTable \<Rightarrow> IndexEntry option \<times> entryTable" where
  "tswap key h e t = (map_of t key, AList.update key (e\<lparr>ieKeyHash := h\<rparr>) t)"

definition tdel :: "bytes \<Rightarrow> entryTable \<Rightarrow> bool \<times> entryTable" where
  "tdel key t = (map_of t key \<noteq> None, AList.delete key t)"

text \<open>
  \<open>update\<close>: the callback returns the entry to store, if any, and what it recorded for its
  caller.
\<close>

definition tupdate :: "bytes \<Rightarrow> (IndexEntry \<Rightarrow> IndexEntry option \<times> 'r) \<Rightarrow> entryTable \<Rightarrow>
    'r option \<times> entryTable" where
  "tupdate key fn t = (case map_of t key of
     None \<Rightarrow> (None, t)
   | Some e \<Rightarrow> (case fn e of
       (None, r) \<Rightarrow> (Some r, t)
     | (Some e', r) \<Rightarrow> (Some r, AList.update key e' t)))"

section \<open>State\<close>

definition numShards :: nat where "numShards = 8192"

record indexShard =
  entries :: entryTable
  dirtyValues :: "(bytes \<times> bytes) list"
  bloom :: "shardBloom option"

record WriteTracker =
  wtKeys :: "bytes list"
  wtLimit :: nat
  wtOverflow :: bool
  wtClosed :: bool

record shardedIndex =
  shards :: "nat \<Rightarrow> indexShard"
  dirtyCount :: int
  keyCount :: int
  ordered :: "orderedKeyIndex option"
  tracker :: "WriteTracker option"
  replayInOrder :: bool
  replayExpiryCapUs :: int

definition newIndexShard :: indexShard where
  "newIndexShard = \<lparr>entries = [], dirtyValues = [], bloom = None\<rparr>"

definition newShardedIndex :: shardedIndex where
  "newShardedIndex = \<lparr>shards = (\<lambda>_. newIndexShard), dirtyCount = 0, keyCount = 0,
     ordered = Some newOrderedKeyIndex, tracker = None, replayInOrder = False,
     replayExpiryCapUs = 0\<rparr>"

definition fnv64a :: "bytes \<Rightarrow> u64" where
  "fnv64a key = fnv1a64 key"

definition shardOfHash :: "u64 \<Rightarrow> nat" where
  "shardOfHash h = unat (h AND 0x1FFF)"

definition shardFor :: "bytes \<Rightarrow> nat" where
  "shardFor key = shardOfHash (fnv64a key)"

definition updShard :: "nat \<Rightarrow> (indexShard \<Rightarrow> indexShard) \<Rightarrow> shardedIndex \<Rightarrow> shardedIndex" where
  "updShard i f si = si\<lparr>shards := (shards si)(i := f (shards si i))\<rparr>"

definition setEntries :: "nat \<Rightarrow> entryTable \<Rightarrow> shardedIndex \<Rightarrow> shardedIndex" where
  "setEntries i t = updShard i (\<lambda>sh. sh\<lparr>entries := t\<rparr>)"

definition installBlooms :: "nat \<Rightarrow> nat \<Rightarrow> shardedIndex \<Rightarrow> shardedIndex" where
  "installBlooms bitsPerShard k si =
     si\<lparr>shards := (\<lambda>i. (shards si i)\<lparr>bloom := Some (newShardBloom bitsPerShard k)\<rparr>)\<rparr>"

definition replayNowUs :: "int \<Rightarrow> shardedIndex \<Rightarrow> int" where
  "replayNowUs now si =
     (let c = replayExpiryCapUs si in if c > 0 \<and> c < now then c else now)"

section \<open>The write tracker\<close>

definition note_key :: "bytes \<Rightarrow> WriteTracker \<Rightarrow> WriteTracker" where
  "note_key key t =
     (if wtClosed t \<or> wtOverflow t then t
      else if wtLimit t > 0 \<and> length (wtKeys t) \<ge> wtLimit t
      then if key \<in> set (wtKeys t) then t else t\<lparr>wtOverflow := True, wtKeys := []\<rparr>
      else t\<lparr>wtKeys := List.insert key (wtKeys t)\<rparr>)"

definition TrackWrites :: "nat \<Rightarrow> shardedIndex \<Rightarrow> bool \<times> shardedIndex" where
  "TrackWrites limit si = (case tracker si of
     Some _ \<Rightarrow> (False, si)
   | None \<Rightarrow> (True, si\<lparr>tracker := Some \<lparr>wtKeys = [], wtLimit = limit, wtOverflow = False,
                                        wtClosed = False\<rparr>\<rparr>))"

definition Drain :: "WriteTracker \<Rightarrow> (bytes list \<times> bool) \<times> WriteTracker" where
  "Drain t = (if wtOverflow t then (([], True), t) else ((wtKeys t, False), t\<lparr>wtKeys := []\<rparr>))"

definition CloseTracker :: "shardedIndex \<Rightarrow> shardedIndex" where
  "CloseTracker si = si\<lparr>tracker := None\<rparr>"

definition noteWrite :: "bytes \<Rightarrow> shardedIndex \<Rightarrow> shardedIndex" where
  "noteWrite key si = si\<lparr>tracker := map_option (note_key key) (tracker si)\<rparr>"

section \<open>Operations\<close>

definition getHashed :: "bytes \<Rightarrow> u64 \<Rightarrow> shardedIndex \<Rightarrow> (IndexEntry \<times> bytes option) option" where
  "getHashed key h si =
     (let sh = shards si (shardOfHash h)
      in if (case bloom sh of None \<Rightarrow> False | Some b \<Rightarrow> \<not> MayContain b h) then None
         else (case tget key (entries sh) of
                 None \<Rightarrow> None
               | Some e \<Rightarrow> Some (e, map_of (dirtyValues sh) key)))"

definition get_entry :: "bytes \<Rightarrow> shardedIndex \<Rightarrow> (IndexEntry \<times> bytes option) option" where
  "get_entry key si = getHashed key (fnv64a key) si"

text \<open>The bookkeeping a key causes when it becomes live, dies, gains or loses a RAM value.\<close>

definition goLive :: "bytes \<Rightarrow> shardedIndex \<Rightarrow> shardedIndex" where
  "goLive key si = si\<lparr>keyCount := keyCount si + 1, ordered := map_option (oInsert key) (ordered si)\<rparr>"

definition leaveOrdered :: "bytes \<Rightarrow> shardedIndex \<Rightarrow> shardedIndex" where
  "leaveOrdered key si = si\<lparr>ordered := map_option (oRemove key) (ordered si)\<rparr>"

definition setDirty :: "bytes \<Rightarrow> bytes option \<Rightarrow> shardedIndex \<Rightarrow> shardedIndex" where
  "setDirty key value si = (case value of
     None \<Rightarrow> si
   | Some v \<Rightarrow>
       (let i = shardFor key; d = dirtyValues (shards si i);
            si1 = (if map_of d key = None then si\<lparr>dirtyCount := dirtyCount si + 1\<rparr> else si)
        in updShard i (\<lambda>sh. sh\<lparr>dirtyValues := AList.update key v d\<rparr>) si1))"

definition clearDirty :: "bytes \<Rightarrow> shardedIndex \<Rightarrow> shardedIndex" where
  "clearDirty key si =
     (let i = shardFor key; d = dirtyValues (shards si i);
          si1 = (if map_of d key \<noteq> None then si\<lparr>dirtyCount := dirtyCount si - 1\<rparr> else si)
      in updShard i (\<lambda>sh. sh\<lparr>dirtyValues := AList.delete key d\<rparr>) si1)"

definition bloomAdd :: "bytes \<Rightarrow> shardedIndex \<Rightarrow> shardedIndex" where
  "bloomAdd key si =
     updShard (shardFor key) (\<lambda>sh. sh\<lparr>bloom := map_option (Add (fnv64a key)) (bloom sh)\<rparr>) si"

definition notLive :: "IndexEntry option \<Rightarrow> bool" where
  "notLive old \<longleftrightarrow> (case old of None \<Rightarrow> True | Some e \<Rightarrow> IsTombstone e)"

text \<open>
  \<open>put\<close> adds the key to the filter before it takes the lock, and the rest runs under it:
  \<open>put_install\<close>.
\<close>

definition put_install :: "bytes \<Rightarrow> IndexEntry \<Rightarrow> bytes option \<Rightarrow> shardedIndex \<Rightarrow> shardedIndex" where
  "put_install key entry value si =
     (let i = shardFor key; (old, t) = tswap key (fnv64a key) entry (entries (shards si i));
          si1 = setEntries i t si;
          si2 = (if notLive old then goLive key si1 else si1)
      in noteWrite key (setDirty key value si2))"

definition put_entry :: "bytes \<Rightarrow> IndexEntry \<Rightarrow> bytes option \<Rightarrow> shardedIndex \<Rightarrow> shardedIndex" where
  "put_entry key entry value si = put_install key entry value (bloomAdd key si)"

definition replayPut :: "bytes \<Rightarrow> IndexEntry \<Rightarrow> bytes option \<Rightarrow> shardedIndex \<Rightarrow> shardedIndex" where
  "replayPut key entry value si =
     (let si0 = bloomAdd key si; i = shardFor key; existing = tget key (entries (shards si0 i))
      in if \<not> replayInOrder si0 \<and>
            (case existing of None \<Rightarrow> False | Some e \<Rightarrow> ieWriteTimestampUs e > ieWriteTimestampUs entry)
         then si0
         else put_install key entry value si0)"

text \<open>What follows a change of the entry to a tombstone.\<close>

definition die :: "bytes \<Rightarrow> bool \<Rightarrow> shardedIndex \<Rightarrow> shardedIndex" where
  "die key wasLive si =
     (let si1 = noteWrite key si;
          si2 = (if wasLive then si1\<lparr>keyCount := keyCount si1 - 1\<rparr> else si1)
      in clearDirty key (leaveOrdered key si2))"

definition markTombstone :: "bytes \<Rightarrow> int \<Rightarrow> shardedIndex \<Rightarrow> bool \<times> shardedIndex" where
  "markTombstone key nowUs si =
     (let i = shardFor key in
      case tupdate key (\<lambda>e. (Some (MarkTombstone nowUs e), \<not> IsTombstone e)) (entries (shards si i)) of
        (None, _) \<Rightarrow> (False, si)
      | (Some wasLive, t) \<Rightarrow> (True, die key wasLive (setEntries i t si)))"

definition replayMarkTombstone :: "bytes \<Rightarrow> int \<Rightarrow> shardedIndex \<Rightarrow> shardedIndex" where
  "replayMarkTombstone key nowUs si =
     (let i = shardFor key in
      case tupdate key (\<lambda>e. if \<not> replayInOrder si \<and> ieWriteTimestampUs e > nowUs then (None, None)
                            else (Some (MarkTombstone nowUs e), Some (\<not> IsTombstone e)))
             (entries (shards si i)) of
        (Some (Some wasLive), t) \<Rightarrow> die key wasLive (setEntries i t si)
      | _ \<Rightarrow> si)"

definition markExpired :: "bytes \<Rightarrow> int \<Rightarrow> int \<Rightarrow> shardedIndex \<Rightarrow> bool \<times> shardedIndex" where
  "markExpired key cutoffUs tombUs si =
     (let i = shardFor key in
      case tupdate key (\<lambda>e. if IsTombstone e \<or> \<not> IsExpired cutoffUs e then (None, False)
                            else (Some (MarkTombstone tombUs e), True)) (entries (shards si i)) of
        (Some True, t) \<Rightarrow> (True, die key True (setEntries i t si))
      | _ \<Rightarrow> (False, si))"

definition markTiered :: "bytes \<Rightarrow> shardedIndex \<Rightarrow> bool \<times> shardedIndex" where
  "markTiered key si =
     (let i = shardFor key in
      case tupdate key (\<lambda>e. if IsTombstone e then (None, False) else (Some (setFlag FlagTiered e), True))
             (entries (shards si i)) of
        (Some True, t) \<Rightarrow> (True, setEntries i t si)
      | _ \<Rightarrow> (False, si))"

definition removeTombstone :: "bytes \<Rightarrow> shardedIndex \<Rightarrow> shardedIndex" where
  "removeTombstone key si =
     (let i = shardFor key; e = tget key (entries (shards si i)) in
      if (case e of None \<Rightarrow> False | Some e \<Rightarrow> \<not> IsTombstone e) then si
      else clearDirty key (setEntries i (snd (tdel key (entries (shards si i)))) (leaveOrdered key si)))"

definition setReplicaApplied :: "bytes \<Rightarrow> int \<Rightarrow> shardedIndex \<Rightarrow> shardedIndex" where
  "setReplicaApplied key tsUs si =
     (let i = shardFor key;
          (_, t) = tupdate key (\<lambda>e. if \<not> IsTombstone e \<or> ieWriteTimestampUs e \<noteq> tsUs then (None, ())
                                    else (Some (setFlag FlagReplicaApplied e), ()))
                     (entries (shards si i))
      in setEntries i t si)"

definition CurrentSchemaVersion :: nat where "CurrentSchemaVersion = 1"

definition replayTombstoneRecord :: "bytes \<Rightarrow> int \<Rightarrow> byte \<Rightarrow> shardedIndex \<Rightarrow> shardedIndex" where
  "replayTombstoneRecord key tsUs origin si =
     (let h = fnv64a key; i = shardFor key; t = entries (shards si i)
      in if tget key t \<noteq> None
         then let si1 = replayMarkTombstone key tsUs si
           in if origin \<noteq> 0 then setReplicaApplied key tsUs si1 else si1
         else let e = setFlag origin (MarkTombstone tsUs
                (zeroEntry\<lparr>ieKeyHash := h, ieKeySize := length key mod 2 ^ 32,
                           ieSchemaVersion := CurrentSchemaVersion, ieShardID := i\<rparr>))
           in noteWrite key (setEntries i (snd (tswap key h e t)) si))"

definition updateVLogOffset :: "bytes \<Rightarrow> nat \<Rightarrow> nat \<Rightarrow> bool \<Rightarrow> shardedIndex \<Rightarrow> bool \<times> shardedIndex" where
  "updateVLogOffset key oldOffset newOffset newPacked si =
     (let i = shardFor key in
      case tupdate key (\<lambda>e. if IsTombstone e \<or> ieDiskOffset e \<noteq> oldOffset then (None, False)
                            else let e1 = e\<lparr>ieDiskOffset := newOffset\<rparr>
                              in (Some (if newPacked then setFlag FlagPacked e1 else clearFlag FlagPacked e1),
                                  True)) (entries (shards si i)) of
        (Some True, t) \<Rightarrow> (True, setEntries i t si)
      | _ \<Rightarrow> (False, si))"

definition checkVLogOffset :: "bytes \<Rightarrow> nat \<Rightarrow> shardedIndex \<Rightarrow> bool" where
  "checkVLogOffset key expectedOffset si = (case tget key (entries (shards si (shardFor key))) of
     None \<Rightarrow> False
   | Some e \<Rightarrow> \<not> IsTombstone e \<and> ieDiskOffset e = expectedOffset)"

definition size_index :: "shardedIndex \<Rightarrow> int" where
  "size_index si = keyCount si"

text \<open>The Bloom rebuild of one shard: the filter is emptied first and filled afterwards.\<close>

definition vacuumReset :: "nat \<Rightarrow> shardedIndex \<Rightarrow> shardedIndex" where
  "vacuumReset i = updShard i (\<lambda>sh. sh\<lparr>bloom := map_option Reset (bloom sh)\<rparr>)"

definition liveHashes :: "entryTable \<Rightarrow> u64 list" where
  "liveHashes t = map (ieKeyHash \<circ> snd) (filter (\<lambda>(_, e). \<not> IsTombstone e) t)"

definition vacuumFill :: "nat \<Rightarrow> shardedIndex \<Rightarrow> shardedIndex" where
  "vacuumFill i = updShard i (\<lambda>sh. sh\<lparr>bloom := map_option (fold Add (liveHashes (entries sh))) (bloom sh)\<rparr>)"

definition vacuumShard :: "nat \<Rightarrow> shardedIndex \<Rightarrow> shardedIndex" where
  "vacuumShard i si = vacuumFill i (vacuumReset i si)"

definition vacuumBloomFilters :: "shardedIndex \<Rightarrow> shardedIndex" where
  "vacuumBloomFilters si = fold vacuumShard [0..<numShards] si"

section \<open>Scans\<close>

text \<open>The shards of one disk: the loop \<open>for i := diskIdx; i < numShards; i += numDisks\<close>.\<close>

function shardsFrom :: "nat \<Rightarrow> nat \<Rightarrow> nat list" where
  "shardsFrom i n = (if n = 0 \<or> i \<ge> numShards then [] else i # shardsFrom (i + n) n)"
  by pat_completeness auto
termination
  by (relation "measure (\<lambda>(i, n). numShards - i)") auto

declare shardsFrom.simps [simp del]

definition diskForShard :: "nat \<Rightarrow> nat \<Rightarrow> nat" where
  "diskForShard shardID numDisks = (if numDisks \<le> 1 then 0 else shardID mod numDisks)"

definition scanEntries :: "nat list \<Rightarrow> shardedIndex \<Rightarrow> (bytes \<times> IndexEntry) list" where
  "scanEntries is si = concat (map (\<lambda>i. entries (shards si i)) is)"

definition expiredTombstones :: "int \<Rightarrow> int \<Rightarrow> shardedIndex \<Rightarrow> bytes list" where
  "expiredTombstones nowUs gracePeriodUs si =
     (let cutoff = nowUs - gracePeriodUs
      in map fst (filter (\<lambda>(_, e). IsTombstone e \<and> ieWriteTimestampUs e < cutoff)
           (scanEntries [0..<numShards] si)))"

definition expiredTTL :: "int \<Rightarrow> shardedIndex \<Rightarrow> bytes list" where
  "expiredTTL nowUs si =
     map fst (filter (\<lambda>(_, e). \<not> IsTombstone e \<and> IsExpired nowUs e) (scanEntries [0..<numShards] si))"

definition dirtyKeys :: "shardedIndex \<Rightarrow> bytes list" where
  "dirtyKeys si = concat (map (\<lambda>i. map fst (dirtyValues (shards si i))) [0..<numShards])"

record vlogGCEntry =
  gcKey :: bytes
  gcDiskOffset :: nat
  gcValueSize :: nat
  gcWriteTimestampUs :: int
  gcPacked :: bool

definition vlogCandidates :: "nat \<Rightarrow> nat \<Rightarrow> nat \<Rightarrow> shardedIndex \<Rightarrow> vlogGCEntry list" where
  "vlogCandidates diskIdx numDisks gcHorizon si =
     map (\<lambda>(k, e). \<lparr>gcKey = k, gcDiskOffset = ieDiskOffset e, gcValueSize = ieValueSize e,
                    gcWriteTimestampUs = ieWriteTimestampUs e, gcPacked = IsPacked e\<rparr>)
       (filter (\<lambda>(_, e). \<not> IsTombstone e \<and> ieDiskOffset e > 0 \<and> ieDiskOffset e < gcHorizon)
          (scanEntries (shardsFrom diskIdx numDisks) si))"

definition getVLogEntryIfBelow :: "bytes \<Rightarrow> nat \<Rightarrow> shardedIndex \<Rightarrow> vlogGCEntry option" where
  "getVLogEntryIfBelow key gcHorizon si = (case tget key (entries (shards si (shardFor key))) of
     None \<Rightarrow> None
   | Some e \<Rightarrow> if IsTombstone e \<or> ieDiskOffset e = 0 \<or> ieDiskOffset e \<ge> gcHorizon then None
              else Some \<lparr>gcKey = key, gcDiskOffset = ieDiskOffset e, gcValueSize = ieValueSize e,
                         gcWriteTimestampUs = 0, gcPacked = IsPacked e\<rparr>)"

definition vlogHeaderBytes :: nat where "vlogHeaderBytes = 24"
definition vlogBlockSize :: nat where "vlogBlockSize = 4096"

text \<open>Rounding up to a block: \<open>(n + 4095) &^ 4095\<close>.\<close>

definition alignBlock :: "nat \<Rightarrow> nat" where
  "alignBlock n = (n + vlogBlockSize - 1) div vlogBlockSize * vlogBlockSize"

text \<open>
  The end of a record in the arithmetic of \<open>uint64\<close>, where sums wrap; the length of a value is
  a \<open>uint32\<close>, so the length of a record does not.
\<close>

definition recordEnd :: "nat \<Rightarrow> nat \<Rightarrow> bool \<Rightarrow> nat" where
  "recordEnd off valueSize packed =
     (let rawLen = vlogHeaderBytes + valueSize
      in if packed
         then ((off + rawLen) mod 2 ^ 64 + vlogBlockSize - 1) mod 2 ^ 64 div vlogBlockSize * vlogBlockSize
         else (off + alignBlock rawLen) mod 2 ^ 64)"

definition maxVLogEndOffset :: "nat \<Rightarrow> nat \<Rightarrow> shardedIndex \<Rightarrow> nat" where
  "maxVLogEndOffset diskIdx numDisks si =
     fold (\<lambda>(_, e) maxEnd. if ieDiskOffset e = 0 then maxEnd
             else let end = recordEnd (ieDiskOffset e) (ieValueSize e) (IsPacked e)
               in if end > maxEnd then end else maxEnd)
       (scanEntries (shardsFrom diskIdx numDisks) si) 0"

definition minLiveVLogOffset :: "nat \<Rightarrow> nat \<Rightarrow> shardedIndex \<Rightarrow> nat" where
  "minLiveVLogOffset diskIdx numDisks si =
     fold (\<lambda>(_, e) m. if \<not> IsTombstone e \<and> ieDiskOffset e > 0 \<and> ieDiskOffset e < m then ieDiskOffset e
             else m)
       (scanEntries (shardsFrom diskIdx numDisks) si) (2 ^ 63 - 1)"

section \<open>The index as a map\<close>

text \<open>What the shards hold together: entries, RAM values, and the keys that are live.\<close>

definition lookup :: "shardedIndex \<Rightarrow> bytes \<Rightarrow> IndexEntry option" where
  "lookup si k = map_of (entries (shards si (shardFor k))) k"

definition dirtyOf :: "shardedIndex \<Rightarrow> bytes \<Rightarrow> bytes option" where
  "dirtyOf si k = map_of (dirtyValues (shards si (shardFor k))) k"

definition live :: "(bytes \<Rightarrow> IndexEntry option) \<Rightarrow> bytes set" where
  "live L = {k. \<exists>e. L k = Some e \<and> \<not> IsTombstone e}"

abbreviation liveKeys :: "shardedIndex \<Rightarrow> bytes set" where
  "liveKeys si \<equiv> live (lookup si)"

abbreviation bloomAt :: "shardedIndex \<Rightarrow> nat \<Rightarrow> shardBloom option" where
  "bloomAt si i \<equiv> bloom (shards si i)"

definition viewOk :: "(bytes \<Rightarrow> IndexEntry option) \<Rightarrow> (bytes \<Rightarrow> bytes option) \<Rightarrow> int \<Rightarrow> int \<Rightarrow>
    orderedKeyIndex option \<Rightarrow> (nat \<Rightarrow> shardBloom option) \<Rightarrow> bool" where
  "viewOk L D kc dc ord bl \<longleftrightarrow> finite (dom L) \<and> (\<forall>k e. L k = Some e \<longrightarrow> ieKeyHash e = fnv64a k) \<and>
     dom D \<subseteq> live L \<and> kc = int (card (live L)) \<and> dc = int (card (dom D)) \<and>
     (\<forall>oi. ord = Some oi \<longrightarrow> represents oi (live L)) \<and>
     (\<forall>i b. bl i = Some b \<longrightarrow> bloomOk b \<and> (\<forall>k \<in> live L. shardFor k = i \<longrightarrow> MayContain b (fnv64a k)))"

definition tableOk :: "nat \<Rightarrow> (bytes \<times> 'v) list \<Rightarrow> bool" where
  "tableOk i t \<longleftrightarrow> distinct (map fst t) \<and> (\<forall>k \<in> fst ` set t. shardFor k = i)"

definition shapeOk :: "shardedIndex \<Rightarrow> bool" where
  "shapeOk si \<longleftrightarrow> (\<forall>i. tableOk i (entries (shards si i)) \<and> tableOk i (dirtyValues (shards si i)))"

definition indexOk :: "shardedIndex \<Rightarrow> bool" where
  "indexOk si \<longleftrightarrow> shapeOk si \<and>
     viewOk (lookup si) (dirtyOf si) (keyCount si) (dirtyCount si) (ordered si) (bloomAt si)"

lemma live_upd: "live (L(k \<mapsto> e)) = (if IsTombstone e then live L - {k} else insert k (live L))"
  by (auto simp: live_def split: if_splits)

lemma live_del [simp]: "live (L(k := None)) = live L - {k}"
  by (auto simp: live_def)

lemma notLive_iff: "notLive (L k) \<longleftrightarrow> k \<notin> live L"
  by (auto simp: notLive_def live_def split: option.splits)

lemma viewOk_finite: "viewOk L D kc dc ord bl \<Longrightarrow> finite (live L) \<and> finite (dom D)"
proof -
  assume v: "viewOk L D kc dc ord bl"
  have "live L \<subseteq> dom L" by (auto simp: live_def)
  with v have "finite (live L)" by (auto simp: viewOk_def intro: finite_subset)
  with v show ?thesis by (auto simp: viewOk_def intro: finite_subset)
qed

lemma card_insert_int: "finite A \<Longrightarrow> int (card (insert k A)) = int (card A) + (if k \<in> A then 0 else 1)"
  by (simp add: insert_absorb)

lemma card_delete_int: "finite A \<Longrightarrow> int (card (A - {k})) = int (card A) - (if k \<in> A then 1 else 0)"
  using card.remove [of A k] by (cases "k \<in> A") simp_all

lemma viewOk_live:
  assumes v: "viewOk L D kc dc ord bl" and e: "\<not> IsTombstone e" "ieKeyHash e = fnv64a k"
    and b: "\<forall>b. bl (shardFor k) = Some b \<longrightarrow> MayContain b (fnv64a k)"
  shows "viewOk (L(k \<mapsto> e)) (case w of None \<Rightarrow> D | Some x \<Rightarrow> D(k \<mapsto> x))
    (kc + (if k \<in> live L then 0 else 1)) (dc + (if w = None \<or> k \<in> dom D then 0 else 1))
    (if k \<in> live L then ord else map_option (oInsert k) ord) bl"
proof -
  note fin = viewOk_finite [OF v]
  have L: "live (L(k \<mapsto> e)) = insert k (live L)" using e by (simp add: live_upd)
  have "represents oi (insert k (live L))"
    if "(if k \<in> live L then ord else map_option (oInsert k) ord) = Some oi" for oi
    using v that oi.holds_ins [of _ "live L" k]
    by (auto simp: viewOk_def insert_absorb split: if_splits)
  moreover have "dom (case w of None \<Rightarrow> D | Some x \<Rightarrow> D(k \<mapsto> x)) \<subseteq> insert k (live L)"
    using v by (auto simp: viewOk_def split: option.splits if_splits)
  moreover have "int (card (dom (case w of None \<Rightarrow> D | Some x \<Rightarrow> D(k \<mapsto> x)))) =
      int (card (dom D)) + (if w = None \<or> k \<in> dom D then 0 else 1)"
    using fin by (cases w) (simp_all add: card_insert_int)
  ultimately show ?thesis
    using v e(2) fin b unfolding viewOk_def L by (auto simp: card_insert_int split: if_splits)
qed

lemma viewOk_dead:
  assumes v: "viewOk L D kc dc ord bl" and e: "IsTombstone e" "ieKeyHash e = fnv64a k"
  shows "viewOk (L(k \<mapsto> e)) (D(k := None)) (kc - (if k \<in> live L then 1 else 0))
    (dc - (if k \<in> dom D then 1 else 0)) (map_option (oRemove k) ord) bl"
proof -
  note fin = viewOk_finite [OF v]
  have L: "live (L(k \<mapsto> e)) = live L - {k}" using e by (simp add: live_upd)
  have "represents oi (live L - {k})" if "map_option (oRemove k) ord = Some oi" for oi
    using v that oi.holds_del [of _ "live L" k] by (auto simp: viewOk_def)
  then show ?thesis
    using v e(2) fin unfolding viewOk_def L by (auto simp: card_delete_int)
qed

lemma viewOk_gone:
  assumes v: "viewOk L D kc dc ord bl" and k: "k \<notin> live L"
  shows "viewOk (L(k := None)) (D(k := None)) kc (dc - (if k \<in> dom D then 1 else 0))
    (map_option (oRemove k) ord) bl"
proof -
  note fin = viewOk_finite [OF v]
  have "represents oi (live L)" if "map_option (oRemove k) ord = Some oi" for oi
    using v that k oi.holds_del [of _ "live L" k] by (auto simp: viewOk_def)
  then show ?thesis
    using v fin k unfolding viewOk_def by (auto simp: card_delete_int)
qed

lemma viewOk_clean:
  assumes v: "viewOk L D kc dc ord bl"
  shows "viewOk L (D(k := None)) kc (dc - (if k \<in> dom D then 1 else 0)) ord bl"
  using v viewOk_finite [OF v] unfolding viewOk_def by (auto simp: card_delete_int)

lemma viewOk_same:
  assumes v: "viewOk L D kc dc ord bl" and e: "IsTombstone e \<longleftrightarrow> k \<notin> live L" "ieKeyHash e = fnv64a k"
  shows "viewOk (L(k \<mapsto> e)) D kc dc ord bl"
proof -
  have "live (L(k \<mapsto> e)) = live L" using e by (auto simp: live_upd)
  with v e(2) show ?thesis unfolding viewOk_def by auto
qed

lemma viewOk_bloom:
  assumes v: "viewOk L D kc dc ord bl"
    and "\<forall>i b. bl' i = Some b \<longrightarrow> bloomOk b \<and> (\<forall>k \<in> live L. shardFor k = i \<longrightarrow> MayContain b (fnv64a k))"
  shows "viewOk L D kc dc ord bl'"
  using assms unfolding viewOk_def by blast

section \<open>What the helpers change\<close>

lemma shardOfHash_less: "shardOfHash h < numShards"
proof -
  have "h AND 0x1FFF = take_bit 13 h"
    unfolding take_bit_eq_mask by (simp add: mask_eq_exp_minus_1)
  then show ?thesis
    using unat_take_bit_less [of 13 h] by (simp add: shardOfHash_def numShards_def)
qed

lemma shardFor_less: "shardFor k < numShards"
  by (simp add: shardFor_def shardOfHash_less)

lemma setEntries_frame [frame]:
  "dirtyOf (setEntries i t si) = dirtyOf si" "keyCount (setEntries i t si) = keyCount si"
  "dirtyCount (setEntries i t si) = dirtyCount si" "ordered (setEntries i t si) = ordered si"
  "bloomAt (setEntries i t si) = bloomAt si" "dirtyValues (shards (setEntries i t si) j) = dirtyValues (shards si j)"
  "replayInOrder (setEntries i t si) = replayInOrder si"
  by (auto simp: setEntries_def updShard_def dirtyOf_def fun_eq_iff)

lemma entries_setEntries:
  "entries (shards (setEntries i t si) j) = (if j = i then t else entries (shards si j))"
  by (simp add: setEntries_def updShard_def)

lemma lookup_setEntries:
  "lookup (setEntries (shardFor k) (AList.update k e (entries (shards si (shardFor k)))) si) =
     (lookup si)(k \<mapsto> e)"
  by (auto simp: lookup_def entries_setEntries update_conv fun_eq_iff)

lemma lookup_setEntries_del:
  "shards si' = shards si \<Longrightarrow>
   lookup (setEntries (shardFor k) (AList.delete k (entries (shards si (shardFor k)))) si') =
     (lookup si)(k := None)"
  by (auto simp: lookup_def entries_setEntries delete_conv fun_eq_iff)

lemma lookup_at: "map_of (entries (shards si (shardFor k))) k = lookup si k"
  by (simp add: lookup_def)

lemma tget_lookup: "tget k (entries (shards si (shardFor k))) = lookup si k"
  by (simp add: tget_def lookup_def)

lemma noteWrite_frame [frame]:
  "lookup (noteWrite k si) = lookup si" "dirtyOf (noteWrite k si) = dirtyOf si"
  "keyCount (noteWrite k si) = keyCount si" "dirtyCount (noteWrite k si) = dirtyCount si"
  "ordered (noteWrite k si) = ordered si" "shards (noteWrite k si) = shards si"
  "replayInOrder (noteWrite k si) = replayInOrder si"
  by (auto simp: noteWrite_def lookup_def dirtyOf_def fun_eq_iff)

lemma goLive_frame [frame]:
  "lookup (goLive k si) = lookup si" "dirtyOf (goLive k si) = dirtyOf si"
  "keyCount (goLive k si) = keyCount si + 1" "dirtyCount (goLive k si) = dirtyCount si"
  "ordered (goLive k si) = map_option (oInsert k) (ordered si)" "shards (goLive k si) = shards si"
  by (auto simp: goLive_def lookup_def dirtyOf_def fun_eq_iff)

lemma leaveOrdered_frame [frame]:
  "lookup (leaveOrdered k si) = lookup si" "dirtyOf (leaveOrdered k si) = dirtyOf si"
  "keyCount (leaveOrdered k si) = keyCount si" "dirtyCount (leaveOrdered k si) = dirtyCount si"
  "ordered (leaveOrdered k si) = map_option (oRemove k) (ordered si)" "shards (leaveOrdered k si) = shards si"
  by (auto simp: leaveOrdered_def lookup_def dirtyOf_def fun_eq_iff)

lemma setDirty_frame [frame]:
  "lookup (setDirty k w si) = lookup si" "keyCount (setDirty k w si) = keyCount si"
  "ordered (setDirty k w si) = ordered si" "bloomAt (setDirty k w si) = bloomAt si"
  "entries (shards (setDirty k w si) i) = entries (shards si i)"
  by (auto simp: setDirty_def updShard_def lookup_def fun_eq_iff Let_def split: option.splits)

lemma setDirty_dirty [frame]:
  "dirtyOf (setDirty k w si) = (case w of None \<Rightarrow> dirtyOf si | Some x \<Rightarrow> (dirtyOf si)(k \<mapsto> x))"
  "dirtyCount (setDirty k w si) = dirtyCount si + (if w = None \<or> k \<in> dom (dirtyOf si) then 0 else 1)"
  by (auto simp: setDirty_def updShard_def dirtyOf_def fun_eq_iff Let_def update_conv
      split: option.splits)

lemma clearDirty_frame [frame]:
  "lookup (clearDirty k si) = lookup si" "keyCount (clearDirty k si) = keyCount si"
  "ordered (clearDirty k si) = ordered si" "bloomAt (clearDirty k si) = bloomAt si"
  "entries (shards (clearDirty k si) i) = entries (shards si i)"
  by (auto simp: clearDirty_def updShard_def lookup_def fun_eq_iff Let_def)

lemma clearDirty_dirty [frame]:
  "dirtyOf (clearDirty k si) = (dirtyOf si)(k := None)"
  "dirtyCount (clearDirty k si) = dirtyCount si - (if k \<in> dom (dirtyOf si) then 1 else 0)"
  by (auto simp: clearDirty_def updShard_def dirtyOf_def fun_eq_iff Let_def delete_conv)

lemma bloomAdd_frame [frame]:
  "lookup (bloomAdd k si) = lookup si" "dirtyOf (bloomAdd k si) = dirtyOf si"
  "keyCount (bloomAdd k si) = keyCount si" "dirtyCount (bloomAdd k si) = dirtyCount si"
  "ordered (bloomAdd k si) = ordered si" "replayInOrder (bloomAdd k si) = replayInOrder si"
  "entries (shards (bloomAdd k si) i) = entries (shards si i)"
  "dirtyValues (shards (bloomAdd k si) i) = dirtyValues (shards si i)"
  by (auto simp: bloomAdd_def updShard_def lookup_def dirtyOf_def fun_eq_iff)

lemma tableOk_update: "tableOk i t \<Longrightarrow> shardFor k = i \<Longrightarrow> tableOk i (AList.update k v t)"
  by (auto simp: tableOk_def distinct_update dom_update)

lemma tableOk_delete: "tableOk i t \<Longrightarrow> tableOk i (AList.delete k t)"
proof -
  have "set (AList.delete k t) \<subseteq> set t"
    by (auto simp: AList.delete_eq)
  then show "tableOk i t \<Longrightarrow> tableOk i (AList.delete k t)"
    by (auto simp: tableOk_def distinct_delete delete_keys distinct_removeAll)
qed

text \<open>The shape survives: each helper updates or deletes one key in its own shard.\<close>

lemma shapeOk_entries: "shapeOk si \<Longrightarrow> tableOk i t \<Longrightarrow> shapeOk (setEntries i t si)"
  by (simp add: shapeOk_def entries_setEntries frame)

lemma shapeOk_same:
  "(\<And>i. entries (shards si' i) = entries (shards si i)) \<Longrightarrow>
   (\<And>i. dirtyValues (shards si' i) = dirtyValues (shards si i)) \<Longrightarrow> shapeOk si' = shapeOk si"
  by (simp add: shapeOk_def)

lemma shapeOk_note [simp]: "shapeOk (noteWrite k si) = shapeOk si"
  and shapeOk_goLive [simp]: "shapeOk (goLive k si) = shapeOk si"
  and shapeOk_leave [simp]: "shapeOk (leaveOrdered k si) = shapeOk si"
  and shapeOk_bloomAdd [simp]: "shapeOk (bloomAdd k si) = shapeOk si"
  and shapeOk_count [simp]: "shapeOk (si\<lparr>keyCount := c\<rparr>) = shapeOk si"
  by (rule shapeOk_same; simp add: frame)+

lemma shapeOk_setDirty: "shapeOk si \<Longrightarrow> shapeOk (setDirty k w si)"
  by (auto simp: shapeOk_def setDirty_def updShard_def Let_def intro: tableOk_update split: option.splits)

lemma shapeOk_clearDirty: "shapeOk si \<Longrightarrow> shapeOk (clearDirty k si)"
  by (auto simp: shapeOk_def clearDirty_def updShard_def Let_def intro: tableOk_delete)

lemmas shape = shapeOk_entries shapeOk_setDirty shapeOk_clearDirty

lemma shapeOk_tableOk: "shapeOk si \<Longrightarrow> tableOk i (entries (shards si i))"
  by (simp add: shapeOk_def)

section \<open>Every operation keeps the invariant\<close>

lemma MarkTombstone_fields [simp]:
  "IsTombstone (MarkTombstone n e)" "ieKeyHash (MarkTombstone n e) = ieKeyHash e"
  "ieWriteTimestampUs (MarkTombstone n e) = n"
proof -
  have "(x OR 1) AND 1 = (1 :: byte)" for x
    by (simp add: and.commute)
  then show "IsTombstone (MarkTombstone n e)"
    by (simp add: IsTombstone_def hasFlag_def MarkTombstone_def FlagTombstone_def)
qed (simp_all add: MarkTombstone_def)

lemma setFlag_fields [simp]:
  "ieKeyHash (setFlag f e) = ieKeyHash e" "ieWriteTimestampUs (setFlag f e) = ieWriteTimestampUs e"
  "ieDiskOffset (setFlag f e) = ieDiskOffset e"
  "ieKeyHash (clearFlag f e) = ieKeyHash e" "ieDiskOffset (clearFlag f e) = ieDiskOffset e"
  by (simp_all add: setFlag_def clearFlag_def)

lemma setFlag_tombstone: "f AND 1 = 0 \<Longrightarrow> IsTombstone (setFlag f e) = IsTombstone e"
  by (simp add: IsTombstone_def hasFlag_def setFlag_def FlagTombstone_def bit.conj_disj_distrib2)

lemma setFlag_tombstone_mono: "IsTombstone e \<Longrightarrow> IsTombstone (setFlag f e)"
  by (auto simp: IsTombstone_def hasFlag_def setFlag_def FlagTombstone_def bit.conj_disj_distrib2 or_eq_0_iff)

lemma clearFlag_tombstone: "NOT f AND 1 = 1 \<Longrightarrow> IsTombstone (clearFlag f e) = IsTombstone e"
  by (simp add: IsTombstone_def hasFlag_def clearFlag_def FlagTombstone_def and.assoc)

lemma packedFlag_tombstone [simp]:
  "IsTombstone (setFlag FlagPacked e) = IsTombstone e" "IsTombstone (clearFlag FlagPacked e) = IsTombstone e"
  "IsTombstone (setFlag FlagTiered e) = IsTombstone e"
  "IsTombstone (setFlag FlagReplicaApplied e) = IsTombstone e"
  by (simp_all add: setFlag_tombstone clearFlag_tombstone FlagPacked_def FlagTiered_def FlagReplicaApplied_def)

lemma IsTombstone_fields [simp]:
  "IsTombstone (e\<lparr>ieKeyHash := h\<rparr>) = IsTombstone e" "IsTombstone (e\<lparr>ieDiskOffset := d\<rparr>) = IsTombstone e"
  by (simp_all add: IsTombstone_def hasFlag_def)

lemma bloomAt_bloomAdd:
  "bloomAt (bloomAdd k si) i =
     (if i = shardFor k then map_option (Add (fnv64a k)) (bloomAt si i) else bloomAt si i)"
  by (simp add: bloomAdd_def updShard_def)

lemma indexOk_bloomAdd:
  assumes "indexOk si"
  shows "indexOk (bloomAdd k si)"
    "\<forall>b. bloomAt (bloomAdd k si) (shardFor k) = Some b \<longrightarrow> MayContain b (fnv64a k)"
proof -
  have bl: "bloomOk b \<and> (\<forall>k \<in> liveKeys si. shardFor k = i \<longrightarrow> MayContain b (fnv64a k))"
    if "bloomAt si i = Some b" for i b
    using assms that unfolding indexOk_def viewOk_def by blast
  show "\<forall>b. bloomAt (bloomAdd k si) (shardFor k) = Some b \<longrightarrow> MayContain b (fnv64a k)"
    using bl by (auto simp: bloomAt_bloomAdd MayContain_Add)
  have "viewOk (lookup si) (dirtyOf si) (keyCount si) (dirtyCount si) (ordered si) (bloomAt (bloomAdd k si))"
  proof (rule viewOk_bloom)
    show "viewOk (lookup si) (dirtyOf si) (keyCount si) (dirtyCount si) (ordered si) (bloomAt si)"
      using assms by (simp add: indexOk_def)
    show "\<forall>i b. bloomAt (bloomAdd k si) i = Some b \<longrightarrow>
        bloomOk b \<and> (\<forall>k \<in> liveKeys si. shardFor k = i \<longrightarrow> MayContain b (fnv64a k))"
      using bl by (fastforce simp: bloomAt_bloomAdd MayContain_mono split: if_splits)
  qed
  then show "indexOk (bloomAdd k si)"
    using assms by (simp add: indexOk_def frame)
qed

lemma notLive_at: "notLive (map_of (entries (shards si (shardFor k))) k) \<longleftrightarrow> k \<notin> liveKeys si"
  unfolding lookup_def [symmetric] by (rule notLive_iff)

lemma put_install_view:
  "lookup (put_install k e w si) = (lookup si)(k \<mapsto> e\<lparr>ieKeyHash := fnv64a k\<rparr>)"
  "dirtyOf (put_install k e w si) = (case w of None \<Rightarrow> dirtyOf si | Some x \<Rightarrow> (dirtyOf si)(k \<mapsto> x))"
  "keyCount (put_install k e w si) = keyCount si + (if k \<in> liveKeys si then 0 else 1)"
  "dirtyCount (put_install k e w si) =
     dirtyCount si + (if w = None \<or> k \<in> dom (dirtyOf si) then 0 else 1)"
  "ordered (put_install k e w si) =
     (if k \<in> liveKeys si then ordered si else map_option (oInsert k) (ordered si))"
  "bloomAt (put_install k e w si) = bloomAt si"
  by (cases w; simp add: put_install_def tswap_def Let_def frame lookup_setEntries notLive_at)+

lemma put_install_ok:
  assumes "indexOk si" "\<not> IsTombstone e"
    and "\<forall>b. bloomAt si (shardFor k) = Some b \<longrightarrow> MayContain b (fnv64a k)"
  shows "indexOk (put_install k e w si)"
proof -
  have "shapeOk (put_install k e w si)"
    using assms(1)
    by (auto simp: put_install_def tswap_def Let_def indexOk_def
        intro!: shape tableOk_update shapeOk_tableOk)
  moreover have "viewOk (lookup si) (dirtyOf si) (keyCount si) (dirtyCount si) (ordered si) (bloomAt si)"
    using assms(1) by (simp add: indexOk_def)
  from viewOk_live [OF this, of "e\<lparr>ieKeyHash := fnv64a k\<rparr>" k w] assms(2,3)
  have "viewOk (lookup (put_install k e w si)) (dirtyOf (put_install k e w si))
      (keyCount (put_install k e w si)) (dirtyCount (put_install k e w si))
      (ordered (put_install k e w si)) (bloomAt (put_install k e w si))"
    unfolding put_install_view by simp
  ultimately show ?thesis by (simp add: indexOk_def)
qed

lemma put_ok: "indexOk si \<Longrightarrow> \<not> IsTombstone e \<Longrightarrow> indexOk (put_entry k e w si)"
  unfolding put_entry_def by (rule put_install_ok [OF indexOk_bloomAdd(1) _ indexOk_bloomAdd(2)])

lemma replayPut_ok: "indexOk si \<Longrightarrow> \<not> IsTombstone e \<Longrightarrow> indexOk (replayPut k e w si)"
  using put_install_ok [OF indexOk_bloomAdd(1) _ indexOk_bloomAdd(2)] indexOk_bloomAdd(1)
  by (simp add: replayPut_def Let_def)

text \<open>An entry becomes a tombstone.\<close>

lemma die_view:
  fixes e :: IndexEntry
  assumes "lookup si k = Some e0" "wasLive \<longleftrightarrow> \<not> IsTombstone e0"
  defines "si' \<equiv> die k wasLive
    (setEntries (shardFor k) (AList.update k e (entries (shards si (shardFor k)))) si)"
  shows "lookup si' = (lookup si)(k \<mapsto> e)" "dirtyOf si' = (dirtyOf si)(k := None)"
    "keyCount si' = keyCount si - (if k \<in> liveKeys si then 1 else 0)"
    "dirtyCount si' = dirtyCount si - (if k \<in> dom (dirtyOf si) then 1 else 0)"
    "ordered si' = map_option (oRemove k) (ordered si)" "bloomAt si' = bloomAt si"
proof -
  have "k \<in> liveKeys si \<longleftrightarrow> wasLive" using assms(1,2) by (simp add: live_def)
  moreover have "lookup (x\<lparr>keyCount := c\<rparr>) = lookup x" "dirtyOf (x\<lparr>keyCount := c\<rparr>) = dirtyOf x" for x c
    by (auto simp: lookup_def dirtyOf_def fun_eq_iff)
  ultimately show "lookup si' = (lookup si)(k \<mapsto> e)" "dirtyOf si' = (dirtyOf si)(k := None)"
    "keyCount si' = keyCount si - (if k \<in> liveKeys si then 1 else 0)"
    "dirtyCount si' = dirtyCount si - (if k \<in> dom (dirtyOf si) then 1 else 0)"
    "ordered si' = map_option (oRemove k) (ordered si)" "bloomAt si' = bloomAt si"
    by (simp_all add: si'_def die_def Let_def frame lookup_setEntries)
qed

lemma die_ok:
  assumes "indexOk si" "lookup si k = Some e0" "IsTombstone e" "ieKeyHash e = ieKeyHash e0"
    "wasLive \<longleftrightarrow> \<not> IsTombstone e0"
  shows "indexOk (die k wasLive
    (setEntries (shardFor k) (AList.update k e (entries (shards si (shardFor k)))) si))" (is "indexOk ?si")
proof -
  have "shapeOk ?si"
    using assms(1) by (auto simp: die_def Let_def indexOk_def intro!: shape tableOk_update shapeOk_tableOk)
  moreover have v: "viewOk (lookup si) (dirtyOf si) (keyCount si) (dirtyCount si) (ordered si) (bloomAt si)"
    using assms(1) by (simp add: indexOk_def)
  moreover have "ieKeyHash e = fnv64a k"
    using v assms(2,4) by (simp add: viewOk_def)
  ultimately show ?thesis
    using viewOk_dead [OF v assms(3)] unfolding indexOk_def die_view [OF assms(2,5)] by simp
qed

lemma markTombstone_ok: "indexOk si \<Longrightarrow> indexOk (snd (markTombstone k n si))"
  by (auto simp: markTombstone_def tupdate_def Let_def lookup_at
      intro!: die_ok split: option.splits)

lemma replayMarkTombstone_ok: "indexOk si \<Longrightarrow> indexOk (replayMarkTombstone k n si)"
  by (auto simp: replayMarkTombstone_def tupdate_def Let_def lookup_at
      intro!: die_ok split: option.splits)

lemma markExpired_ok: "indexOk si \<Longrightarrow> indexOk (snd (markExpired k c n si))"
  by (auto simp: markExpired_def tupdate_def Let_def lookup_at
      intro!: die_ok split: option.splits)

lemma setEntries_update_ok:
  assumes "indexOk si" "lookup si k = Some e0" "IsTombstone e = IsTombstone e0" "ieKeyHash e = ieKeyHash e0"
  shows "indexOk (setEntries (shardFor k) (AList.update k e (entries (shards si (shardFor k)))) si)"
proof -
  have v: "viewOk (lookup si) (dirtyOf si) (keyCount si) (dirtyCount si) (ordered si) (bloomAt si)"
    using assms(1) by (simp add: indexOk_def)
  then have "ieKeyHash e = fnv64a k" "IsTombstone e \<longleftrightarrow> k \<notin> liveKeys si"
    using assms(2-4) by (auto simp: viewOk_def live_def)
  with v show ?thesis
    using assms(1) viewOk_same [OF v]
    by (auto simp: indexOk_def frame lookup_setEntries intro!: shape tableOk_update shapeOk_tableOk)
qed

lemma setEntries_id [simp]: "setEntries i (entries (shards si i)) si = si"
  by (simp add: setEntries_def updShard_def)

lemma markTiered_ok: "indexOk si \<Longrightarrow> indexOk (snd (markTiered k si))"
  by (auto simp: markTiered_def tupdate_def Let_def lookup_at intro!: setEntries_update_ok
      split: option.splits)

lemma updateVLogOffset_ok: "indexOk si \<Longrightarrow> indexOk (snd (updateVLogOffset k old new p si))"
  by (auto simp: updateVLogOffset_def tupdate_def Let_def lookup_at intro!: setEntries_update_ok
      split: option.splits)

lemma setReplicaApplied_ok: "indexOk si \<Longrightarrow> indexOk (setReplicaApplied k ts si)"
  by (auto simp: setReplicaApplied_def tupdate_def Let_def lookup_at intro!: setEntries_update_ok
      split: option.splits)

lemma clearDirty_ok: "indexOk si \<Longrightarrow> indexOk (clearDirty k si)"
  using viewOk_clean by (auto simp: indexOk_def frame intro!: shape)

lemma removeTombstone_view:
  "lookup (removeTombstone k si) = (if k \<in> liveKeys si then lookup si else (lookup si)(k := None))"
  "dirtyOf (removeTombstone k si) = (if k \<in> liveKeys si then dirtyOf si else (dirtyOf si)(k := None))"
proof -
  have e: "(case lookup si k of None \<Rightarrow> False | Some e \<Rightarrow> \<not> IsTombstone e) \<longleftrightarrow> k \<in> liveKeys si"
    by (auto simp: live_def split: option.splits)
  show "lookup (removeTombstone k si) = (if k \<in> liveKeys si then lookup si else (lookup si)(k := None))"
    "dirtyOf (removeTombstone k si) = (if k \<in> liveKeys si then dirtyOf si else (dirtyOf si)(k := None))"
    by (simp_all add: removeTombstone_def Let_def tget_lookup e tdel_def frame lookup_setEntries_del)
qed

lemma removeTombstone_ok:
  assumes "indexOk si"
  shows "indexOk (removeTombstone k si)"
proof (cases "k \<in> liveKeys si")
  case True
  then have "removeTombstone k si = si"
    by (auto simp: removeTombstone_def Let_def tget_lookup live_def)
  then show ?thesis using assms by simp
next
  case False
  have v: "viewOk (lookup si) (dirtyOf si) (keyCount si) (dirtyCount si) (ordered si) (bloomAt si)"
    using assms by (simp add: indexOk_def)
  have r: "removeTombstone k si = clearDirty k (setEntries (shardFor k)
      (AList.delete k (entries (shards si (shardFor k)))) (leaveOrdered k si))"
    using False by (auto simp: removeTombstone_def Let_def tget_lookup live_def tdel_def split: option.splits)
  have "shapeOk (removeTombstone k si)"
    using assms unfolding r by (auto simp: indexOk_def intro!: shape tableOk_delete shapeOk_tableOk)
  then show ?thesis
    using viewOk_gone [OF v False] removeTombstone_view [of k si] False
    by (simp add: indexOk_def) (simp add: r frame)
qed

lemma replayTombstoneRecord_ok:
  assumes "indexOk si"
  shows "indexOk (replayTombstoneRecord k ts origin si)"
proof (cases "lookup si k")
  case (Some e)
  then show ?thesis
    using assms replayMarkTombstone_ok setReplicaApplied_ok
    by (simp add: replayTombstoneRecord_def Let_def tget_lookup)
next
  case None
  have v: "viewOk (lookup si) (dirtyOf si) (keyCount si) (dirtyCount si) (ordered si) (bloomAt si)"
    using assms by (simp add: indexOk_def)
  have "k \<notin> liveKeys si" using None by (simp add: live_def)
  with v show ?thesis
    using None assms viewOk_same [OF v] setFlag_tombstone_mono
    by (auto simp: replayTombstoneRecord_def Let_def tget_lookup indexOk_def tswap_def frame
        lookup_setEntries intro!: shape tableOk_update shapeOk_tableOk)
qed

lemma indexOk_cong:
  assumes "shards si' = shards si" "keyCount si' = keyCount si" "dirtyCount si' = dirtyCount si"
    "ordered si' = ordered si"
  shows "indexOk si' = indexOk si"
proof -
  have "lookup si' = lookup si" "dirtyOf si' = dirtyOf si"
    using assms by (auto simp: lookup_def dirtyOf_def fun_eq_iff)
  with assms show ?thesis by (simp add: indexOk_def shapeOk_def)
qed

text \<open>The Bloom rebuild, taken as a whole, keeps every live key in the filter.\<close>

lemma vacuumShard_frame [frame]:
  "lookup (vacuumShard i si) = lookup si" "dirtyOf (vacuumShard i si) = dirtyOf si"
  "keyCount (vacuumShard i si) = keyCount si" "dirtyCount (vacuumShard i si) = dirtyCount si"
  "ordered (vacuumShard i si) = ordered si"
  "entries (shards (vacuumShard i si) j) = entries (shards si j)"
  "dirtyValues (shards (vacuumShard i si) j) = dirtyValues (shards si j)"
  by (auto simp: vacuumShard_def vacuumFill_def vacuumReset_def updShard_def lookup_def dirtyOf_def
      fun_eq_iff)

lemma bloomAt_vacuumShard:
  "bloomAt (vacuumShard i si) j = (if j = i
     then map_option (\<lambda>b. fold Add (liveHashes (entries (shards si i))) (Reset b)) (bloomAt si i)
     else bloomAt si j)"
  by (cases "bloomAt si i") (simp_all add: vacuumShard_def vacuumFill_def vacuumReset_def updShard_def)

lemma liveHashes_live:
  assumes "indexOk si" "k \<in> liveKeys si"
  shows "fnv64a k \<in> set (liveHashes (entries (shards si (shardFor k))))"
proof -
  obtain e where e: "lookup si k = Some e" "\<not> IsTombstone e"
    using assms(2) by (auto simp: live_def)
  then have "(k, e) \<in> set (entries (shards si (shardFor k)))" "ieKeyHash e = fnv64a k"
    using assms(1) by (auto simp: lookup_def indexOk_def viewOk_def dest: map_of_SomeD)
  with e(2) show ?thesis by (force simp: liveHashes_def)
qed

lemma vacuumShard_ok:
  assumes "indexOk si"
  shows "indexOk (vacuumShard i si)"
proof -
  have "viewOk (lookup si) (dirtyOf si) (keyCount si) (dirtyCount si) (ordered si) (bloomAt (vacuumShard i si))"
  proof (rule viewOk_bloom)
    show v: "viewOk (lookup si) (dirtyOf si) (keyCount si) (dirtyCount si) (ordered si) (bloomAt si)"
      using assms by (simp add: indexOk_def)
    have "MayContain (fold Add (liveHashes (entries (shards si (shardFor k)))) (Reset b)) (fnv64a k)"
      if "k \<in> liveKeys si" "bloomOk b" for k b
      using MayContain_adds liveHashes_live [OF assms that(1)] that(2) by simp
    then show "\<forall>j b. bloomAt (vacuumShard i si) j = Some b \<longrightarrow>
        bloomOk b \<and> (\<forall>k \<in> liveKeys si. shardFor k = j \<longrightarrow> MayContain b (fnv64a k))"
      using v by (fastforce simp: bloomAt_vacuumShard viewOk_def split: if_splits)
  qed
  moreover have "shapeOk (vacuumShard i si) = shapeOk si"
    by (rule shapeOk_same) (simp_all add: frame)
  ultimately show ?thesis
    using assms by (simp add: indexOk_def frame)
qed

lemma vacuumBloomFilters_ok: "indexOk si \<Longrightarrow> indexOk (vacuumBloomFilters si)"
proof -
  have "indexOk si \<Longrightarrow> indexOk (fold vacuumShard is si)" for "is" si
    by (induction "is" arbitrary: si) (simp_all add: vacuumShard_ok)
  then show "indexOk si \<Longrightarrow> indexOk (vacuumBloomFilters si)"
    by (simp add: vacuumBloomFilters_def)
qed

lemma newShardedIndex_ok: "indexOk newShardedIndex"
proof -
  have "lookup newShardedIndex = (\<lambda>_. None)" "dirtyOf newShardedIndex = (\<lambda>_. None)"
    by (auto simp: newShardedIndex_def newIndexShard_def lookup_def dirtyOf_def fun_eq_iff)
  then show ?thesis
    using represents_new
    by (auto simp: indexOk_def shapeOk_def viewOk_def live_def tableOk_def newShardedIndex_def newIndexShard_def)
qed

lemma installBlooms_ok:
  assumes "indexOk si" "liveKeys si = {}" "bits \<le> 2 ^ 40"
  shows "indexOk (installBlooms bits k si)"
proof -
  have "lookup (installBlooms bits k si) = lookup si" "dirtyOf (installBlooms bits k si) = dirtyOf si"
    by (auto simp: installBlooms_def lookup_def dirtyOf_def fun_eq_iff)
  moreover have "shapeOk (installBlooms bits k si) = shapeOk si"
    by (rule shapeOk_same) (simp_all add: installBlooms_def)
  moreover have "viewOk (lookup si) (dirtyOf si) (keyCount si) (dirtyCount si) (ordered si)
      (bloomAt (installBlooms bits k si))"
  proof (rule viewOk_bloom)
    show "viewOk (lookup si) (dirtyOf si) (keyCount si) (dirtyCount si) (ordered si) (bloomAt si)"
      using assms(1) by (simp add: indexOk_def)
    show "\<forall>i b. bloomAt (installBlooms bits k si) i = Some b \<longrightarrow>
        bloomOk b \<and> (\<forall>k \<in> liveKeys si. shardFor k = i \<longrightarrow> MayContain b (fnv64a k))"
      using bloomOk_new [OF assms(3), of k] unfolding assms(2) by (simp add: installBlooms_def)
  qed
  ultimately show ?thesis
    using assms(1) by (simp add: indexOk_def) (simp add: installBlooms_def)
qed

section \<open>All reachable indexes\<close>

text \<open>
  The operations other components call, in any order. Entries that are put are live, and the
  filters are installed before the first key.
\<close>

inductive indexOp :: "shardedIndex \<Rightarrow> shardedIndex \<Rightarrow> bool" where
  op_put: "\<not> IsTombstone e \<Longrightarrow> indexOp si (put_entry k e w si)"
| op_replayPut: "\<not> IsTombstone e \<Longrightarrow> indexOp si (replayPut k e w si)"
| op_markTombstone: "indexOp si (snd (markTombstone k n si))"
| op_replayTombstone: "indexOp si (replayTombstoneRecord k n origin si)"
| op_replayMark: "indexOp si (replayMarkTombstone k n si)"
| op_markExpired: "indexOp si (snd (markExpired k c n si))"
| op_markTiered: "indexOp si (snd (markTiered k si))"
| op_removeTombstone: "indexOp si (removeTombstone k si)"
| op_clearDirty: "indexOp si (clearDirty k si)"
| op_setReplicaApplied: "indexOp si (setReplicaApplied k n si)"
| op_relocate: "indexOp si (snd (updateVLogOffset k old new p si))"
| op_vacuum: "indexOp si (vacuumBloomFilters si)"
| op_track: "indexOp si (snd (TrackWrites limit si))"
| op_untrack: "indexOp si (CloseTracker si)"
| op_replayMode: "indexOp si (si\<lparr>replayInOrder := r, replayExpiryCapUs := c\<rparr>)"

lemma indexOp_ok: "indexOp si si' \<Longrightarrow> indexOk si \<Longrightarrow> indexOk si'"
proof (induction rule: indexOp.induct)
  case (op_track si limit)
  then show ?case
    using indexOk_cong [of "snd (TrackWrites limit si)" si] by (auto simp: TrackWrites_def split: option.splits)
next
  case (op_untrack si)
  then show ?case using indexOk_cong [of "CloseTracker si" si] by (simp add: CloseTracker_def)
next
  case (op_replayMode si c r)
  then show ?case using indexOk_cong [of "si\<lparr>replayInOrder := r, replayExpiryCapUs := c\<rparr>" si] by simp
qed (simp_all add: put_ok replayPut_ok markTombstone_ok replayTombstoneRecord_ok replayMarkTombstone_ok
    markExpired_ok markTiered_ok removeTombstone_ok clearDirty_ok setReplicaApplied_ok updateVLogOffset_ok
    vacuumBloomFilters_ok)

text \<open>The index as the engine builds it: with or without filters and ordered view.\<close>

inductive startIndex :: "shardedIndex \<Rightarrow> bool" where
  start_plain: "startIndex newShardedIndex"
| start_blooms: "startIndex si \<Longrightarrow> bits \<le> 2 ^ 40 \<Longrightarrow> startIndex (installBlooms bits k si)"
| start_unordered: "startIndex si \<Longrightarrow> startIndex (si\<lparr>ordered := None\<rparr>)"

lemma startIndex_ok: "startIndex si \<Longrightarrow> indexOk si \<and> liveKeys si = {}"
proof (induction rule: startIndex.induct)
  case start_plain
  have "liveKeys newShardedIndex = {}"
    by (auto simp: live_def lookup_def newShardedIndex_def newIndexShard_def)
  then show ?case using newShardedIndex_ok by simp
next
  case (start_blooms si bits k)
  moreover have "lookup (installBlooms bits k si) = lookup si"
    by (auto simp: installBlooms_def lookup_def fun_eq_iff)
  ultimately show ?case using installBlooms_ok by auto
next
  case (start_unordered si)
  moreover have "lookup (si\<lparr>ordered := None\<rparr>) = lookup si" "dirtyOf (si\<lparr>ordered := None\<rparr>) = dirtyOf si"
    by (auto simp: lookup_def dirtyOf_def fun_eq_iff)
  ultimately show ?case by (auto simp: indexOk_def viewOk_def shapeOk_def)
qed

lemma reachable_indexOk: "startIndex si0 \<Longrightarrow> indexOp\<^sup>*\<^sup>* si0 si \<Longrightarrow> indexOk si"
proof -
  assume s: "startIndex si0" and "indexOp\<^sup>*\<^sup>* si0 si"
  from this(2) show "indexOk si"
    by (induction rule: rtranclp_induct) (auto simp: s startIndex_ok indexOp_ok)
qed

lemma get_live:
  assumes "indexOk si" "k \<in> liveKeys si"
  shows "get_entry k si = Some (the (lookup si k), dirtyOf si k)"
proof -
  obtain e where e: "lookup si k = Some e" using assms(2) by (auto simp: live_def)
  have "MayContain b (fnv64a k)" if "bloomAt si (shardFor k) = Some b" for b
    using assms that unfolding indexOk_def viewOk_def by blast
  then show ?thesis
    using e by (auto simp: get_entry_def getHashed_def Let_def shardFor_def [symmetric] tget_lookup dirtyOf_def
        split: option.splits)
qed

lemma get_sound: "get_entry k si = Some (e, d) \<Longrightarrow> lookup si k = Some e \<and> d = dirtyOf si k"
  by (auto simp: get_entry_def getHashed_def Let_def shardFor_def [symmetric] tget_lookup dirtyOf_def
      split: option.splits if_splits)

lemma tableOk_keys:
  assumes "tableOk i t"
  shows "k \<in> fst ` set t \<longleftrightarrow> shardFor k = i \<and> map_of t k \<noteq> None"
  using assms by (auto simp: tableOk_def map_of_eq_None_iff dom_map_of_conv_image_fst [symmetric])

lemma dirtyKeys_set:
  assumes "indexOk si"
  shows "set (dirtyKeys si) = dom (dirtyOf si)"
proof -
  have t: "tableOk i (dirtyValues (shards si i))" for i
    using assms by (simp add: indexOk_def shapeOk_def)
  have "k \<in> set (dirtyKeys si) \<longleftrightarrow> (\<exists>i < numShards. k \<in> fst ` set (dirtyValues (shards si i)))" for k
    by (auto simp: dirtyKeys_def)
  also have "\<dots> k \<longleftrightarrow> dirtyOf si k \<noteq> None" for k
    unfolding tableOk_keys [OF t] using shardFor_less by (auto simp: dirtyOf_def)
  finally show ?thesis by auto
qed

text \<open>
  C7: in every index the operations can build, \<open>size\<close> is the number of
  live keys, the dirty counter and \<open>dirtyKeys\<close> describe exactly the values held in RAM, which
  belong to live keys, the ordered view holds exactly the live keys, and \<open>get\<close> finds every
  live key in spite of the Bloom filter and never returns anything else than the stored entry.
\<close>

theorem shard_index_invariant:
  assumes "startIndex si0" "indexOp\<^sup>*\<^sup>* si0 si"
  shows "size_index si = int (card (liveKeys si)) \<and>
    dirtyCount si = int (card (dom (dirtyOf si))) \<and> set (dirtyKeys si) = dom (dirtyOf si) \<and>
    dom (dirtyOf si) \<subseteq> liveKeys si \<and>
    (\<forall>oi. ordered si = Some oi \<longrightarrow> represents oi (liveKeys si)) \<and>
    (k \<in> liveKeys si \<longrightarrow> get_entry k si = Some (the (lookup si k), dirtyOf si k)) \<and>
    (\<forall>e d. get_entry k si = Some (e, d) \<longrightarrow> lookup si k = Some e \<and> d = dirtyOf si k)"
proof -
  have ok: "indexOk si" by (rule reachable_indexOk [OF assms])
  then have "viewOk (lookup si) (dirtyOf si) (keyCount si) (dirtyCount si) (ordered si) (bloomAt si)"
    by (simp add: indexOk_def)
  then show ?thesis
    using get_live [OF ok, of k] get_sound [of k si] dirtyKeys_set [OF ok]
    unfolding viewOk_def size_index_def by blast
qed

definition exampleEntryIE :: IndexEntry where
  "exampleEntryIE = zeroEntry\<lparr>ieValueSize := 5, ieWriteTimestampUs := 7\<rparr>"

lemma exampleEntryIE_live [simp]: "\<not> IsTombstone exampleEntryIE"
  by (simp add: exampleEntryIE_def zeroEntry_def IsTombstone_def hasFlag_def)

theorem shard_index_invariant_witness:
  "\<exists>si. indexOp\<^sup>*\<^sup>* newShardedIndex si \<and> size_index si = 1 \<and>
     get_entry [1] si = Some (exampleEntryIE\<lparr>ieKeyHash := fnv64a [1]\<rparr>, Some [2, 3])"
proof -
  let ?si = "put_entry [1] exampleEntryIE (Some [2, 3]) newShardedIndex"
  have r: "indexOp\<^sup>*\<^sup>* newShardedIndex ?si"
    by (intro r_into_rtranclp indexOp.op_put) simp
  have l: "lookup ?si = [[1] \<mapsto> exampleEntryIE\<lparr>ieKeyHash := fnv64a [1]\<rparr>]" "dirtyOf ?si = [[1] \<mapsto> [2, 3]]"
    by (auto simp: put_entry_def put_install_view frame newShardedIndex_def newIndexShard_def lookup_def
        dirtyOf_def fun_eq_iff)
  have k: "live [[1] \<mapsto> exampleEntryIE\<lparr>ieKeyHash := fnv64a [1]\<rparr>] = {[1]}" by (auto simp: live_def)
  have "size_index ?si = int (card (liveKeys ?si))"
    "[1] \<in> liveKeys ?si \<longrightarrow> get_entry [1] ?si = Some (the (lookup ?si [1]), dirtyOf ?si [1])"
    using shard_index_invariant [OF start_plain r, of "[1]"] by blast+
  then have "size_index ?si = 1" "get_entry [1] ?si = Some (exampleEntryIE\<lparr>ieKeyHash := fnv64a [1]\<rparr>, Some [2, 3])"
    unfolding l k by simp_all
  with r show ?thesis by blast
qed

lemma lookup_put [simp]: "lookup (put_entry k e w si) = (lookup si)(k \<mapsto> e\<lparr>ieKeyHash := fnv64a k\<rparr>)"
  by (simp add: put_entry_def put_install_view frame)

lemma dirtyOf_put: "dirtyOf (put_entry k e w si) = (case w of None \<Rightarrow> dirtyOf si | Some v \<Rightarrow> (dirtyOf si)(k \<mapsto> v))"
  by (cases w) (simp_all add: put_entry_def put_install_view frame)

lemma dirtyOf_replayPut: "dirtyOf (replayPut k e w si) =
    (if \<not> replayInOrder si \<and> (\<exists>e0. lookup si k = Some e0 \<and> ieWriteTimestampUs e0 > ieWriteTimestampUs e)
     then dirtyOf si else (case w of None \<Rightarrow> dirtyOf si | Some v \<Rightarrow> (dirtyOf si)(k \<mapsto> v)))"
  by (auto simp: replayPut_def Let_def tget_lookup put_install_view frame split: option.splits)

lemma lookup_replayPut: "lookup (replayPut k e w si) =
    (if \<not> replayInOrder si \<and> (\<exists>e0. lookup si k = Some e0 \<and> ieWriteTimestampUs e0 > ieWriteTimestampUs e)
     then lookup si else (lookup si)(k \<mapsto> e\<lparr>ieKeyHash := fnv64a k\<rparr>))"
  by (auto simp: replayPut_def Let_def tget_lookup put_install_view frame split: option.splits)

lemma lookup_markTombstone: "lookup (snd (markTombstone k n si)) =
    (case lookup si k of None \<Rightarrow> lookup si | Some e0 \<Rightarrow> (lookup si)(k \<mapsto> MarkTombstone n e0))"
  and dirtyOf_markTombstone: "dirtyOf (snd (markTombstone k n si)) =
    (case lookup si k of None \<Rightarrow> dirtyOf si | Some e0 \<Rightarrow> (dirtyOf si)(k := None))"
  by (auto simp: markTombstone_def Let_def tupdate_def lookup_at die_view split: option.splits)

lemma lookup_markExpired: "lookup (snd (markExpired k c n si)) =
    (case lookup si k of None \<Rightarrow> lookup si | Some e0 \<Rightarrow>
       if \<not> IsTombstone e0 \<and> IsExpired c e0 then (lookup si)(k \<mapsto> MarkTombstone n e0) else lookup si)"
  by (auto simp: markExpired_def Let_def tupdate_def lookup_at die_view split: option.splits)

text \<open>The entry of a relocated record.\<close>

definition relocated :: "nat \<Rightarrow> bool \<Rightarrow> IndexEntry \<Rightarrow> IndexEntry" where
  "relocated off packed e =
     (if packed then setFlag FlagPacked (e\<lparr>ieDiskOffset := off\<rparr>) else clearFlag FlagPacked (e\<lparr>ieDiskOffset := off\<rparr>))"

lemma updateVLogOffset_moved: "fst (updateVLogOffset k old new p si) =
    (case lookup si k of None \<Rightarrow> False | Some e0 \<Rightarrow> \<not> IsTombstone e0 \<and> ieDiskOffset e0 = old)"
  and lookup_updateVLogOffset: "lookup (snd (updateVLogOffset k old new p si)) =
    (case lookup si k of None \<Rightarrow> lookup si | Some e0 \<Rightarrow>
       if \<not> IsTombstone e0 \<and> ieDiskOffset e0 = old then (lookup si)(k \<mapsto> relocated new p e0) else lookup si)"
  and dirtyOf_updateVLogOffset: "dirtyOf (snd (updateVLogOffset k old new p si)) = dirtyOf si"
  by (auto simp: updateVLogOffset_def relocated_def Let_def tupdate_def lookup_at lookup_setEntries frame
      split: option.splits)

lemma markTiered_effect: "fst (markTiered k si) =
    (case lookup si k of None \<Rightarrow> False | Some e0 \<Rightarrow> \<not> IsTombstone e0)"
  and lookup_markTiered: "lookup (snd (markTiered k si)) =
    (case lookup si k of None \<Rightarrow> lookup si | Some e0 \<Rightarrow>
       if \<not> IsTombstone e0 then (lookup si)(k \<mapsto> setFlag FlagTiered e0) else lookup si)"
  and dirtyOf_markTiered: "dirtyOf (snd (markTiered k si)) = dirtyOf si"
  by (auto simp: markTiered_def Let_def tupdate_def lookup_at lookup_setEntries frame split: option.splits)

lemma markTombstone_found: "fst (markTombstone k n si) \<longleftrightarrow> lookup si k \<noteq> None"
  and markExpired_found: "fst (markExpired k c n si) =
    (case lookup si k of None \<Rightarrow> False | Some e0 \<Rightarrow> \<not> IsTombstone e0 \<and> IsExpired c e0)"
  and dirtyOf_markExpired: "dirtyOf (snd (markExpired k c n si)) =
    (case lookup si k of None \<Rightarrow> dirtyOf si | Some e0 \<Rightarrow>
       if \<not> IsTombstone e0 \<and> IsExpired c e0 then (dirtyOf si)(k := None) else dirtyOf si)"
  by (auto simp: markTombstone_def markExpired_def Let_def tupdate_def lookup_at die_view split: option.splits)

lemma lookup_replayMarkTombstone: "lookup (replayMarkTombstone k n si) =
    (case lookup si k of None \<Rightarrow> lookup si | Some e0 \<Rightarrow>
       if \<not> replayInOrder si \<and> ieWriteTimestampUs e0 > n then lookup si
       else (lookup si)(k \<mapsto> MarkTombstone n e0))"
  by (auto simp: replayMarkTombstone_def Let_def tupdate_def lookup_at die_view split: option.splits)

lemma dirtyOf_replayMarkTombstone: "dirtyOf (replayMarkTombstone k n si) =
    (case lookup si k of None \<Rightarrow> dirtyOf si | Some e0 \<Rightarrow>
       if \<not> replayInOrder si \<and> ieWriteTimestampUs e0 > n then dirtyOf si
       else (dirtyOf si)(k := None))"
  by (auto simp: replayMarkTombstone_def Let_def tupdate_def lookup_at die_view split: option.splits)

lemma lookup_setReplicaApplied: "lookup (setReplicaApplied k n si) =
    (case lookup si k of None \<Rightarrow> lookup si | Some e0 \<Rightarrow>
       if IsTombstone e0 \<and> ieWriteTimestampUs e0 = n then (lookup si)(k \<mapsto> setFlag FlagReplicaApplied e0)
       else lookup si)"
  and dirtyOf_setReplicaApplied: "dirtyOf (setReplicaApplied k n si) = dirtyOf si"
  by (auto simp: setReplicaApplied_def Let_def tupdate_def lookup_at lookup_setEntries frame split: option.splits)

text \<open>The tombstone a delete record leaves for a key.\<close>

definition tombstoneFor :: "bytes \<Rightarrow> int \<Rightarrow> byte \<Rightarrow> IndexEntry option \<Rightarrow> IndexEntry" where
  "tombstoneFor k n origin old = (case old of
     None \<Rightarrow> setFlag origin (MarkTombstone n (zeroEntry\<lparr>ieKeyHash := fnv64a k, ieKeySize := length k mod 2 ^ 32,
       ieSchemaVersion := CurrentSchemaVersion, ieShardID := shardFor k\<rparr>))
   | Some e0 \<Rightarrow> if origin \<noteq> 0 then setFlag FlagReplicaApplied (MarkTombstone n e0) else MarkTombstone n e0)"

lemma lookup_replayTombstoneRecord: "lookup (replayTombstoneRecord k n origin si) =
    (if \<not> replayInOrder si \<and> (\<exists>e0. lookup si k = Some e0 \<and> ieWriteTimestampUs e0 > n) then lookup si
     else (lookup si)(k \<mapsto> tombstoneFor k n origin (lookup si k)))"
proof (cases "lookup si k")
  case None
  then show ?thesis
    by (simp add: replayTombstoneRecord_def Let_def tget_lookup tswap_def frame lookup_setEntries
        tombstoneFor_def) (simp add: setFlag_def MarkTombstone_def zeroEntry_def)
next
  case (Some e0)
  then show ?thesis
    by (auto simp: replayTombstoneRecord_def Let_def tget_lookup lookup_replayMarkTombstone
        lookup_setReplicaApplied tombstoneFor_def)
qed

lemma tombstoneFor_fields [simp]:
  "IsTombstone (tombstoneFor k n origin old)" "ieWriteTimestampUs (tombstoneFor k n origin old) = n"
  by (auto simp: tombstoneFor_def setFlag_tombstone_mono split: option.splits)

lemma replayInOrder_frame [frame]:
  "replayInOrder (replayPut k e w si) = replayInOrder si"
  "replayInOrder (replayMarkTombstone k n si) = replayInOrder si"
  "replayInOrder (setReplicaApplied k n si) = replayInOrder si"
  "replayInOrder (replayTombstoneRecord k n origin si) = replayInOrder si"
proof -
  have f: "replayInOrder (goLive j x) = replayInOrder x" "replayInOrder (setDirty j v x) = replayInOrder x"
    "replayInOrder (leaveOrdered j x) = replayInOrder x" "replayInOrder (clearDirty j x) = replayInOrder x"
    for j v x
    by (auto simp: goLive_def setDirty_def leaveOrdered_def clearDirty_def updShard_def Let_def split: option.splits)
  show p: "replayInOrder (replayPut k e w si) = replayInOrder si"
    by (simp add: replayPut_def put_install_def Let_def tswap_def f frame)
  show m: "replayInOrder (replayMarkTombstone k n si) = replayInOrder si" for n si
    by (auto simp: replayMarkTombstone_def Let_def die_def f frame split: prod.splits option.splits)
  show s: "replayInOrder (setReplicaApplied k n si) = replayInOrder si" for n si
    by (simp add: setReplicaApplied_def Let_def frame split: prod.splits)
  show "replayInOrder (replayTombstoneRecord k n origin si) = replayInOrder si"
    by (simp add: replayTombstoneRecord_def Let_def m s frame)
qed

lemma dirtyOf_replayTombstoneRecord: "dirtyOf (replayTombstoneRecord k n origin si) =
    (case lookup si k of None \<Rightarrow> dirtyOf si | Some e0 \<Rightarrow>
       if \<not> replayInOrder si \<and> ieWriteTimestampUs e0 > n then dirtyOf si
       else (dirtyOf si)(k := None))"
  by (auto simp: replayTombstoneRecord_def Let_def tget_lookup frame dirtyOf_replayMarkTombstone
      dirtyOf_setReplicaApplied split: option.splits)

lemmas index_effects = lookup_replayPut lookup_markTombstone dirtyOf_markTombstone lookup_markExpired
  dirtyOf_markExpired lookup_updateVLogOffset dirtyOf_updateVLogOffset updateVLogOffset_moved
  markTiered_effect lookup_markTiered dirtyOf_markTiered markTombstone_found markExpired_found
  lookup_replayMarkTombstone dirtyOf_replayMarkTombstone lookup_setReplicaApplied dirtyOf_setReplicaApplied
  lookup_replayTombstoneRecord dirtyOf_replayTombstoneRecord removeTombstone_view

text \<open>
  C26: over the map from keys to entries and the map from keys to
  values held in RAM, every operation is the update it promises. \<open>put\<close> overwrites one key;
  replay overwrites it unless, outside the raft mode, the stored entry is newer; a delete turns
  a stored entry into a tombstone and drops its RAM value; a replayed delete does so unless
  the stored entry is newer, and leaves a tombstone even for an unknown key; an expiry acts
  only on an entry that is live and expired; relocation gives a live entry that is still at
  the old offset the new offset and packing, and changes nothing else; tiering sets one flag
  of a live entry; the origin of a delete is set only on the tombstone of that time; removal
  drops only what is not live; \<open>clearDirty\<close> drops a RAM value.
\<close>

theorem index_operations_refine:
  "(lookup (put_entry k e w si), dirtyOf (put_entry k e w si)) =
     ((lookup si)(k \<mapsto> e\<lparr>ieKeyHash := fnv64a k\<rparr>),
      case w of None \<Rightarrow> dirtyOf si | Some v \<Rightarrow> (dirtyOf si)(k \<mapsto> v)) \<and>
   (lookup (replayPut k e w si), dirtyOf (replayPut k e w si)) =
     (if \<not> replayInOrder si \<and> (\<exists>e0. lookup si k = Some e0 \<and> ieWriteTimestampUs e0 > ieWriteTimestampUs e)
      then (lookup si, dirtyOf si)
      else ((lookup si)(k \<mapsto> e\<lparr>ieKeyHash := fnv64a k\<rparr>),
            case w of None \<Rightarrow> dirtyOf si | Some v \<Rightarrow> (dirtyOf si)(k \<mapsto> v))) \<and>
   (fst (markTombstone k n si), lookup (snd (markTombstone k n si)), dirtyOf (snd (markTombstone k n si))) =
     (case lookup si k of None \<Rightarrow> (False, lookup si, dirtyOf si)
      | Some e0 \<Rightarrow> (True, (lookup si)(k \<mapsto> MarkTombstone n e0), (dirtyOf si)(k := None))) \<and>
   (lookup (replayMarkTombstone k n si), dirtyOf (replayMarkTombstone k n si)) =
     (case lookup si k of None \<Rightarrow> (lookup si, dirtyOf si)
      | Some e0 \<Rightarrow> if \<not> replayInOrder si \<and> ieWriteTimestampUs e0 > n then (lookup si, dirtyOf si)
          else ((lookup si)(k \<mapsto> MarkTombstone n e0), (dirtyOf si)(k := None))) \<and>
   (lookup (replayTombstoneRecord k n origin si), dirtyOf (replayTombstoneRecord k n origin si)) =
     (case lookup si k of None \<Rightarrow> ((lookup si)(k \<mapsto> tombstoneFor k n origin None), dirtyOf si)
      | Some e0 \<Rightarrow> if \<not> replayInOrder si \<and> ieWriteTimestampUs e0 > n then (lookup si, dirtyOf si)
          else ((lookup si)(k \<mapsto> tombstoneFor k n origin (Some e0)), (dirtyOf si)(k := None))) \<and>
   (fst (markExpired k c n si), lookup (snd (markExpired k c n si)), dirtyOf (snd (markExpired k c n si))) =
     (case lookup si k of None \<Rightarrow> (False, lookup si, dirtyOf si)
      | Some e0 \<Rightarrow> if \<not> IsTombstone e0 \<and> IsExpired c e0
          then (True, (lookup si)(k \<mapsto> MarkTombstone n e0), (dirtyOf si)(k := None))
          else (False, lookup si, dirtyOf si)) \<and>
   (fst (updateVLogOffset k old new p si), lookup (snd (updateVLogOffset k old new p si)),
      dirtyOf (snd (updateVLogOffset k old new p si))) =
     (case lookup si k of None \<Rightarrow> (False, lookup si, dirtyOf si)
      | Some e0 \<Rightarrow> if \<not> IsTombstone e0 \<and> ieDiskOffset e0 = old
          then (True, (lookup si)(k \<mapsto> (if p then setFlag FlagPacked else clearFlag FlagPacked)
                   (e0\<lparr>ieDiskOffset := new\<rparr>)), dirtyOf si)
          else (False, lookup si, dirtyOf si)) \<and>
   (fst (markTiered k si), lookup (snd (markTiered k si)), dirtyOf (snd (markTiered k si))) =
     (case lookup si k of None \<Rightarrow> (False, lookup si, dirtyOf si)
      | Some e0 \<Rightarrow> if \<not> IsTombstone e0 then (True, (lookup si)(k \<mapsto> setFlag FlagTiered e0), dirtyOf si)
          else (False, lookup si, dirtyOf si)) \<and>
   (lookup (setReplicaApplied k n si), dirtyOf (setReplicaApplied k n si)) =
     (case lookup si k of None \<Rightarrow> (lookup si, dirtyOf si)
      | Some e0 \<Rightarrow> if IsTombstone e0 \<and> ieWriteTimestampUs e0 = n
          then ((lookup si)(k \<mapsto> setFlag FlagReplicaApplied e0), dirtyOf si) else (lookup si, dirtyOf si)) \<and>
   (lookup (removeTombstone k si), dirtyOf (removeTombstone k si)) =
     (if k \<in> liveKeys si then (lookup si, dirtyOf si)
      else ((lookup si)(k := None), (dirtyOf si)(k := None))) \<and>
   (lookup (clearDirty k si), dirtyOf (clearDirty k si)) = (lookup si, (dirtyOf si)(k := None))"
proof (intro conjI)
qed (auto simp: index_effects dirtyOf_put dirtyOf_replayPut relocated_def frame split: option.splits)

text \<open>
  C33: \<open>put\<close> adds its key to the Bloom filter before it takes the shard lock,
  and the rebuild empties the filter under the shared lock. When a rebuild of the shard runs
  between the two steps of a put of the first live key of that shard, the key is in the index
  afterwards and \<open>get\<close> reports it absent, until the next rebuild.
\<close>

theorem vacuum_hides_key:
  assumes "indexOk si" "bloomAt si (shardFor k) = Some b" "0 < bfK b"
    and "\<forall>k' e. (k', e) \<in> set (entries (shards si (shardFor k))) \<longrightarrow> IsTombstone e"
    and "\<not> IsTombstone e"
  shows "k \<in> liveKeys (put_install k e w (vacuumShard (shardFor k) (bloomAdd k si))) \<and>
    get_entry k (put_install k e w (vacuumShard (shardFor k) (bloomAdd k si))) = None"
proof -
  let ?si = "put_install k e w (vacuumShard (shardFor k) (bloomAdd k si))"
  have "liveHashes (entries (shards si (shardFor k))) = []"
    using assms(4) by (auto simp: liveHashes_def filter_empty_conv)
  then have "bloomAt ?si (shardFor k) = Some (Reset (Add (fnv64a k) b))"
    using assms(2) fun_cong [OF put_install_view(6), of k e w "vacuumShard (shardFor k) (bloomAdd k si)" "shardFor k"]
    by (simp add: bloomAt_vacuumShard bloomAt_bloomAdd frame)
  moreover have "bloomOk b"
    using assms(1,2) unfolding indexOk_def viewOk_def by blast
  then have "\<not> MayContain (Reset (Add (fnv64a k) b)) (fnv64a k)"
    using assms(3) by (intro MayContain_Reset) simp_all
  ultimately have "get_entry k ?si = None"
    by (simp add: get_entry_def getHashed_def Let_def shardFor_def)
  moreover have "k \<in> liveKeys ?si"
    using assms(5) by (simp add: put_install_view live_def)
  ultimately show ?thesis by simp
qed

theorem vacuum_hides_key_witness:
  "get_entry [1] (put_install [1] exampleEntryIE None
     (vacuumShard (shardFor [1]) (bloomAdd [1] (installBlooms 64 7 newShardedIndex)))) = None"
proof -
  have "startIndex (installBlooms 64 7 newShardedIndex)"
    by (intro startIndex.intros) simp
  then have "indexOk (installBlooms 64 7 newShardedIndex)" by (simp add: startIndex_ok)
  from vacuum_hides_key [OF this, of "[1]" "newShardBloom 64 7" exampleEntryIE None] show ?thesis
    by (simp add: installBlooms_def newShardedIndex_def newIndexShard_def newShardBloom_def Let_def)
qed

section \<open>Scans and extents\<close>

lemma set_shardsFrom:
  assumes "0 < n"
  shows "set (shardsFrom i n) = {j. i \<le> j \<and> j < numShards \<and> j mod n = i mod n}"
  using assms
proof (induction i n rule: shardsFrom.induct)
  case (1 i n)
  show ?case
  proof (cases "numShards \<le> i")
    case True
    then show ?thesis by (auto simp: shardsFrom.simps [of i n])
  next
    case False
    have step: "i \<le> j \<and> j mod n = i mod n \<longleftrightarrow> j = i \<or> i + n \<le> j \<and> j mod n = i mod n" for j
    proof -
      have "i + n \<le> j" if "i \<le> j" "j mod n = i mod n" "j \<noteq> i"
      proof -
        have "n dvd j - i" using that mod_eq_dvd_iff_nat [of i j n] by simp
        moreover have "0 < j - i" using that by simp
        ultimately have "n \<le> j - i" by (rule dvd_imp_le)
        then show ?thesis using that(1) by simp
      qed
      then show ?thesis by auto
    qed
    have "set (shardsFrom i n) = insert i {j. i + n \<le> j \<and> j < numShards \<and> j mod n = i mod n}"
      using False "1.prems" "1.IH" by (simp add: shardsFrom.simps [of i n])
    also have "\<dots> = {j. i \<le> j \<and> j < numShards \<and> j mod n = i mod n}"
      using step False by fastforce
    finally show ?thesis .
  qed
qed

lemma shardsFrom_disk:
  assumes "d < n"
  shows "i \<in> set (shardsFrom d n) \<longleftrightarrow> i < numShards \<and> diskForShard i n = d"
proof -
  have "d \<le> i" if "i mod n = d" using that mod_le_divisor by (metis mod_less_eq_dividend)
  then show ?thesis
    using assms by (cases "n = 1") (auto simp: set_shardsFrom diskForShard_def)
qed

lemma scanEntries_iff:
  assumes "shapeOk si"
  shows "(k, e) \<in> set (scanEntries is si) \<longleftrightarrow> lookup si k = Some e \<and> shardFor k \<in> set is"
proof -
  have t: "tableOk i (entries (shards si i))" for i using assms by (simp add: shapeOk_def)
  have "(k, e) \<in> set (entries (shards si i)) \<longleftrightarrow> shardFor k = i \<and> lookup si k = Some e" for i
    using t [of i] by (force simp: tableOk_def lookup_def map_of_eq_Some_iff)
  then show ?thesis by (auto simp: scanEntries_def)
qed

lemma set_fst_filter: "set (map fst (filter (\<lambda>(_, e). Q e) xs)) = {k. \<exists>e. (k, e) \<in> set xs \<and> Q e}"
  by force

lemma live_Collect: "{k. \<exists>e. L k = Some e \<and> \<not> IsTombstone e \<and> Q k e} = {k \<in> live L. Q k (the (L k))}"
  by (auto simp: live_def)

text \<open>
  C29: the scanner of expired keys returns exactly the live keys past their
  deadline, the tombstone scan exactly the tombstones older than the grace period, and the
  compaction scan of a disk exactly the live records of its shards below the horizon.
\<close>

theorem index_scans_exact:
  assumes "indexOk si" "d < n"
  shows "set (expiredTTL now si) = {k \<in> liveKeys si. IsExpired now (the (lookup si k))} \<and>
    set (expiredTombstones now grace si) =
      {k. \<exists>e. lookup si k = Some e \<and> IsTombstone e \<and> ieWriteTimestampUs e < now - grace} \<and>
    gcKey ` set (vlogCandidates d n horizon si) =
      {k \<in> liveKeys si. diskForShard (shardFor k) n = d \<and>
         0 < ieDiskOffset (the (lookup si k)) \<and> ieDiskOffset (the (lookup si k)) < horizon}"
proof -
  have sh: "shapeOk si" using assms(1) by (simp add: indexOk_def)
  note sc = scanEntries_iff [OF sh]
  have "set (expiredTTL now si) = {k. \<exists>e. lookup si k = Some e \<and> \<not> IsTombstone e \<and> IsExpired now e}"
    by (force simp: expiredTTL_def sc shardFor_less)
  then have "set (expiredTTL now si) = {k \<in> liveKeys si. IsExpired now (the (lookup si k))}"
    by (simp only: live_Collect)
  moreover have "set (expiredTombstones now grace si) =
      {k. \<exists>e. lookup si k = Some e \<and> IsTombstone e \<and> ieWriteTimestampUs e < now - grace}"
    by (force simp: expiredTombstones_def sc shardFor_less Let_def)
  moreover have "gcKey ` set (vlogCandidates d n horizon si) =
      {k \<in> liveKeys si. diskForShard (shardFor k) n = d \<and>
         0 < ieDiskOffset (the (lookup si k)) \<and> ieDiskOffset (the (lookup si k)) < horizon}"
  proof -
    have "map gcKey (vlogCandidates d n horizon si) =
        map fst (filter (\<lambda>(_, e). \<not> IsTombstone e \<and> ieDiskOffset e > 0 \<and> ieDiskOffset e < horizon)
          (scanEntries (shardsFrom d n) si))"
      by (simp add: vlogCandidates_def case_prod_beta comp_def)
    then have "gcKey ` set (vlogCandidates d n horizon si) =
        set (map fst (filter (\<lambda>(_, e). \<not> IsTombstone e \<and> ieDiskOffset e > 0 \<and> ieDiskOffset e < horizon)
          (scanEntries (shardsFrom d n) si)))"
      by (metis set_map)
    also have "\<dots> = {k. \<exists>e. lookup si k = Some e \<and> \<not> IsTombstone e \<and>
        (diskForShard (shardFor k) n = d \<and> 0 < ieDiskOffset e \<and> ieDiskOffset e < horizon)}"
      unfolding set_fst_filter sc shardsFrom_disk [OF assms(2)] using shardFor_less by blast
    finally show ?thesis by (simp only: live_Collect)
  qed
  ultimately show ?thesis by blast
qed

theorem index_scans_exact_witness:
  "set (expiredTTL 9 (put_entry [1] (exampleEntryIE\<lparr>ieFlags := FlagHasTTL, ieTTLExpiryUs := 8\<rparr>) None newShardedIndex)) = {[1]}"
proof -
  let ?e = "exampleEntryIE\<lparr>ieFlags := FlagHasTTL, ieTTLExpiryUs := 8\<rparr>"
  let ?si = "put_entry [1] ?e None newShardedIndex"
  have e: "\<not> IsTombstone ?e" "IsExpired 9 (?e\<lparr>ieKeyHash := h\<rparr>)" for h
    by (simp_all add: IsTombstone_def IsExpired_def HasTTL_def hasFlag_def FlagHasTTL_def FlagTombstone_def)
  have l: "lookup ?si = [[1] \<mapsto> ?e\<lparr>ieKeyHash := fnv64a [1]\<rparr>]"
    by (auto simp: put_entry_def put_install_view frame newShardedIndex_def newIndexShard_def lookup_def fun_eq_iff)
  have k: "live [[1] \<mapsto> ?e\<lparr>ieKeyHash := fnv64a [1]\<rparr>] = {[1]}" using e(1) by (auto simp: live_def)
  have "indexOk ?si" by (rule put_ok [OF newShardedIndex_ok e(1)])
  with index_scans_exact [of ?si 0 1 9] have
    "set (expiredTTL 9 ?si) = {k \<in> liveKeys ?si. IsExpired 9 (the (lookup ?si k))}" by simp
  then show ?thesis unfolding l k using e(2) by auto
qed

lemma alignBlock_ge: "n \<le> alignBlock n" and alignBlock_dvd: "vlogBlockSize dvd alignBlock n"
  using div_mult_mod_eq [of "n + 4095" 4096] mod_less_divisor [of 4096 "n + 4095"]
  by (auto simp: alignBlock_def vlogBlockSize_def)

lemma fold_max_ge: "(m :: nat) \<le> fold (\<lambda>x acc. if f x > acc then f x else acc) xs m \<and>
    (\<forall>x \<in> set xs. f x \<le> fold (\<lambda>x acc. if f x > acc then f x else acc) xs m)"
proof (induction xs arbitrary: m)
  case (Cons x xs)
  show ?case using Cons.IH [of "if f x > m then f x else m"] by auto
qed simp

lemma fold_min_le: "fold (\<lambda>x acc. if P x \<and> f x < acc then f x else acc) xs m \<le> (m :: nat) \<and>
    (\<forall>x \<in> set xs. P x \<longrightarrow> fold (\<lambda>x acc. if P x \<and> f x < acc then f x else acc) xs m \<le> f x)"
proof (induction xs arbitrary: m)
  case (Cons x xs)
  show ?case using Cons.IH [of "if P x \<and> f x < m then f x else m"] by auto
qed simp

definition extentEnd :: "bytes \<times> IndexEntry \<Rightarrow> nat" where
  "extentEnd p = (if ieDiskOffset (snd p) = 0 then 0
     else recordEnd (ieDiskOffset (snd p)) (ieValueSize (snd p)) (IsPacked (snd p)))"

lemma maxVLogEndOffset_fold:
  "maxVLogEndOffset d n si = fold (\<lambda>p acc. if extentEnd p > acc then extentEnd p else acc)
     (scanEntries (shardsFrom d n) si) 0"
  unfolding maxVLogEndOffset_def
  by (intro fold_cong) (auto simp: extentEnd_def Let_def fun_eq_iff)

lemma minLiveVLogOffset_fold:
  "minLiveVLogOffset d n si = fold (\<lambda>p acc. if (\<not> IsTombstone (snd p) \<and> ieDiskOffset (snd p) > 0) \<and>
       ieDiskOffset (snd p) < acc then ieDiskOffset (snd p) else acc)
     (scanEntries (shardsFrom d n) si) (2 ^ 63 - 1)"
  unfolding minLiveVLogOffset_def
  by (intro fold_cong) (auto simp: fun_eq_iff)

lemma alignBlock_less: "alignBlock n < n + vlogBlockSize"
  by (simp add: alignBlock_def vlogBlockSize_def)

text \<open>Within the offsets a file can have nothing wraps.\<close>

lemma recordEnd_exact:
  assumes "off < 2 ^ 63" "len < 2 ^ 32"
  shows "recordEnd off len packed =
    (if packed then alignBlock (off + (vlogHeaderBytes + len)) else off + alignBlock (vlogHeaderBytes + len))"
  using assms alignBlock_less [of "vlogHeaderBytes + len"]
  by (simp add: recordEnd_def Let_def alignBlock_def vlogHeaderBytes_def vlogBlockSize_def)

lemma recordEnd_ge: "off < 2 ^ 63 \<Longrightarrow> len < 2 ^ 32 \<Longrightarrow> off + vlogHeaderBytes + len \<le> recordEnd off len packed"
  using alignBlock_ge [of "off + (vlogHeaderBytes + len)"] alignBlock_ge [of "vlogHeaderBytes + len"]
  by (simp add: recordEnd_exact)



end
