(* ===== verification/LirsCache.thy ===== *)
theory LirsCache
  imports ShardIndex
begin

text \<open>
  The value cache: \<open>LIRSCache\<close> of \<open>src/storage/cache.go\<close> and its split over shards,
  \<open>src/storage/cache_sharded.go\<close>. Every operation runs under the mutex of its shard.

  Nodes live in the table \<open>cindex\<close> under their key. The lists \<open>S\<close> and \<open>Q\<close> hold the keys of their
  nodes, front first; a node's element handle is not nil exactly when its key is in the list.
  Byte counters are \<open>uint64\<close>: sums and differences wrap.
\<close>

section \<open>State\<close>

record lirsNode =
  nvalue :: bytes
  nsize :: nat
  isLIR :: bool
  resident :: bool
  expiresUs :: int
  priority :: nat

definition smallValueThreshold :: nat where "smallValueThreshold = 256"

definition victimScanWindow :: nat where "victimScanWindow = 16"

record LIRSCache =
  maxBytes :: nat
  lirLimit :: nat
  lirBytes :: nat
  hirBytes :: nat
  S :: "bytes list"
  Q :: "bytes list"
  cindex :: "(bytes \<times> lirsNode) list"
  hitCount :: nat
  missCount :: nat
  evictions :: nat

text \<open>\<open>limit\<close> is the product of the budget with the ratio, a floating point number.\<close>

definition NewLIRSCache :: "nat \<Rightarrow> nat \<Rightarrow> LIRSCache" where
  "NewLIRSCache maxSizeMB limit =
     \<lparr>maxBytes = maxSizeMB * 1024 * 1024, lirLimit = limit, lirBytes = 0, hirBytes = 0, S = [], Q = [],
      cindex = [], hitCount = 0, missCount = 0, evictions = 0\<rparr>"

definition add64 :: "nat \<Rightarrow> nat \<Rightarrow> nat" where
  "add64 a b = (a + b) mod 2 ^ 64"

definition sub64 :: "nat \<Rightarrow> nat \<Rightarrow> nat" where
  "sub64 a b = nat ((int a - int b) mod 2 ^ 64)"

definition addDelta :: "nat \<Rightarrow> int \<Rightarrow> nat" where
  "addDelta base delta =
     (if delta < 0 \<and> nat (- delta) > base then 0 else nat ((int base + delta) mod 2 ^ 64))"

definition nodeOf :: "LIRSCache \<Rightarrow> bytes \<Rightarrow> lirsNode" where
  "nodeOf c k = (case map_of (cindex c) k of
     Some n \<Rightarrow> n
   | None \<Rightarrow> \<lparr>nvalue = [], nsize = 0, isLIR = False, resident = False, expiresUs = 0, priority = 0\<rparr>)"

definition setNode :: "bytes \<Rightarrow> lirsNode \<Rightarrow> LIRSCache \<Rightarrow> LIRSCache" where
  "setNode k n c = c\<lparr>cindex := AList.update k n (cindex c)\<rparr>"

definition dropNode :: "bytes \<Rightarrow> LIRSCache \<Rightarrow> LIRSCache" where
  "dropNode k c = c\<lparr>cindex := AList.delete k (cindex c)\<rparr>"

section \<open>The state machine of the cache\<close>

text \<open>\<open>pruneS\<close> walks from the back of \<open>S\<close>, here the list reversed.\<close>

fun pruneRev :: "bytes list \<Rightarrow> LIRSCache \<Rightarrow> LIRSCache" where
  "pruneRev [] c = c\<lparr>S := []\<rparr>"
| "pruneRev (k # ks) c =
     (if isLIR (nodeOf c k) then c\<lparr>S := rev (k # ks)\<rparr>
      else pruneRev ks (if \<not> resident (nodeOf c k) \<and> k \<notin> set (Q c) then dropNode k c else c))"

definition pruneS :: "LIRSCache \<Rightarrow> LIRSCache" where
  "pruneS c = pruneRev (rev (S c)) c"

definition demoteBottomLIR :: "LIRSCache \<Rightarrow> LIRSCache" where
  "demoteBottomLIR c = (case List.find (\<lambda>k. isLIR (nodeOf c k)) (rev (S c)) of
     None \<Rightarrow> c
   | Some k \<Rightarrow>
       (let n = nodeOf c k;
            c1 = (setNode k (n\<lparr>isLIR := False\<rparr>) c)
              \<lparr>lirBytes := sub64 (lirBytes c) (nsize n), hirBytes := add64 (hirBytes c) (nsize n)\<rparr>
        in if resident n then c1\<lparr>Q := k # Q c1\<rparr> else c1))"

definition access :: "bytes \<Rightarrow> LIRSCache \<Rightarrow> LIRSCache" where
  "access k c =
     (let n = nodeOf c k in
      if isLIR n then pruneS (c\<lparr>S := k # remove1 k (S c)\<rparr>)
      else if k \<in> set (S c) then
        let c1 = (setNode k (n\<lparr>isLIR := True\<rparr>) c)
              \<lparr>S := k # remove1 k (S c), Q := remove1 k (Q c),
               hirBytes := sub64 (hirBytes c) (nsize n), lirBytes := add64 (lirBytes c) (nsize n)\<rparr>
        in pruneS (if lirBytes c1 > lirLimit c1 \<and> length (S c1) > 1 then demoteBottomLIR c1 else c1)
      else
        let c1 = c\<lparr>S := k # S c\<rparr>
        in pruneS (if k \<in> set (Q c1) then c1\<lparr>Q := k # remove1 k (Q c1)\<rparr> else c1))"

definition betterVictim :: "LIRSCache \<Rightarrow> bytes \<Rightarrow> bytes \<Rightarrow> bytes" where
  "betterVictim c best k =
     (if nsize (nodeOf c k) * priority (nodeOf c best) > nsize (nodeOf c best) * priority (nodeOf c k)
      then k else best)"

definition findEvictionVictim :: "LIRSCache \<Rightarrow> bytes option" where
  "findEvictionVictim c = (case rev (Q c) of
     [] \<Rightarrow> None
   | best # rest \<Rightarrow> Some (foldl (betterVictim c) best (take (victimScanWindow - 1) rest)))"

definition evictOne :: "bytes \<Rightarrow> LIRSCache \<Rightarrow> LIRSCache" where
  "evictOne k c =
     (let n = nodeOf c k;
          c1 = c\<lparr>Q := remove1 k (Q c), hirBytes := sub64 (hirBytes c) (nsize n),
                 evictions := evictions c + 1\<rparr>
      in if k \<notin> set (S c1) then dropNode k c1
         else setNode k (n\<lparr>nvalue := [], resident := False\<rparr>) c1)"

lemma foldl_betterVictim_in: "foldl (betterVictim c) b ks \<in> set (b # ks)"
  by (induction ks arbitrary: b) (auto simp: betterVictim_def)

lemma findEvictionVictim_in: "findEvictionVictim c = Some k \<Longrightarrow> k \<in> set (Q c)"
proof -
  assume a: "findEvictionVictim c = Some k"
  then obtain b rest where r: "rev (Q c) = b # rest"
    by (auto simp: findEvictionVictim_def split: list.splits)
  then have "k \<in> set (b # take (victimScanWindow - 1) rest)"
    using a foldl_betterVictim_in by (auto simp: findEvictionVictim_def)
  then have "k \<in> set (rev (Q c))"
    unfolding r by (auto dest: in_set_takeD)
  then show ?thesis by simp
qed

lemma Q_dropNode [simp]: "Q (dropNode k c) = Q c" "Q (setNode k n c) = Q c"
  by (simp_all add: dropNode_def setNode_def)

lemma Q_evictOne [simp]: "Q (evictOne k c) = remove1 k (Q c)"
  by (simp add: evictOne_def Let_def)

function evictHIRIfNeeded :: "LIRSCache \<Rightarrow> LIRSCache" where
  "evictHIRIfNeeded c =
     (if add64 (lirBytes c) (hirBytes c) > maxBytes c \<and> Q c \<noteq> []
      then case findEvictionVictim c of None \<Rightarrow> c | Some k \<Rightarrow> evictHIRIfNeeded (evictOne k c)
      else c)"
  by pat_completeness auto

termination
  by (relation "measure (\<lambda>c. length (Q c))")
    (auto simp: length_remove1 dest!: findEvictionVictim_in)

declare evictHIRIfNeeded.simps [simp del]

definition removeNode :: "bytes \<Rightarrow> LIRSCache \<Rightarrow> LIRSCache" where
  "removeNode k c =
     (let n = nodeOf c k;
          c1 = c\<lparr>S := remove1 k (S c), Q := remove1 k (Q c)\<rparr>;
          c2 = (if resident n
                then if isLIR n then c1\<lparr>lirBytes := sub64 (lirBytes c1) (nsize n)\<rparr>
                     else c1\<lparr>hirBytes := sub64 (hirBytes c1) (nsize n)\<rparr>
                else c1)
      in dropNode k c2)"

section \<open>Operations\<close>

definition cget :: "bytes \<Rightarrow> LIRSCache \<Rightarrow> (bytes \<times> int) option \<times> LIRSCache" where
  "cget k c = (case map_of (cindex c) k of
     None \<Rightarrow> (None, c\<lparr>missCount := missCount c + 1\<rparr>)
   | Some n \<Rightarrow>
       if \<not> resident n then (None, c\<lparr>missCount := missCount c + 1\<rparr>)
       else (Some (nvalue n, expiresUs n), (access k c)\<lparr>hitCount := hitCount (access k c) + 1\<rparr>))"

definition valuePriority :: "nat \<Rightarrow> nat" where
  "valuePriority sz = (if sz \<le> smallValueThreshold then 2 else 1)"

definition PutWithExpiry :: "bytes \<Rightarrow> bytes \<Rightarrow> int \<Rightarrow> LIRSCache \<Rightarrow> LIRSCache" where
  "PutWithExpiry k v expires c =
     (let sz = length v;
          c1 = (case map_of (cindex c) k of
            Some n \<Rightarrow>
              (let n1 = n\<lparr>nvalue := v, nsize := sz, expiresUs := expires\<rparr> in
               if resident n
               then let delta = int sz - int (nsize n);
                        c0 = setNode k n1 c
                    in access k
                         (if isLIR n then c0\<lparr>lirBytes := addDelta (lirBytes c0) delta\<rparr>
                          else c0\<lparr>hirBytes := addDelta (hirBytes c0) delta\<rparr>)
               else let c0 = (setNode k (n1\<lparr>resident := True, priority := valuePriority sz\<rparr>) c)
                          \<lparr>hirBytes := add64 (hirBytes c) sz\<rparr>
                    in c0\<lparr>S := k # remove1 k (S c0),
                          Q := (if k \<in> set (Q c0) then Q c0 else k # Q c0)\<rparr>)
          | None \<Rightarrow>
              (setNode k \<lparr>nvalue = v, nsize = sz, isLIR = False, resident = True,
                          expiresUs = expires, priority = valuePriority sz\<rparr> c)
                \<lparr>S := k # S c, Q := k # Q c, hirBytes := add64 (hirBytes c) sz\<rparr>)
      in evictHIRIfNeeded (pruneS c1))"

definition PutIfPresentWithExpiry :: "bytes \<Rightarrow> bytes \<Rightarrow> int \<Rightarrow> LIRSCache \<Rightarrow> bool \<times> LIRSCache" where
  "PutIfPresentWithExpiry k v expires c = (case map_of (cindex c) k of
     None \<Rightarrow> (False, c)
   | Some n \<Rightarrow>
       if \<not> resident n then (False, c)
       else
         let delta = int (length v) - int (nsize n);
             c0 = setNode k (n\<lparr>nvalue := v, nsize := length v, expiresUs := expires\<rparr>) c;
             c1 = (if isLIR n then c0\<lparr>lirBytes := addDelta (lirBytes c0) delta\<rparr>
                   else c0\<lparr>hirBytes := addDelta (hirBytes c0) delta\<rparr>)
         in (True, evictHIRIfNeeded (pruneS (access k c1))))"

definition Get_value :: "bytes \<Rightarrow> LIRSCache \<Rightarrow> bytes option \<times> LIRSCache" where
  "Get_value k c = (let (r, c1) = cget k c in (map_option fst r, c1))"

definition Put_value :: "bytes \<Rightarrow> bytes \<Rightarrow> LIRSCache \<Rightarrow> LIRSCache" where
  "Put_value k v = PutWithExpiry k v 0"

definition PutIfPresent_value :: "bytes \<Rightarrow> bytes \<Rightarrow> LIRSCache \<Rightarrow> bool \<times> LIRSCache" where
  "PutIfPresent_value k v = PutIfPresentWithExpiry k v 0"

definition Evict :: "bytes \<Rightarrow> LIRSCache \<Rightarrow> LIRSCache" where
  "Evict k c = (if map_of (cindex c) k = None then c else removeNode k c)"

definition Size :: "LIRSCache \<Rightarrow> nat" where
  "Size c = add64 (lirBytes c) (hirBytes c)"

section \<open>The sharded cache\<close>

text \<open>A budget too small to split gives the plain cache: one shard, which every hash selects.\<close>

record shardedLIRSCache =
  cshards :: "LIRSCache list"
  cshift :: nat

definition maxCacheShards :: nat where "maxCacheShards = 256"

definition minBytesPerCacheShard :: nat where "minBytesPerCacheShard = 2 ^ 20"

fun bitsLen64 :: "nat \<Rightarrow> nat" where
  "bitsLen64 n = (if n = 0 then 0 else Suc (bitsLen64 (n div 2)))"

declare bitsLen64.simps [simp del]

definition cacheShardCountFor :: "nat \<Rightarrow> nat" where
  "cacheShardCountFor totalBytes =
     (if totalBytes < minBytesPerCacheShard * 2 then 1
      else let n = totalBytes div minBytesPerCacheShard
        in 2 ^ (bitsLen64 (if n > maxCacheShards then maxCacheShards else n) - 1))"

text \<open>\<open>limit\<close> gives the limit of a cache from its budget in megabytes.\<close>

definition NewShardedLIRSCache :: "nat \<Rightarrow> (nat \<Rightarrow> nat) \<Rightarrow> shardedLIRSCache" where
  "NewShardedLIRSCache maxSizeMB limit =
     (let n = cacheShardCountFor (maxSizeMB * 1024 * 1024) in
      if n \<le> 1 then \<lparr>cshards = [NewLIRSCache maxSizeMB (limit maxSizeMB)], cshift = 64\<rparr>
      else
        let mb = (if maxSizeMB div n = 0 then 1 else maxSizeMB div n)
        in \<lparr>cshards = replicate n (NewLIRSCache mb (limit mb)), cshift = 64 - (bitsLen64 n - 1)\<rparr>)"

definition cacheShard :: "shardedLIRSCache \<Rightarrow> bytes \<Rightarrow> nat" where
  "cacheShard sc key = unat (drop_bit (cshift sc) (fnv64a key))"

definition cshGet :: "bytes \<Rightarrow> shardedLIRSCache \<Rightarrow> (bytes \<times> int) option \<times> shardedLIRSCache" where
  "cshGet key sc =
     (let i = cacheShard sc key; (r, c) = cget key (cshards sc ! i)
      in (r, sc\<lparr>cshards := (cshards sc)[i := c]\<rparr>))"

definition cshPut :: "bytes \<Rightarrow> bytes \<Rightarrow> int \<Rightarrow> shardedLIRSCache \<Rightarrow> shardedLIRSCache" where
  "cshPut key v expires sc =
     (let i = cacheShard sc key
      in sc\<lparr>cshards := (cshards sc)[i := PutWithExpiry key v expires (cshards sc ! i)]\<rparr>)"

definition cshPutIfPresent :: "bytes \<Rightarrow> bytes \<Rightarrow> int \<Rightarrow> shardedLIRSCache \<Rightarrow> bool \<times> shardedLIRSCache" where
  "cshPutIfPresent key v expires sc =
     (let i = cacheShard sc key; (r, c) = PutIfPresentWithExpiry key v expires (cshards sc ! i)
      in (r, sc\<lparr>cshards := (cshards sc)[i := c]\<rparr>))"

definition cshEvict :: "bytes \<Rightarrow> shardedLIRSCache \<Rightarrow> shardedLIRSCache" where
  "cshEvict key sc =
     (let i = cacheShard sc key in sc\<lparr>cshards := (cshards sc)[i := Evict key (cshards sc ! i)]\<rparr>)"

definition cshSize :: "shardedLIRSCache \<Rightarrow> nat" where
  "cshSize sc = foldl (\<lambda>total c. add64 total (Size c)) 0 (cshards sc)"

section \<open>The cache as a partial map\<close>

definition contents :: "LIRSCache \<Rightarrow> bytes \<Rightarrow> (bytes \<times> int) option" where
  "contents c k = (case map_of (cindex c) k of
     None \<Rightarrow> None
   | Some n \<Rightarrow> if resident n then Some (nvalue n, expiresUs n) else None)"

definition bytesHeld :: "LIRSCache \<Rightarrow> nat" where
  "bytesHeld c = sum_list (map (nsize \<circ> snd) (cindex c))"

text \<open>
  The shape of every cache the operations build. \<open>over\<close> bounds the bytes by which a put in
  progress may exceed the budget.
\<close>

definition nodeOk :: "lirsNode \<Rightarrow> bool" where
  "nodeOk n \<longleftrightarrow> \<not> isLIR n \<and> resident n \<and> nsize n = length (nvalue n)"

definition cacheShape :: "LIRSCache \<Rightarrow> bool" where
  "cacheShape c \<longleftrightarrow> S c = [] \<and> lirBytes c = 0 \<and> distinct (map fst (cindex c)) \<and>
     distinct (Q c) \<and> set (Q c) = fst ` set (cindex c) \<and> (\<forall>n \<in> snd ` set (cindex c). nodeOk n) \<and>
     hirBytes c = bytesHeld c"

definition cacheOk :: "LIRSCache \<Rightarrow> bool" where
  "cacheOk c \<longleftrightarrow> cacheShape c \<and> maxBytes c < 2 ^ 63 \<and> hirBytes c \<le> maxBytes c"

section \<open>Every operation keeps the shape\<close>

lemma bytes_delete:
  "distinct (map fst xs) \<Longrightarrow> map_of xs k = Some n \<Longrightarrow>
    sum_list (map (nsize \<circ> snd) (AList.delete k xs)) + nsize n = sum_list (map (nsize \<circ> snd) xs)"
proof (induction xs)
  case (Cons x xs)
  show ?case
  proof (cases "fst x = k")
    case True
    then have "AList.delete k xs = xs"
      using Cons.prems(1) by (auto simp: AList.delete_eq filter_id_conv split_beta)
    with True Cons.prems show ?thesis by (simp add: AList.delete_eq split_beta)
  next
    case False
    with Cons show ?thesis by (simp add: AList.delete_eq split_beta split: if_splits)
  qed
qed simp

lemma bytes_update:
  "distinct (map fst xs) \<Longrightarrow>
    sum_list (map (nsize \<circ> snd) (AList.update k n xs)) + (case map_of xs k of None \<Rightarrow> 0 | Some m \<Rightarrow> nsize m) =
    sum_list (map (nsize \<circ> snd) xs) + nsize n"
proof (induction xs)
  case (Cons x xs)
  obtain k' m where x: "x = (k', m)" by (cases x)
  have "k' \<notin> fst ` set xs" using Cons.prems x by simp
  then have "k' = k \<Longrightarrow> map_of xs k = None" by (auto simp: map_of_eq_None_iff)
  with Cons x show ?case by (auto split: option.splits)
qed simp

lemma nodeOk_of:
  "cacheShape c \<Longrightarrow> map_of (cindex c) k = Some n \<Longrightarrow> nodeOk n \<and> k \<in> set (Q c)"
  unfolding cacheShape_def by (force dest: map_of_SomeD)

lemma inQ_iff: "cacheShape c \<Longrightarrow> k \<in> set (Q c) \<longleftrightarrow> map_of (cindex c) k \<noteq> None"
  by (simp add: cacheShape_def map_of_eq_None_iff)

lemma contents_shape:
  "cacheShape c \<Longrightarrow> contents c k = map_option (\<lambda>n. (nvalue n, expiresUs n)) (map_of (cindex c) k)"
  using nodeOk_of by (auto simp: contents_def nodeOk_def split: option.splits)

lemma nodeOf_Some [simp]: "map_of (cindex c) k = Some n \<Longrightarrow> nodeOf c k = n"
  by (simp add: nodeOf_def)

lemma pruneS_one:
  assumes "S c = [k]" "\<not> isLIR (nodeOf c k)" "resident (nodeOf c k)"
  shows "pruneS c = c\<lparr>S := []\<rparr>"
  using assms by (simp add: pruneS_def)

lemma access_shape:
  assumes "S c = []" "\<not> isLIR (nodeOf c k)" "resident (nodeOf c k)" "k \<in> set (Q c)"
  shows "access k c = c\<lparr>Q := k # remove1 k (Q c)\<rparr>"
proof -
  have "pruneS (c\<lparr>S := [k], Q := k # remove1 k (Q c)\<rparr>) = c\<lparr>S := [k], Q := k # remove1 k (Q c)\<rparr>\<lparr>S := []\<rparr>"
    by (rule pruneS_one) (use assms in \<open>simp_all add: nodeOf_def\<close>)
  moreover have "c\<lparr>S := [], Q := q\<rparr> = c\<lparr>Q := q\<rparr>" for q
    using assms(1) by (cases c) simp
  ultimately show ?thesis
    using assms by (simp add: access_def Let_def)
qed

lemma pruneS_Nil: "S c = [] \<Longrightarrow> pruneS c = c"
  by (cases c) (simp add: pruneS_def)

lemma evictOne_shape:
  assumes "cacheShape c" "hirBytes c < 2 ^ 64" "map_of (cindex c) k = Some n"
  shows "cacheShape (evictOne k c)" "hirBytes (evictOne k c) = hirBytes c - nsize n"
    "maxBytes (evictOne k c) = maxBytes c" "contents (evictOne k c) = (contents c)(k := None)"
    "cindex (evictOne k c) = AList.delete k (cindex c)"
proof -
  have d: "distinct (map fst (cindex c))" using assms(1) by (simp add: cacheShape_def)
  have le: "nsize n \<le> hirBytes c" "bytesHeld (evictOne k c) + nsize n = hirBytes c"
    using bytes_delete [OF d assms(3)] assms(1,3)
    by (auto simp: cacheShape_def bytesHeld_def evictOne_def Let_def dropNode_def)
  show h: "hirBytes (evictOne k c) = hirBytes c - nsize n"
    using assms le(1) by (simp add: evictOne_def Let_def cacheShape_def sub64_def dropNode_def zmod_int of_nat_diff
        flip: of_nat_diff)
  show "maxBytes (evictOne k c) = maxBytes c"
    by (simp add: evictOne_def Let_def dropNode_def setNode_def)
  show i: "cindex (evictOne k c) = AList.delete k (cindex c)"
    using assms(1) by (simp add: evictOne_def Let_def dropNode_def cacheShape_def)
  show "contents (evictOne k c) = (contents c)(k := None)"
    by (rule ext) (simp add: contents_def i delete_conv')
  show "cacheShape (evictOne k c)"
    using assms(1) le(2) h
    by (auto simp: cacheShape_def i evictOne_def Let_def dropNode_def AList.delete_eq bytesHeld_def distinct_map_filter
        nodeOk_def)
qed

lemma evict_stays:
  assumes "cacheShape c" "hirBytes c < 2 ^ 64" "hirBytes c \<le> maxBytes c"
  shows "evictHIRIfNeeded c = c"
  using assms by (simp add: evictHIRIfNeeded.simps [of c] cacheShape_def add64_def)

lemma evict_step:
  assumes "cacheShape c" "hirBytes c < 2 ^ 64" "hirBytes c > maxBytes c"
  obtains k n where "findEvictionVictim c = Some k" "map_of (cindex c) k = Some n"
    "evictHIRIfNeeded c = evictHIRIfNeeded (evictOne k c)"
proof -
  have "cindex c \<noteq> []" using assms by (auto simp: cacheShape_def bytesHeld_def)
  then have q: "Q c \<noteq> []" using assms(1) by (auto simp: cacheShape_def)
  then obtain k where k: "findEvictionVictim c = Some k"
    by (cases "rev (Q c)") (auto simp: findEvictionVictim_def)
  then obtain n where "map_of (cindex c) k = Some n"
    using findEvictionVictim_in inQ_iff [OF assms(1)] by blast
  moreover have "evictHIRIfNeeded c = evictHIRIfNeeded (evictOne k c)"
    using assms q k by (simp add: evictHIRIfNeeded.simps [of c] cacheShape_def add64_def)
  ultimately show ?thesis using k that by blast
qed

lemma evict_ok:
  "cacheShape c \<Longrightarrow> hirBytes c < 2 ^ 64 \<Longrightarrow>
    cacheShape (evictHIRIfNeeded c) \<and> hirBytes (evictHIRIfNeeded c) \<le> maxBytes c \<and>
    maxBytes (evictHIRIfNeeded c) = maxBytes c \<and> contents (evictHIRIfNeeded c) \<subseteq>\<^sub>m contents c"
proof (induction "length (Q c)" arbitrary: c rule: less_induct)
  case less
  show ?case
  proof (cases "hirBytes c \<le> maxBytes c")
    case True
    then show ?thesis using evict_stays [OF less.prems] less.prems by simp
  next
    case False
    then obtain k n where k: "findEvictionVictim c = Some k" "map_of (cindex c) k = Some n"
      "evictHIRIfNeeded c = evictHIRIfNeeded (evictOne k c)"
      using evict_step [OF less.prems] by auto
    note one = evictOne_shape [OF less.prems k(2)]
    have "length (Q (evictOne k c)) < length (Q c)"
      using findEvictionVictim_in [OF k(1)] length_pos_if_in_set [of k "Q c"] by (simp add: length_remove1)
    from less.hyps [OF this one(1)] one(2) less.prems(2)
    have ih: "cacheShape (evictHIRIfNeeded (evictOne k c))" "hirBytes (evictHIRIfNeeded (evictOne k c)) \<le> maxBytes c"
      "maxBytes (evictHIRIfNeeded (evictOne k c)) = maxBytes c"
      "contents (evictHIRIfNeeded (evictOne k c)) \<subseteq>\<^sub>m (contents c)(k := None)"
      by (simp_all add: one(3,4))
    moreover have "(contents c)(k := None) \<subseteq>\<^sub>m contents c"
      by (auto simp: map_le_def)
    ultimately show ?thesis unfolding k(3) by (blast intro: map_le_trans)
  qed
qed

text \<open>What a put leaves before it evicts.\<close>

definition install :: "bytes \<Rightarrow> bytes \<Rightarrow> int \<Rightarrow> LIRSCache \<Rightarrow> LIRSCache" where
  "install k v x c = c
     \<lparr>cindex := AList.update k \<lparr>nvalue = v, nsize = length v, isLIR = False, resident = True, expiresUs = x,
        priority = (case map_of (cindex c) k of Some n \<Rightarrow> priority n | None \<Rightarrow> valuePriority (length v))\<rparr> (cindex c),
      Q := k # remove1 k (Q c),
      hirBytes := hirBytes c + length v - (case map_of (cindex c) k of Some n \<Rightarrow> nsize n | None \<Rightarrow> 0)\<rparr>"

lemma node_le:
  assumes "cacheShape c" "map_of (cindex c) k = Some n"
  shows "nsize n \<le> hirBytes c"
  using bytes_delete [of "cindex c" k n] assms by (simp add: cacheShape_def bytesHeld_def)

lemma install_shape:
  assumes "cacheShape c"
  shows "cacheShape (install k v x c)" "maxBytes (install k v x c) = maxBytes c"
    "contents (install k v x c) = (contents c)(k \<mapsto> (v, x))"
    "hirBytes (install k v x c) \<le> hirBytes c + length v"
proof -
  have d: "distinct (map fst (cindex c))" using assms by (simp add: cacheShape_def)
  let ?n = "\<lparr>nvalue = v, nsize = length v, isLIR = False, resident = True, expiresUs = x,
    priority = (case map_of (cindex c) k of Some n \<Rightarrow> priority n | None \<Rightarrow> valuePriority (length v))\<rparr>"
  let ?xs = "AList.update k ?n (cindex c)"
  have xs: "cindex (install k v x c) = ?xs" "S (install k v x c) = S c" "lirBytes (install k v x c) = lirBytes c"
    "Q (install k v x c) = k # remove1 k (Q c)"
    by (simp_all add: install_def)
  have held: "bytesHeld (install k v x c) = hirBytes (install k v x c)"
  proof (cases "map_of (cindex c) k")
    case None
    then show ?thesis
      using bytes_update [OF d, of k ?n] assms by (simp add: bytesHeld_def install_def cacheShape_def)
  next
    case (Some n)
    then have "sum_list (map (nsize \<circ> snd) ?xs) + nsize n = hirBytes c + length v"
      using bytes_update [OF d, of k ?n] assms by (simp add: bytesHeld_def cacheShape_def)
    then show ?thesis
      using Some by (simp add: bytesHeld_def install_def)
  qed
  have ds: "distinct (map fst ?xs)" by (rule distinct_update [OF d])
  have nodes: "\<forall>n \<in> snd ` set ?xs. nodeOk n"
  proof
    fix m assume "m \<in> snd ` set ?xs"
    then obtain k' where "map_of ?xs k' = Some m" using ds by auto
    then show "nodeOk m"
      using nodeOk_of [OF assms] by (cases "k' = k") (auto simp: update_conv' nodeOk_def)
  qed
  have keys: "fst ` set ?xs = insert k (fst ` set (cindex c))"
    using dom_update [of k ?n "cindex c"] by simp
  have q: "distinct (Q c)" "set (Q c) = fst ` set (cindex c)" "S c = []" "lirBytes c = 0"
    using assms by (simp_all add: cacheShape_def)
  show "cacheShape (install k v x c)"
    unfolding cacheShape_def xs using q ds nodes keys held by (auto simp: set_remove1_eq)
  show "maxBytes (install k v x c) = maxBytes c" "hirBytes (install k v x c) \<le> hirBytes c + length v"
    by (simp_all add: install_def)
  show "contents (install k v x c) = (contents c)(k \<mapsto> (v, x))"
    by (rule ext) (simp add: contents_def install_def update_conv')
qed

lemma install_less:
  assumes "cacheOk c" "length v < 2 ^ 63"
  shows "hirBytes (install k v x c) < 2 ^ 64"
proof -
  have "hirBytes c < 2 ^ 63" using assms(1) by (simp add: cacheOk_def)
  then show ?thesis
    using install_shape(4) [of c k v x] assms by (simp add: cacheOk_def)
qed

lemma addDelta_diff:
  "n \<le> b \<Longrightarrow> b < 2 ^ 63 \<Longrightarrow> m < 2 ^ 63 \<Longrightarrow> addDelta b (int m - int n) = b + m - n"
  by (auto simp: addDelta_def nat_eq_iff of_nat_diff)

lemma setNode_install:
  assumes "cacheOk c" "map_of (cindex c) k = Some n" "length v < 2 ^ 63"
  shows "access k ((setNode k (n\<lparr>nvalue := v, nsize := length v, expiresUs := x\<rparr>) c)
      \<lparr>hirBytes := addDelta (hirBytes c) (int (length v) - int (nsize n))\<rparr>) = install k v x c" (is "access k ?c = _")
proof -
  have sh: "cacheShape c" "hirBytes c < 2 ^ 63" using assms(1) by (simp_all add: cacheOk_def)
  have n: "\<not> isLIR n" "resident n" "k \<in> set (Q c)" using nodeOk_of [OF sh(1) assms(2)] by (simp_all add: nodeOk_def)
  have no: "nodeOf ?c k = n\<lparr>nvalue := v, nsize := length v, expiresUs := x\<rparr>"
    by (simp add: nodeOf_def setNode_def update_conv')
  have d: "addDelta (hirBytes c) (int (length v) - int (nsize n)) = hirBytes c + length v - nsize n"
    using node_le [OF sh(1) assms(2)] sh(2) assms(3) by (rule addDelta_diff)
  have "n\<lparr>nvalue := v, nsize := length v, expiresUs := x\<rparr> =
      \<lparr>nvalue = v, nsize = length v, isLIR = False, resident = True, expiresUs = x, priority = priority n\<rparr>"
    using n by (cases n) simp
  moreover have "access k ?c = ?c\<lparr>Q := k # remove1 k (Q ?c)\<rparr>"
    by (rule access_shape) (use sh n no in \<open>simp_all add: cacheShape_def setNode_def\<close>)
  ultimately show ?thesis
    using assms(2) d by (simp add: install_def setNode_def)
qed

lemma S_install: "cacheShape c \<Longrightarrow> S (install k v x c) = []"
  by (simp add: install_def cacheShape_def)

lemma PutWithExpiry_install:
  assumes "cacheOk c" "length v < 2 ^ 63"
  shows "PutWithExpiry k v x c = evictHIRIfNeeded (install k v x c)"
proof -
  have sh: "cacheShape c" "hirBytes c < 2 ^ 63" using assms(1) by (simp_all add: cacheOk_def)
  show ?thesis
  proof (cases "map_of (cindex c) k")
    case None
    let ?n = "\<lparr>nvalue = v, nsize = length v, isLIR = False, resident = True, expiresUs = x,
      priority = valuePriority (length v)\<rparr>"
    let ?c = "(setNode k ?n c)\<lparr>S := [k], Q := k # Q c, hirBytes := add64 (hirBytes c) (length v)\<rparr>"
    have q: "k \<notin> set (Q c)" using None inQ_iff [OF sh(1)] by simp
    have no: "\<not> isLIR (nodeOf ?c k)" "resident (nodeOf ?c k)"
      by (simp_all add: nodeOf_def setNode_def update_conv')
    have "pruneS ?c = ?c\<lparr>S := []\<rparr>" by (rule pruneS_one [OF _ no]) simp
    also have "?c\<lparr>S := []\<rparr> = install k v x c"
      using sh assms(2) None q
      by (cases c) (simp add: install_def setNode_def add64_def remove1_idem cacheShape_def)
    finally show ?thesis
      using None sh(1) by (simp add: PutWithExpiry_def Let_def cacheShape_def)
  next
    case (Some n)
    then have n: "resident n" "\<not> isLIR n" using nodeOk_of [OF sh(1) Some] by (simp_all add: nodeOk_def)
    have h: "hirBytes (setNode k m c) = hirBytes c" for m by (simp add: setNode_def)
    show ?thesis
      using setNode_install [OF assms(1) Some assms(2), of x] pruneS_Nil [OF S_install [OF sh(1)]] Some n
      by (simp add: PutWithExpiry_def Let_def h)
  qed
qed

lemma PutIfPresent_install:
  assumes "cacheOk c" "length v < 2 ^ 63"
  shows "PutIfPresentWithExpiry k v x c =
    (if contents c k = None then (False, c) else (True, evictHIRIfNeeded (install k v x c)))"
proof -
  have sh: "cacheShape c" using assms(1) by (simp add: cacheOk_def)
  show ?thesis
  proof (cases "map_of (cindex c) k")
    case (Some n)
    then have n: "resident n" "\<not> isLIR n" using nodeOk_of [OF sh Some] by (simp_all add: nodeOk_def)
    have h: "hirBytes (setNode k m c) = hirBytes c" for m by (simp add: setNode_def)
    show ?thesis
      using setNode_install [OF assms(1) Some assms(2), of x] pruneS_Nil [OF S_install [OF sh]] Some n
      by (simp add: PutIfPresentWithExpiry_def Let_def h contents_def)
  qed (simp add: PutIfPresentWithExpiry_def contents_def)
qed

lemma evict_install_ok:
  assumes "cacheOk c" "length v < 2 ^ 63"
  shows "cacheOk (evictHIRIfNeeded (install k v x c))"
    "contents (evictHIRIfNeeded (install k v x c)) \<subseteq>\<^sub>m (contents c)(k \<mapsto> (v, x))"
    "hirBytes c + length v \<le> maxBytes c \<Longrightarrow>
      contents (evictHIRIfNeeded (install k v x c)) = (contents c)(k \<mapsto> (v, x))"
    "maxBytes (evictHIRIfNeeded (install k v x c)) = maxBytes c"
proof -
  have sh: "cacheShape c" using assms(1) by (simp add: cacheOk_def)
  note i = install_shape [OF sh, of k v x] and l = install_less [OF assms, of k x]
  note e = evict_ok [OF i(1) l]
  show "cacheOk (evictHIRIfNeeded (install k v x c))"
    "contents (evictHIRIfNeeded (install k v x c)) \<subseteq>\<^sub>m (contents c)(k \<mapsto> (v, x))"
    "maxBytes (evictHIRIfNeeded (install k v x c)) = maxBytes c"
    using e assms(1) i by (simp_all add: cacheOk_def)
  show "contents (evictHIRIfNeeded (install k v x c)) = (contents c)(k \<mapsto> (v, x))"
    if "hirBytes c + length v \<le> maxBytes c"
    using evict_stays [OF i(1) l] i that by simp
qed

lemma cget_ok:
  assumes "cacheOk c"
  shows "fst (cget k c) = contents c k" "contents (snd (cget k c)) = contents c" "cacheOk (snd (cget k c))"
    "maxBytes (snd (cget k c)) = maxBytes c"
proof -
  have sh: "cacheShape c" using assms by (simp add: cacheOk_def)
  have "access k c = c\<lparr>Q := k # remove1 k (Q c)\<rparr> \<and> k \<in> set (Q c)" if "map_of (cindex c) k = Some n" for n
    using access_shape [of c k] nodeOk_of [OF sh that] sh that by (simp add: nodeOk_def cacheShape_def)
  then show "fst (cget k c) = contents c k" "contents (snd (cget k c)) = contents c" "cacheOk (snd (cget k c))"
    "maxBytes (snd (cget k c)) = maxBytes c"
    using assms
    by (auto simp: cget_def contents_def cacheOk_def cacheShape_def bytesHeld_def insert_absorb
        split: option.splits)
qed

lemma Evict_ok:
  assumes "cacheOk c"
  shows "contents (Evict k c) = (contents c)(k := None)" "cacheOk (Evict k c)" "maxBytes (Evict k c) = maxBytes c"
proof -
  have sh: "cacheShape c" "hirBytes c < 2 ^ 64" using assms by (simp_all add: cacheOk_def)
  have e: "Evict k c = (evictOne k c)\<lparr>evictions := evictions c\<rparr>" if "map_of (cindex c) k = Some n" for n
    using nodeOk_of [OF sh(1) that] sh(1) that
    by (cases c) (simp add: Evict_def removeNode_def evictOne_def Let_def nodeOk_def cacheShape_def dropNode_def)
  show "contents (Evict k c) = (contents c)(k := None)"
    using e evictOne_shape(4) [OF sh]
    by (cases "map_of (cindex c) k") (auto simp: Evict_def contents_def fun_eq_iff)
  have "cacheOk (Evict k c) \<and> maxBytes (Evict k c) = maxBytes c"
  proof (cases "map_of (cindex c) k")
    case (Some n)
    note o = evictOne_shape(1-3) [OF sh Some]
    have "cacheShape ((evictOne k c)\<lparr>evictions := evictions c\<rparr>)"
      using o(1) by (simp add: cacheShape_def bytesHeld_def)
    then show ?thesis
      using e [OF Some] o(2,3) assms by (auto simp: cacheOk_def)
  qed (use assms in \<open>simp add: Evict_def\<close>)
  then show "cacheOk (Evict k c)" "maxBytes (Evict k c) = maxBytes c" by simp_all
qed

lemma Size_ok: "cacheOk c \<Longrightarrow> Size c = hirBytes c"
  by (simp add: Size_def add64_def cacheOk_def cacheShape_def)

section \<open>What the engine relies on\<close>

text \<open>
  A cache holds a part of a map from keys to values and deadlines: an operation of the engine
  may lose entries but never brings one back or changes one.
\<close>

locale value_cache =
  fixes ok :: "'c \<Rightarrow> bool" and held :: "'c \<Rightarrow> 'k \<Rightarrow> 'e option"
    and get :: "'k \<Rightarrow> 'c \<Rightarrow> 'e option \<times> 'c" and put :: "'k \<Rightarrow> 'e \<Rightarrow> 'c \<Rightarrow> 'c"
    and evict :: "'k \<Rightarrow> 'c \<Rightarrow> 'c" and fits :: "'e \<Rightarrow> bool"
  assumes get_held: "ok c \<Longrightarrow> fst (get k c) = held c k \<and> held (snd (get k c)) = held c \<and> ok (snd (get k c))"
    and put_held: "ok c \<Longrightarrow> fits e \<Longrightarrow> held (put k e c) \<subseteq>\<^sub>m (held c)(k \<mapsto> e) \<and> ok (put k e c)"
    and evict_held: "ok c \<Longrightarrow> held (evict k c) = (held c)(k := None) \<and> ok (evict k c)"
begin

text \<open>The entries held agree with a map that is updated along with the cache.\<close>

definition agrees :: "'c \<Rightarrow> ('k \<Rightarrow> 'e option) \<Rightarrow> bool" where
  "agrees c m \<longleftrightarrow> ok c \<and> held c \<subseteq>\<^sub>m m"

lemma agrees_get: "agrees c m \<Longrightarrow> agrees (snd (get k c)) m"
  using get_held by (simp add: agrees_def)

lemma agrees_hit: "agrees c m \<Longrightarrow> fst (get k c) = Some e \<Longrightarrow> m k = Some e"
  using get_held by (force simp: agrees_def map_le_def dom_def)

lemma agrees_put: "agrees c m \<Longrightarrow> fits e \<Longrightarrow> agrees (put k e c) (m(k \<mapsto> e))"
  unfolding agrees_def by (meson map_le_trans map_le_upd put_held)

lemma agrees_fill: "agrees c m \<Longrightarrow> fits e \<Longrightarrow> m k = Some e \<Longrightarrow> agrees (put k e c) m"
  using agrees_put [of c m e k] by (simp add: fun_upd_idem)

lemma agrees_evict: "agrees c m \<Longrightarrow> agrees (evict k c) (m(k := x))"
  using evict_held by (auto simp: agrees_def map_le_def dom_def)

lemma agrees_drop: "agrees c m \<Longrightarrow> held c k = None \<Longrightarrow> agrees c (m(k := x))"
  by (auto simp: agrees_def map_le_def dom_def)

end

definition shardsOk :: "shardedLIRSCache \<Rightarrow> bool" where
  "shardsOk sc \<longleftrightarrow> (\<forall>c \<in> set (cshards sc). cacheOk c) \<and> (\<forall>k. cacheShard sc k < length (cshards sc))"

definition cshContents :: "shardedLIRSCache \<Rightarrow> bytes \<Rightarrow> (bytes \<times> int) option" where
  "cshContents sc k = contents (cshards sc ! cacheShard sc k) k"

text \<open>Replacing the shard of a key; the other keys of the shard keep or lose their entry.\<close>

lemma cacheShard_upd [simp]: "cacheShard (sc\<lparr>cshards := cs\<rparr>) k = cacheShard sc k"
  by (simp add: cacheShard_def)

lemma shard_ok: "shardsOk sc \<Longrightarrow> cacheOk (cshards sc ! cacheShard sc k)"
  by (simp add: shardsOk_def)

lemma shard_update:
  assumes "shardsOk sc" "cacheOk c"
  shows "shardsOk (sc\<lparr>cshards := (cshards sc)[cacheShard sc k := c]\<rparr>)"
    "cshContents (sc\<lparr>cshards := (cshards sc)[cacheShard sc k := c]\<rparr>) k' =
      (if cacheShard sc k' = cacheShard sc k then contents c k' else cshContents sc k')"
  using assms by (auto simp: shardsOk_def cshContents_def dest!: set_update_subset_insert [THEN subsetD])

lemma put_le:
  assumes "cacheOk c" "length (fst e) < 2 ^ 63"
  shows "contents (PutWithExpiry k (fst e) (snd e) c) \<subseteq>\<^sub>m (contents c)(k \<mapsto> e)"
    "cacheOk (PutWithExpiry k (fst e) (snd e) c)"
  using evict_install_ok(1,2) [OF assms, of k "snd e"] by (simp_all add: PutWithExpiry_install [OF assms])

interpretation lirs: value_cache cacheOk contents cget "\<lambda>k e. PutWithExpiry k (fst e) (snd e)" Evict
    "\<lambda>e. length (fst e) < 2 ^ 63"
  by unfold_locales (simp_all add: cget_ok Evict_ok put_le)

interpretation slirs: value_cache shardsOk cshContents cshGet "\<lambda>k e. cshPut k (fst e) (snd e)" cshEvict
    "\<lambda>e. length (fst e) < 2 ^ 63"
proof
  fix sc k assume ok: "shardsOk sc"
  let ?c = "cshards sc ! cacheShard sc k"
  have r: "cshGet k sc = (fst (cget k ?c), sc\<lparr>cshards := (cshards sc)[cacheShard sc k := snd (cget k ?c)]\<rparr>)"
    by (simp add: cshGet_def Let_def split_beta)
  note g = lirs.get_held [OF shard_ok [OF ok, of k], of k]
  note u = shard_update [OF ok, of "snd (cget k ?c)" k]
  show "fst (cshGet k sc) = cshContents sc k \<and> cshContents (snd (cshGet k sc)) = cshContents sc \<and>
      shardsOk (snd (cshGet k sc))"
    using g u by (auto simp: r cshContents_def fun_eq_iff)
  note e = lirs.evict_held [OF shard_ok [OF ok, of k], of k]
  show "cshContents (cshEvict k sc) = (cshContents sc)(k := None) \<and> shardsOk (cshEvict k sc)"
    using e shard_update [OF ok, of "Evict k ?c" k] by (auto simp: cshEvict_def Let_def cshContents_def fun_eq_iff)
next
  fix sc k and e :: "bytes \<times> int" assume ok: "shardsOk sc" and f: "length (fst e) < 2 ^ 63"
  let ?c = "cshards sc ! cacheShard sc k"
  note p = lirs.put_held [OF shard_ok [OF ok, of k] f, of k]
  have le: "contents (PutWithExpiry k (fst e) (snd e) ?c) k' = Some x \<Longrightarrow>
      ((contents ?c)(k \<mapsto> e)) k' = Some x" for k' x
    using p by (force simp: map_le_def dom_def)
  show "cshContents (cshPut k (fst e) (snd e) sc) \<subseteq>\<^sub>m (cshContents sc)(k \<mapsto> e) \<and>
      shardsOk (cshPut k (fst e) (snd e) sc)"
    using p shard_update [OF ok, of "PutWithExpiry k (fst e) (snd e) ?c" k] le
    by (auto simp: cshPut_def Let_def map_le_def cshContents_def dom_def split: if_splits)
qed

section \<open>Reachable caches\<close>

inductive cacheReach :: "LIRSCache \<Rightarrow> bool" where
  new: "mb < 2 ^ 32 \<Longrightarrow> cacheReach (NewLIRSCache mb limit)"
| get: "cacheReach c \<Longrightarrow> cacheReach (snd (cget k c))"
| put: "cacheReach c \<Longrightarrow> length v < 2 ^ 63 \<Longrightarrow> cacheReach (PutWithExpiry k v x c)"
| refresh: "cacheReach c \<Longrightarrow> length v < 2 ^ 63 \<Longrightarrow> cacheReach (snd (PutIfPresentWithExpiry k v x c))"
| evict: "cacheReach c \<Longrightarrow> cacheReach (Evict k c)"

lemma New_ok: "mb < 2 ^ 32 \<Longrightarrow> cacheOk (NewLIRSCache mb limit)"
  by (simp add: NewLIRSCache_def cacheOk_def cacheShape_def bytesHeld_def)

lemma cacheReach_ok: "cacheReach c \<Longrightarrow> cacheOk c"
  by (induction rule: cacheReach.induct)
    (auto simp: New_ok cget_ok PutWithExpiry_install PutIfPresent_install evict_install_ok Evict_ok)

lemma bytesHeld_sum:
  assumes "cacheShape c"
  shows "bytesHeld c = (\<Sum>k \<in> dom (contents c). length (fst (the (contents c k))))"
proof -
  have d: "distinct (map fst (cindex c))" using assms by (simp add: cacheShape_def)
  have dom: "dom (contents c) = fst ` set (cindex c)"
    using contents_shape [OF assms] by (auto simp: dom_def dom_map_of_conv_image_fst [symmetric])
  have "length (fst (the (contents c (fst p)))) = nsize (snd p)" if "p \<in> set (cindex c)" for p
  proof -
    have "map_of (cindex c) (fst p) = Some (snd p)" using that d by simp
    then show ?thesis using nodeOk_of [OF assms] by (simp add: contents_shape [OF assms] nodeOk_def)
  qed
  moreover have "inj_on fst (set (cindex c))" "distinct (cindex c)" using d by (simp_all add: distinct_map)
  ultimately show ?thesis
    unfolding dom by (simp add: sum.reindex bytesHeld_def sum_list_distinct_conv_sum_set)
qed

text \<open>
  C12: through any sequence of operations the cache is a part of the map of
  what was put last under each key and not evicted: a read gives what the map has, a put that
  fits into the budget adds its entry and loses none, any other put may lose entries but
  changes none, a refresh touches only a key that is held, and the bytes held are the sum of
  the lengths of the values and stay within the budget.
\<close>

theorem cache_refines_map:
  assumes "cacheReach c" "length v < 2 ^ 63"
  shows "fst (cget k c) = contents c k \<and> contents (snd (cget k c)) = contents c \<and>
    contents (PutWithExpiry k v x c) \<subseteq>\<^sub>m (contents c)(k \<mapsto> (v, x)) \<and>
    (Size c + length v \<le> maxBytes c \<longrightarrow> contents (PutWithExpiry k v x c) = (contents c)(k \<mapsto> (v, x))) \<and>
    (fst (PutIfPresentWithExpiry k v x c) \<longleftrightarrow> contents c k \<noteq> None) \<and>
    contents (snd (PutIfPresentWithExpiry k v x c)) \<subseteq>\<^sub>m
      (if contents c k = None then contents c else (contents c)(k \<mapsto> (v, x))) \<and>
    contents (Evict k c) = (contents c)(k := None) \<and>
    Size c \<le> maxBytes c \<and> Size c = (\<Sum>k \<in> dom (contents c). length (fst (the (contents c k))))"
proof -
  have ok: "cacheOk c" by (rule cacheReach_ok [OF assms(1)])
  note i = evict_install_ok [OF ok assms(2), of k x]
  have "fst (cget k c) = contents c k \<and> contents (snd (cget k c)) = contents c"
    by (simp add: cget_ok [OF ok])
  moreover have "contents (PutWithExpiry k v x c) \<subseteq>\<^sub>m (contents c)(k \<mapsto> (v, x)) \<and>
      (Size c + length v \<le> maxBytes c \<longrightarrow> contents (PutWithExpiry k v x c) = (contents c)(k \<mapsto> (v, x)))"
    using i(2,3) by (simp add: PutWithExpiry_install [OF ok assms(2)] Size_ok [OF ok])
  moreover have "(fst (PutIfPresentWithExpiry k v x c) \<longleftrightarrow> contents c k \<noteq> None) \<and>
      contents (snd (PutIfPresentWithExpiry k v x c)) \<subseteq>\<^sub>m
        (if contents c k = None then contents c else (contents c)(k \<mapsto> (v, x)))"
    using i(2) by (simp add: PutIfPresent_install [OF ok assms(2)])
  moreover have "contents (Evict k c) = (contents c)(k := None)"
    by (rule Evict_ok(1) [OF ok])
  moreover have "Size c \<le> maxBytes c"
    using ok by (simp add: Size_ok) (simp add: cacheOk_def)
  moreover have "Size c = (\<Sum>k \<in> dom (contents c). length (fst (the (contents c k))))"
    using bytesHeld_sum ok by (simp add: Size_ok) (simp add: cacheOk_def cacheShape_def)
  ultimately show ?thesis by blast
qed

theorem cache_refines_map_witness:
  "contents (PutWithExpiry [1] [7, 8] 5 (NewLIRSCache 1 0)) = [[1] \<mapsto> ([7, 8], 5)]"
proof -
  have "contents (NewLIRSCache 1 0) = Map.empty" "Size (NewLIRSCache 1 0) = 0" "maxBytes (NewLIRSCache 1 0) = 1048576"
    by (simp_all add: NewLIRSCache_def contents_def Size_def add64_def fun_eq_iff)
  then show ?thesis
    using cache_refines_map [OF cacheReach.new [of 1 0], of "[7, 8]" "[1]" 5] by simp
qed

section \<open>Scans\<close>

text \<open>Values of one length, with the priority of that length.\<close>

definition uniform :: "nat \<Rightarrow> LIRSCache \<Rightarrow> bool" where
  "uniform s c \<longleftrightarrow> (\<forall>n \<in> snd ` set (cindex c). nsize n = s \<and> priority n = valuePriority s)"

lemma uniform_bytes:
  assumes "cacheShape c" "uniform s c"
  shows "hirBytes c = s * length (Q c)"
proof -
  have "length (Q c) = length (cindex c)"
    using assms(1) distinct_card [of "Q c"] distinct_card [of "map fst (cindex c)"] by (simp add: cacheShape_def)
  moreover have "map (nsize \<circ> snd) (cindex c) = replicate (length (cindex c)) s"
    using assms(2) by (intro replicate_eqI) (auto simp: uniform_def)
  ultimately show ?thesis
    using assms(1) by (simp add: cacheShape_def bytesHeld_def sum_list_replicate)
qed

lemma uniform_victim:
  assumes "cacheShape c" "uniform s c" "Q c \<noteq> []"
  shows "findEvictionVictim c = Some (last (Q c))"
proof -
  have n: "nsize (nodeOf c k) = s" "priority (nodeOf c k) = valuePriority s" if k: "k \<in> set (Q c)" for k
  proof -
    obtain n where "map_of (cindex c) k = Some n" using inQ_iff [OF assms(1)] k by auto
    then have "nodeOf c k = n" "n \<in> snd ` set (cindex c)" by (force dest: map_of_SomeD)+
    then show "nsize (nodeOf c k) = s" "priority (nodeOf c k) = valuePriority s"
      using assms(2) unfolding uniform_def by blast+
  qed
  have f: "foldl (betterVictim c) b ks = b" if "set (b # ks) \<subseteq> set (Q c)" for b ks
    using that by (induction ks) (auto simp: betterVictim_def n)
  obtain b rest where r: "rev (Q c) = b # rest" using assms(3) by (cases "rev (Q c)") auto
  then have "set (b # rest) = set (Q c)" by (metis set_rev)
  then have "set (b # take (victimScanWindow - 1) rest) \<subseteq> set (Q c)"
    using set_take_subset [of "victimScanWindow - 1" rest] by auto
  moreover have "last (Q c) = b" using hd_rev [of "Q c"] r by simp
  ultimately show ?thesis using r f by (simp add: findEvictionVictim_def)
qed

lemma update_new: "map_of xs k = None \<Longrightarrow> AList.update k n xs = xs @ [(k, n)]"
  by (induction xs) auto

lemma cget_uniform:
  assumes "uniform s c" "cacheOk c"
  shows "uniform s (snd (cget k c))"
proof -
  have sh: "cacheShape c" using assms(2) by (simp add: cacheOk_def)
  have "access k c = c\<lparr>Q := k # remove1 k (Q c)\<rparr>" if "map_of (cindex c) k = Some n" for n
    using access_shape [of c k] nodeOk_of [OF sh that] sh that by (simp add: nodeOk_def cacheShape_def)
  then show ?thesis
    using assms(1) by (auto simp: cget_def uniform_def split: option.splits)
qed

lemma remove1_last: "distinct xs \<Longrightarrow> xs \<noteq> [] \<Longrightarrow> remove1 (last xs) xs = butlast xs"
  by (induction xs) auto

lemma put_uniform:
  assumes "cacheOk c" "uniform s c" "0 < s" "length v = s" "s < 2 ^ 63" "contents c k = None"
  shows "Q (PutWithExpiry k v x c) = take (maxBytes c div s) (k # Q c)" "uniform s (PutWithExpiry k v x c)"
    "cacheOk (PutWithExpiry k v x c)" "maxBytes (PutWithExpiry k v x c) = maxBytes c"
proof -
  have sh: "cacheShape c" using assms(1) by (simp add: cacheOk_def)
  have k: "map_of (cindex c) k = None" using assms(6) contents_shape [OF sh] by simp
  then have q: "k \<notin> set (Q c)" using inQ_iff [OF sh] by simp
  let ?i = "install k v x c"
  have v: "length v < 2 ^ 63" using assms by simp
  note i = install_shape [OF sh, of k v x] and l = install_less [OF assms(1) v, of k x]
  have iu: "uniform s ?i" and iq: "Q ?i = k # Q c"
    using assms(2,4) k q by (auto simp: uniform_def install_def remove1_idem update_new)
  have b: "hirBytes ?i = s * Suc (length (Q c))"
    using uniform_bytes [OF i(1) iu] iq by simp
  show ok: "cacheOk (PutWithExpiry k v x c)" "maxBytes (PutWithExpiry k v x c) = maxBytes c"
    using evict_install_ok(1,4) [OF assms(1) v] by (simp_all add: PutWithExpiry_install [OF assms(1) v])
  have "s * length (Q c) \<le> maxBytes c"
    using uniform_bytes [OF sh assms(2)] assms(1) by (simp add: cacheOk_def)
  then have len: "length (Q c) \<le> maxBytes c div s"
    using assms(3) by (simp add: less_eq_div_iff_mult_less_eq mult.commute)
  have "Q (evictHIRIfNeeded ?i) = take (maxBytes c div s) (k # Q c) \<and> uniform s (evictHIRIfNeeded ?i)"
  proof (cases "Suc (length (Q c)) \<le> maxBytes c div s")
    case True
    then have "s * Suc (length (Q c)) \<le> maxBytes c"
      using assms(3) by (simp only: less_eq_div_iff_mult_less_eq mult.commute)
    then have "evictHIRIfNeeded ?i = ?i"
      using evict_stays [OF i(1) l] b i(2) by simp
    then show ?thesis using iu iq True by simp
  next
    case False
    then have "length (Q c) = maxBytes c div s" using len by simp
    moreover from False have "s * Suc (length (Q c)) > maxBytes c"
      using assms(3) by (simp only: less_eq_div_iff_mult_less_eq mult.commute not_le)
    then obtain k' n where e: "findEvictionVictim ?i = Some k'" "map_of (cindex ?i) k' = Some n"
      "evictHIRIfNeeded ?i = evictHIRIfNeeded (evictOne k' ?i)"
      using evict_step [OF i(1) l] b i(2) by metis
    have k': "k' = last (k # Q c)" using uniform_victim [OF i(1) iu] e(1) iq by simp
    note o = evictOne_shape [OF i(1) l e(2)]
    have ou: "uniform s (evictOne k' ?i)"
      using iu by (auto simp: uniform_def o(5) AList.delete_eq)
    have oq: "Q (evictOne k' ?i) = butlast (k # Q c)"
      using k' iq remove1_last [of "k # Q c"] i(1) by (simp add: cacheShape_def)
    have "hirBytes (evictOne k' ?i) \<le> maxBytes (evictOne k' ?i)"
      using uniform_bytes [OF o(1) ou] oq \<open>s * length (Q c) \<le> maxBytes c\<close> by (simp add: o(3) i(2))
    moreover have "hirBytes (evictOne k' ?i) < 2 ^ 64" using o(2) l by simp
    ultimately show ?thesis
      using e(3) evict_stays [OF o(1)] ou oq by (simp add: butlast_conv_take del: butlast.simps)
  qed
  then show "Q (PutWithExpiry k v x c) = take (maxBytes c div s) (k # Q c)" "uniform s (PutWithExpiry k v x c)"
    by (simp_all add: PutWithExpiry_install [OF assms(1) v])
qed

lemma scan_uniform:
  assumes "0 < s" "length v = s" "s < 2 ^ 63" "cacheOk c" "uniform s c" "distinct ks" "set ks \<inter> set (Q c) = {}"
  shows "cacheOk (fold (\<lambda>k. PutWithExpiry k v x) ks c) \<and>
    Q (fold (\<lambda>k. PutWithExpiry k v x) ks c) = take (maxBytes c div s) (rev ks @ Q c)"
  using assms(4-)
proof (induction ks arbitrary: c)
  case Nil
  then have "s * length (Q c) \<le> maxBytes c"
    using uniform_bytes [of c s] by (simp add: cacheOk_def)
  then have "length (Q c) \<le> maxBytes c div s"
    using assms(1) by (simp add: less_eq_div_iff_mult_less_eq mult.commute)
  with Nil show ?case by simp
next
  case (Cons k ks)
  have "contents c k = None"
    using Cons.prems inQ_iff [of c k] contents_shape [of c k] by (simp add: cacheOk_def)
  note p = put_uniform [OF Cons.prems(1,2) assms(1-3) this, of x]
  have "set ks \<inter> set (Q (PutWithExpiry k v x c)) = {}"
    using Cons.prems(3,4) set_take_subset [of "maxBytes c div s" "k # Q c"] unfolding p(1) by auto
  from Cons.IH [OF p(3,2) _ this] Cons.prems(3) p(1,4) show ?case
    by (simp add: min_def)
qed

text \<open>
  C36: in every cache the operations can build the recency stack is empty
  and no block is in the LIR set: a block enters the stack with the set empty, is pruned from it
  at once, and only a block in the stack can join the set. When all values in such a cache have
  one length, writing as many fresh keys with values of that length as fit evicts every key,
  however often it was read. (With values of several lengths the eviction prefers large ones,
  and a small value may survive.)
\<close>

theorem scan_evicts_hot_keys:
  assumes "cacheReach c"
  shows "S c = [] \<and> lirBytes c = 0 \<and> (\<forall>k n. map_of (cindex c) k = Some n \<longrightarrow> \<not> isLIR n) \<and>
    (\<forall>s v ks. uniform s c \<and> 0 < s \<and> length v = s \<and> s < 2 ^ 63 \<and> distinct ks \<and>
       (\<forall>k \<in> set ks. contents c k = None) \<and> maxBytes c div s \<le> length ks \<longrightarrow>
       (\<forall>k \<in> dom (contents c). contents (fold (\<lambda>k. PutWithExpiry k v x) ks c) k = None))"
proof -
  have ok: "cacheOk c" by (rule cacheReach_ok [OF assms])
  then have sh: "cacheShape c" by (simp add: cacheOk_def)
  have "contents (fold (\<lambda>k. PutWithExpiry k v x) ks c) k = None"
    if a: "uniform s c" "0 < s" "length v = s" "s < 2 ^ 63" "distinct ks" "\<forall>k \<in> set ks. contents c k = None"
      "maxBytes c div s \<le> length ks" and that: "k \<in> dom (contents c)" for s v ks k
  proof -
    have "set ks \<inter> set (Q c) = {}"
      using a(6) by (auto simp: inQ_iff [OF sh] contents_shape [OF sh])
    note sc = scan_uniform [OF a(2-4) ok a(1,5) this, of x]
    have "k \<notin> set ks" using a(6) that by auto
    moreover have "set (Q (fold (\<lambda>k. PutWithExpiry k v x) ks c)) \<subseteq> set ks"
      using sc a(7) by (auto dest: in_set_takeD)
    ultimately have "k \<notin> set (Q (fold (\<lambda>k. PutWithExpiry k v x) ks c))" by blast
    moreover have "cacheShape (fold (\<lambda>k. PutWithExpiry k v x) ks c)"
      using sc by (simp add: cacheOk_def)
    ultimately show ?thesis
      using inQ_iff contents_shape by simp
  qed
  moreover have "S c = [] \<and> lirBytes c = 0 \<and> (\<forall>k n. map_of (cindex c) k = Some n \<longrightarrow> \<not> isLIR n)"
    using sh nodeOk_of [OF sh] by (auto simp: cacheShape_def nodeOk_def)
  ultimately show ?thesis by blast
qed

text \<open>A key read twice, in a cache of two megabytes, and two more values of half that size.\<close>

theorem scan_evicts_hot_keys_witness:
  "\<exists>c v. cacheReach c \<and> contents c [1] \<noteq> None \<and> S c = [] \<and>
    contents (fold (\<lambda>k. PutWithExpiry k v 0) [[2], [3]] c) [1] = None"
proof -
  obtain v :: bytes where v: "length v = 1048576" by (rule that [of "replicate 1048576 0"]) simp
  let ?put = "PutWithExpiry [1] v 0 (NewLIRSCache 2 0)"
  let ?c = "snd (cget [1] (snd (cget [1] ?put)))"
  have r: "cacheReach ?put" by (intro cacheReach.put cacheReach.new) (simp_all add: v)
  have n: "contents (NewLIRSCache 2 0) = Map.empty" "uniform 1048576 (NewLIRSCache 2 0)"
    "maxBytes (NewLIRSCache 2 0) = 2097152" "hirBytes (NewLIRSCache 2 0) = 0"
    by (simp_all add: NewLIRSCache_def contents_def uniform_def fun_eq_iff)
  have ok: "cacheOk (NewLIRSCache 2 0)" by (rule New_ok) simp
  have u: "uniform 1048576 ?put" "maxBytes ?put = 2097152"
    using put_uniform [OF ok n(2), of v "[1]" 0] n v by simp_all
  have p: "contents ?put = [[1] \<mapsto> (v, 0)]"
    using evict_install_ok(3) [OF ok, of v "[1]" 0] n v PutWithExpiry_install [OF ok, of v "[1]" 0] by simp
  have ok1: "cacheOk ?put" by (rule cacheReach_ok [OF r])
  note g = cget_ok [OF ok1, of "[1]"] and g' = cget_ok [OF cget_ok(3) [OF ok1, of "[1]"], of "[1]"]
  have c: "contents ?c = [[1] \<mapsto> (v, 0)]" "maxBytes ?c = 2097152" "cacheReach ?c"
    using g g' u(2) p r by (simp_all add: cacheReach.get)
  have uc: "uniform 1048576 ?c"
    by (intro cget_uniform u(1) ok1 g(3))
  note sc = scan_evicts_hot_keys [OF c(3), of 0]
  have "contents (fold (\<lambda>k. PutWithExpiry k v 0) [[2], [3]] ?c) [1] = None"
    by (rule sc [THEN conjunct2, THEN conjunct2, THEN conjunct2, rule_format, of 1048576])
      (use uc c v in simp_all)
  then show ?thesis using sc c by (intro exI [of _ ?c] exI [of _ v]) simp
qed

end
