(* ===== verification/GoText.thy ===== *)
theory GoText
  imports Prelude
begin

text \<open>
  The pieces of Go's \<open>strconv\<close> and \<open>strings\<close> packages that the text encodings of the storage
  engine use, on byte strings: formatting and parsing of integers, splitting at a separator,
  trimming line ends.
\<close>

section \<open>Integers\<close>

definition digitByte :: "nat \<Rightarrow> byte" where
  "digitByte d = of_nat (if d < 10 then 48 + d else 87 + d)"

definition digitVal :: "byte \<Rightarrow> nat option" where
  "digitVal b = (let c = unat b in
     if 48 \<le> c \<and> c \<le> 57 then Some (c - 48)
     else if 97 \<le> c \<and> c \<le> 122 then Some (c - 87)
     else if 65 \<le> c \<and> c \<le> 90 then Some (c - 55)
     else None)"

text \<open>\<open>strconv.AppendUint\<close>: digits in base \<open>b\<close>, most significant first.\<close>

function formatUint :: "nat \<Rightarrow> nat \<Rightarrow> bytes" where
  "formatUint b n =
     (if b < 2 \<or> n < b then [digitByte n]
      else formatUint b (n div b) @ [digitByte (n mod b)])"
  by pat_completeness auto
termination
  by (relation "measure snd") auto

declare formatUint.simps [simp del]

definition formatInt :: "int \<Rightarrow> bytes" where
  "formatInt i = (if i < 0 then 45 # formatUint 10 (nat (- i)) else formatUint 10 (nat i))"

fun digitsVal :: "nat \<Rightarrow> bytes \<Rightarrow> nat \<Rightarrow> nat option" where
  "digitsVal b [] acc = Some acc"
| "digitsVal b (c # cs) acc = (case digitVal c of
     None \<Rightarrow> None
   | Some d \<Rightarrow> if d < b then digitsVal b cs (acc * b + d) else None)"

text \<open>\<open>strconv.ParseUint\<close>: no sign, at least one digit, the value within \<open>bits\<close> bits.\<close>

definition parseUint :: "nat \<Rightarrow> nat \<Rightarrow> bytes \<Rightarrow> nat option" where
  "parseUint b bits s =
     (if s = [] then None
      else case digitsVal b s 0 of None \<Rightarrow> None | Some n \<Rightarrow> if n < 2 ^ bits then Some n else None)"

text \<open>\<open>strconv.ParseInt(s, 10, 64)\<close>.\<close>

definition parseInt :: "bytes \<Rightarrow> int option" where
  "parseInt s =
     (if s = [] then None
      else let neg = (hd s = 45); digits = (if hd s = 45 \<or> hd s = 43 then tl s else s)
        in case parseUint 10 64 digits of
             None \<Rightarrow> None
           | Some n \<Rightarrow>
               if \<not> neg \<and> n \<ge> 2 ^ 63 then None
               else if neg \<and> n > 2 ^ 63 then None
               else Some (if neg then - int n else int n))"

lemma unat_digitByte: "d < 36 \<Longrightarrow> unat (digitByte d) = (if d < 10 then 48 + d else 87 + d)"
  by (simp add: digitByte_def unat_of_nat take_bit_nat_eq_self_iff)

lemma digitVal_digitByte [simp]: "d < 36 \<Longrightarrow> digitVal (digitByte d) = Some d"
  by (simp add: digitVal_def Let_def unat_digitByte)

lemma digitsVal_append:
  "digitsVal b (xs @ ys) acc = (case digitsVal b xs acc of None \<Rightarrow> None | Some a \<Rightarrow> digitsVal b ys a)"
  by (induction xs arbitrary: acc) (auto split: option.splits)

lemma digitsVal_format:
  assumes "2 \<le> b" "b \<le> 36"
  shows "digitsVal b (formatUint b n) 0 = Some n"
proof (induction n rule: less_induct)
  case (less n)
  show ?case
  proof (cases "n < b")
    case True
    then show ?thesis
      using assms by (simp add: formatUint.simps [of b n])
  next
    case False
    then have "n div b < n"
      using assms by simp
    then have "digitsVal b (formatUint b (n div b)) 0 = Some (n div b)"
      by (rule less)
    moreover have "n mod b < b" "n mod b < 36"
      using assms mod_less_divisor [of b n] by linarith+
    ultimately show ?thesis
      using False assms by (simp add: formatUint.simps [of b n] digitsVal_append)
  qed
qed

lemma formatUint_neq_Nil [simp]: "formatUint b n \<noteq> []"
  by (simp add: formatUint.simps [of b n])

lemma parse_formatUint:
  "2 \<le> b \<Longrightarrow> b \<le> 36 \<Longrightarrow> n < 2 ^ bits \<Longrightarrow> parseUint b bits (formatUint b n) = Some n"
  by (simp add: parseUint_def digitsVal_format)

lemma formatUint_digits:
  assumes "2 \<le> b" "b \<le> 36"
  shows "\<forall>c \<in> set (formatUint b n). 48 \<le> unat c \<and> unat c \<le> 57 \<or> 97 \<le> unat c \<and> unat c \<le> 122"
proof (induction n rule: less_induct)
  case (less n)
  have d: "d < 36 \<Longrightarrow> 48 \<le> unat (digitByte d) \<and> unat (digitByte d) \<le> 57 \<or>
      97 \<le> unat (digitByte d) \<and> unat (digitByte d) \<le> 122" for d
    by (simp add: unat_digitByte)
  show ?case
  proof (cases "n < b")
    case True
    then show ?thesis
      using d [of n] assms by (simp add: formatUint.simps [of b n])
  next
    case False
    then have "n div b < n" "n mod b < 36"
      using assms mod_less_divisor [of b n] by (simp, linarith)
    then show ?thesis
      using False less [of "n div b"] d [of "n mod b"] assms
      by (auto simp: formatUint.simps [of b n])
  qed
qed

text \<open>Bytes a formatted number never contains: the separators of the text encodings.\<close>

lemma formatUint_clean:
  assumes "2 \<le> b" "b \<le> 36" "c \<in> set (formatUint b n)"
  shows "c \<noteq> 124" "c \<noteq> 10" "c \<noteq> 13" "c \<noteq> 45" "c \<noteq> 43" "c \<noteq> 177"
  using formatUint_digits [OF assms(1,2), of n] assms(3) by auto

lemma formatInt_clean:
  assumes "c \<in> set (formatInt i)"
  shows "c \<noteq> 124" "c \<noteq> 10" "c \<noteq> 13" "c \<noteq> 177"
  using assms formatUint_clean [of 10 c] by (auto simp: formatInt_def split: if_splits)

lemma formatInt_neq_Nil [simp]: "formatInt i \<noteq> []"
  by (simp add: formatInt_def)

text \<open>The values an \<open>int64\<close> holds.\<close>

definition inInt64 :: "int \<Rightarrow> bool" where
  "inInt64 i \<longleftrightarrow> - (2 ^ 63) \<le> i \<and> i < 2 ^ 63"

lemma parse_formatInt: "inInt64 i \<Longrightarrow> parseInt (formatInt i) = Some i"
proof -
  assume r: "inInt64 i"
  show ?thesis
  proof (cases "i < 0")
    case True
    then have "nat (- i) < 2 ^ 64" "\<not> nat (- i) > 2 ^ 63"
      using r by (simp_all add: inInt64_def nat_le_iff not_less)
    then show ?thesis
      using True by (simp add: parseInt_def formatInt_def parse_formatUint)
  next
    case False
    then have "nat i < 2 ^ 64" "\<not> nat i \<ge> 2 ^ 63"
      using r by (simp_all add: inInt64_def nat_less_iff not_le)
    moreover have "hd (formatUint 10 (nat i)) \<noteq> 45" "hd (formatUint 10 (nat i)) \<noteq> 43"
      using formatUint_clean(4,5) [of 10 "hd (formatUint 10 (nat i))" "nat i"] by simp_all
    ultimately show ?thesis
      using False by (simp add: parseInt_def formatInt_def parse_formatUint)
  qed
qed

section \<open>Strings\<close>

text \<open>\<open>strings.SplitN(s, sep, n)\<close> for a one-byte separator: at most \<open>n\<close> parts.\<close>

fun splitN :: "byte \<Rightarrow> nat \<Rightarrow> bytes \<Rightarrow> bytes list" where
  "splitN sep 0 s = []"
| "splitN sep (Suc 0) s = [s]"
| "splitN sep (Suc (Suc n)) s =
     (if sep \<in> set s
      then takeWhile (\<lambda>c. c \<noteq> sep) s # splitN sep (Suc n) (tl (dropWhile (\<lambda>c. c \<noteq> sep) s))
      else [s])"

fun joinWith :: "byte \<Rightarrow> bytes list \<Rightarrow> bytes" where
  "joinWith sep [] = []"
| "joinWith sep [p] = p"
| "joinWith sep (p # q # ps) = p @ sep # joinWith sep (q # ps)"

lemma splitN_join:
  "parts \<noteq> [] \<Longrightarrow> length parts \<le> n \<Longrightarrow> \<forall>p \<in> set parts. sep \<notin> set p \<Longrightarrow> splitN sep n (joinWith sep parts) = parts"
proof (induction sep parts arbitrary: n rule: joinWith.induct)
  case (2 sep p)
  then obtain m where "n = Suc m" by (cases n) auto
  then show ?case using 2 by (cases m) auto
next
  case (3 sep p q ps)
  then obtain m where n: "n = Suc (Suc m)"
    by (cases n; cases "n - 1") auto
  have p: "takeWhile (\<lambda>c. c \<noteq> sep) (p @ sep # s) = p" "dropWhile (\<lambda>c. c \<noteq> sep) (p @ sep # s) = sep # s" for s
    using 3(4) by (auto simp: takeWhile_tail dropWhile_append3 intro!: takeWhile_append2)
  show ?case
    using 3 n by (simp add: p)
qed simp

text \<open>\<open>strings.TrimRight(s, "\r\n")\<close>.\<close>

definition trimLine :: "bytes \<Rightarrow> bytes" where
  "trimLine s = rev (dropWhile (\<lambda>c. c = 10 \<or> c = 13) (rev s))"

lemma trimLine_newline:
  "s \<noteq> [] \<Longrightarrow> last s \<noteq> 10 \<Longrightarrow> last s \<noteq> 13 \<Longrightarrow> trimLine (s @ [10]) = s"
  by (cases s rule: rev_cases) (simp_all add: trimLine_def)

text \<open>
  \<open>bufio.Reader.ReadString('\n')\<close>: the bytes up to and including the first newline, and the
  rest; \<open>None\<close> when there is none.
\<close>

definition readLine :: "bytes \<Rightarrow> (bytes \<times> bytes) option" where
  "readLine s =
     (if 10 \<in> set s
      then Some (takeWhile (\<lambda>c. c \<noteq> 10) s @ [10], tl (dropWhile (\<lambda>c. c \<noteq> 10) s)) else None)"

lemma readLine_line: "10 \<notin> set l \<Longrightarrow> readLine (l @ 10 # s) = Some (l @ [10], s)"
proof -
  assume "10 \<notin> set l"
  then have "takeWhile (\<lambda>c. c \<noteq> 10) (l @ 10 # s) = l" "dropWhile (\<lambda>c. c \<noteq> 10) (l @ 10 # s) = 10 # s"
    by (auto simp: takeWhile_tail dropWhile_append intro!: takeWhile_append2)
  then show ?thesis by (simp add: readLine_def)
qed

lemma readLine_length: "readLine s = Some (l, rest) \<Longrightarrow> length rest + length l = length s \<and> l \<noteq> []"
proof -
  assume "readLine s = Some (l, rest)"
  then have n: "10 \<in> set s" and l: "l = takeWhile (\<lambda>c. c \<noteq> 10) s @ [10]"
    and r: "rest = tl (dropWhile (\<lambda>c. c \<noteq> 10) s)"
    by (auto simp: readLine_def split: if_splits)
  have "dropWhile (\<lambda>c. c \<noteq> 10) s \<noteq> []"
    using n by (simp add: dropWhile_eq_Nil_conv)
  then show ?thesis
    using l r arg_cong [OF takeWhile_dropWhile_id [of "\<lambda>c. c \<noteq> 10" s], of length]
    by (cases "dropWhile (\<lambda>c. c \<noteq> 10) s") simp_all
qed

lemma readLine_shorter: "readLine s = Some (l, rest) \<Longrightarrow> length rest < length s"
  using readLine_length [of s l rest] by (cases l) auto

text \<open>\<open>int64\<close> values in \<open>uint64\<close> fields.\<close>

definition toU64 :: "int \<Rightarrow> nat" where
  "toU64 i = nat (i mod 2 ^ 64)"

definition toI64 :: "nat \<Rightarrow> int" where
  "toI64 n = (if n < 2 ^ 63 then int n else int n - 2 ^ 64)"

lemma toU64_less: "toU64 i < 2 ^ 64"
  by (simp add: toU64_def nat_less_iff)

lemma toI64_toU64 [simp]: "inInt64 i \<Longrightarrow> toI64 (toU64 i) = i"
proof -
  assume "inInt64 i"
  then show ?thesis
  proof (cases "i < 0")
    case True
    have "(i + 2 ^ 64) mod 2 ^ 64 = i + 2 ^ 64"
      using True \<open>inInt64 i\<close> by (intro mod_pos_pos_trivial) (simp_all add: inInt64_def)
    then have "i mod 2 ^ 64 = i + 2 ^ 64"
      by (metis mod_add_self2)
    then show ?thesis
      using True \<open>inInt64 i\<close> by (simp add: toI64_def toU64_def inInt64_def)
  next
    case False
    then have "i mod 2 ^ 64 = i"
      using \<open>inInt64 i\<close> by (simp add: inInt64_def)
    then show ?thesis
      using False \<open>inInt64 i\<close> by (simp add: toI64_def toU64_def inInt64_def)
  qed
qed

end
