(* ===== verification/WalFormat.thy ===== *)
theory WalFormat
  imports GoText
begin

text \<open>
  The write-ahead log's record encodings (\<open>src/storage/wal_format.go\<close>, the encoders of
  \<open>wal.go\<close>): the binary record with and without a TTL, the older text record, and the one
  decoder for files that mix them. A reader is modelled on the bytes that are left of the
  file.
\<close>

section \<open>Entries\<close>

record WALEntry =
  wTimestamp :: int
  wKey :: bytes
  wValueLen :: nat
  wValue :: bytes
  wChecksum :: nat
  wVersion :: nat
  wIsTombstone :: bool
  wVLogOffset :: int
  wPacked :: bool
  wDiskValueLen :: nat
  wXformFlags :: nat
  wTTLExpiryUs :: int

record walReplayEntry =
  rKey :: bytes
  rValue :: bytes
  rIsTombstone :: bool
  rVersion :: nat
  rTimestampNs :: int
  rCrc :: nat
  rValueLen :: nat
  rVLogOffset :: int
  rPacked :: bool
  rDiskLen :: nat
  rXflags :: nat
  rTTLExpiryUs :: int

definition walBinMagic :: byte where "walBinMagic = 0xB1"
definition walBinVersion :: byte where "walBinVersion = 1"
definition walBinVersionTTL :: byte where "walBinVersionTTL = 2"
definition walBinHeaderSize :: nat where "walBinHeaderSize = 48"
definition walBinTTLSize :: nat where "walBinTTLSize = 8"
definition walBinTrailer :: nat where "walBinTrailer = 4"
definition walMaxRecordField :: nat where "walMaxRecordField = 2 ^ 30"

lemmas wal_consts = walBinMagic_def walBinVersion_def walBinVersionTTL_def walBinHeaderSize_def
  walBinTTLSize_def walBinTrailer_def walMaxRecordField_def

text \<open>The value bytes follow the key when they are not in the value log.\<close>

definition inlineValue :: "WALEntry \<Rightarrow> bool" where
  "inlineValue e \<longleftrightarrow> \<not> wIsTombstone e \<and> wValue e \<noteq> [] \<and> wVLogOffset e = 0"

definition diskLenOf :: "WALEntry \<Rightarrow> nat" where
  "diskLenOf e = (if wDiskValueLen e = 0 then wValueLen e else wDiskValueLen e)"

section \<open>Encoders\<close>

definition walBinFlags :: "WALEntry \<Rightarrow> nat" where
  "walBinFlags e = of_bool (wIsTombstone e) + 2 * of_bool (wPacked e) + 4 * of_bool (inlineValue e)"

definition walBinHeader :: "WALEntry \<Rightarrow> bytes" where
  "walBinHeader e =
     [walBinMagic, if wTTLExpiryUs e > 0 then walBinVersionTTL else walBinVersion] @
     le 2 (walBinFlags e) @ le 4 (length (wKey e)) @ le 4 (wValueLen e) @ le 4 (diskLenOf e) @
     le 4 (wChecksum e) @ [of_nat (wXformFlags e), 0, 0, 0] @ le 8 (toU64 (wTimestamp e)) @
     le 8 (wVersion e) @ le 8 (toU64 (wVLogOffset e)) @
     (if wTTLExpiryUs e > 0 then le 8 (toU64 (wTTLExpiryUs e)) else [])"

definition walBinBody :: "WALEntry \<Rightarrow> bytes" where
  "walBinBody e = walBinHeader e @ wKey e @ (if inlineValue e then wValue e else [])"

definition appendWALRecordBinary :: "bytes \<Rightarrow> WALEntry \<Rightarrow> bytes" where
  "appendWALRecordBinary buf e = buf @ walBinBody e @ le 4 (crc32c (walBinBody e))"

definition flagByte :: "bool \<Rightarrow> bytes" where
  "flagByte b = [if b then 49 else 48]"

text \<open>The fields of a text record; the last three only when they carry information.\<close>

definition walTextFields :: "WALEntry \<Rightarrow> bytes list" where
  "walTextFields e =
     [formatInt (wTimestamp e), flagByte (wIsTombstone e), wKey e, formatUint 10 (wValueLen e),
      formatUint 16 (wChecksum e), formatUint 10 (wVersion e), formatInt (wVLogOffset e),
      flagByte (wPacked e)] @
     (if wTTLExpiryUs e > 0 \<or> wXformFlags e \<noteq> 0 \<or> diskLenOf e \<noteq> wValueLen e
      then [formatUint 10 (diskLenOf e), formatUint 16 (wXformFlags e)] else []) @
     (if wTTLExpiryUs e > 0 then [formatInt (wTTLExpiryUs e)] else [])"

definition appendWALRecordText :: "bytes \<Rightarrow> WALEntry \<Rightarrow> bytes" where
  "appendWALRecordText buf e =
     buf @ joinWith 124 (walTextFields e) @ [10] @
     (if inlineValue e then wValue e @ [10] else [])"

definition appendWALRecordEnc :: "bytes \<Rightarrow> WALEntry \<Rightarrow> bool \<Rightarrow> bool \<Rightarrow> bytes" where
  "appendWALRecordEnc buf e legacyText dropTTL =
     (if legacyText
      then appendWALRecordText buf
             (if dropTTL \<and> wTTLExpiryUs e \<noteq> 0 then e\<lparr>wTTLExpiryUs := 0\<rparr> else e)
      else appendWALRecordBinary buf e)"

section \<open>Decoder\<close>

text \<open>\<open>WalTail\<close>: a torn or corrupt record; \<open>WalRec\<close> has the bytes after the record.\<close>

datatype wal_next = WalEOF | WalTail | WalRec walReplayEntry bytes

text \<open>The fields of a binary record of header length \<open>hdrLen\<close> and body length \<open>bodyLen\<close>.\<close>

definition binEntry :: "nat \<Rightarrow> nat \<Rightarrow> bytes \<Rightarrow> walReplayEntry" where
  "binEntry hdrLen bodyLen bs =
     (let flags = unle (take 2 (drop 2 bs)); keyLen = unle (take 4 (drop 4 bs));
          valueLen = unle (take 4 (drop 8 bs)); diskLen = unle (take 4 (drop 12 bs));
          body = take bodyLen (drop hdrLen bs);
          ttl = (if hdrLen > walBinHeaderSize
                 then toI64 (unle (take 8 (drop walBinHeaderSize bs))) else 0)
      in \<lparr>rKey = take keyLen body, rValue = (if bit flags 2 then drop keyLen body else []),
          rIsTombstone = bit flags 0, rVersion = unle (take 8 (drop 32 bs)),
          rTimestampNs = toI64 (unle (take 8 (drop 24 bs))), rCrc = unle (take 4 (drop 16 bs)),
          rValueLen = valueLen, rVLogOffset = toI64 (unle (take 8 (drop 40 bs))),
          rPacked = bit flags 1, rDiskLen = (if diskLen = 0 then valueLen else diskLen),
          rXflags = unat (bs ! 20), rTTLExpiryUs = (if ttl > 0 then ttl else 0)\<rparr>)"

definition nextBinary :: "bytes \<Rightarrow> wal_next" where
  "nextBinary bs =
     (if length bs < walBinHeaderSize then WalTail
      else if bs ! 1 \<noteq> walBinVersion \<and> bs ! 1 \<noteq> walBinVersionTTL then WalTail
      else
        let hdrLen = (if bs ! 1 = walBinVersion then walBinHeaderSize
                      else walBinHeaderSize + walBinTTLSize)
        in if length bs < hdrLen then WalTail
           else
             let inline = bit (unle (take 2 (drop 2 bs))) 2;
                 keyLen = unle (take 4 (drop 4 bs)); valueLen = unle (take 4 (drop 8 bs));
                 bodyLen = (if inline then keyLen + valueLen else keyLen);
                 crcAt = hdrLen + bodyLen; e = binEntry hdrLen bodyLen bs
             in if keyLen > walMaxRecordField \<or> (inline \<and> valueLen > walMaxRecordField) then WalTail
                else if length bs < crcAt + walBinTrailer then WalTail
                else if crc32c (take crcAt bs) \<noteq> unle (take walBinTrailer (drop crcAt bs)) then WalTail
                else if inline \<and> crc32c (rValue e) \<noteq> rCrc e then WalTail
                else WalRec e (drop (crcAt + walBinTrailer) bs))"

text \<open>The header line of a text record; \<open>None\<close> is an unparsable line.\<close>

definition parseTextHeader :: "bytes list \<Rightarrow> walReplayEntry option" where
  "parseTextHeader parts =
     (if length parts < 6 then None
      else case (parseInt (parts ! 0), parseUint 10 32 (parts ! 3), parseUint 16 32 (parts ! 4),
                 parseUint 10 64 (parts ! 5)) of
        (Some ts, Some valueLen, Some crc, Some version) \<Rightarrow>
          let off = (if length parts \<ge> 7 then parseInt (parts ! 6) else Some 0);
              dl = (if length parts \<ge> 10 then parseUint 10 32 (parts ! 8) else Some 0);
              xf = (if length parts \<ge> 10 then parseUint 16 8 (parts ! 9) else Some 0);
              ttl = (if length parts \<ge> 11 then parseInt (parts ! 10) else Some 0)
          in (case (off, dl, xf, ttl) of
                (Some o', Some d, Some x, Some t) \<Rightarrow>
                  Some \<lparr>rKey = parts ! 2, rValue = [], rIsTombstone = (parts ! 1 = [49]),
                        rVersion = version, rTimestampNs = ts, rCrc = crc, rValueLen = valueLen,
                        rVLogOffset = o', rPacked = (length parts \<ge> 8 \<and> parts ! 7 = [49]),
                        rDiskLen = (if d > 0 then d else valueLen), rXflags = x,
                        rTTLExpiryUs = (if t > 0 then t else 0)\<rparr>
              | _ \<Rightarrow> None)
      | _ \<Rightarrow> None)"

definition nextText :: "bytes \<Rightarrow> wal_next" where
  "nextText bs = (case readLine bs of
     None \<Rightarrow> WalTail
   | Some (line, rest) \<Rightarrow> (case parseTextHeader (splitN 124 11 (trimLine line)) of
        None \<Rightarrow> WalTail
      | Some e \<Rightarrow>
          if \<not> rIsTombstone e \<and> rValueLen e > 0 \<and> rVLogOffset e = 0
          then
            let value = take (rValueLen e) rest
            in if rValueLen e > walMaxRecordField \<or> length rest < rValueLen e + 1 \<or>
                  rest ! rValueLen e \<noteq> 10 \<or> crc32c value \<noteq> rCrc e
               then WalTail
               else WalRec (e\<lparr>rValue := value\<rparr>) (drop (rValueLen e + 1) rest)
          else WalRec e rest))"

fun nextRecord :: "bytes \<Rightarrow> wal_next" where
  "nextRecord [] = WalEOF"
| "nextRecord (b # bs) =
     (if b = walBinMagic then nextBinary (b # bs)
      else if b = 10 \<or> b = 13 then nextRecord bs
      else nextText (b # bs))"

lemma nextBinary_shorter: "nextBinary bs = WalRec e rest \<Longrightarrow> length rest < length bs"
  unfolding nextBinary_def Let_def
  by (auto simp: walBinTrailer_def walBinHeaderSize_def split: if_split_asm)

lemma nextText_shorter: "nextText bs = WalRec e rest \<Longrightarrow> length rest < length bs"
  by (auto simp: nextText_def Let_def dest!: readLine_shorter split: option.splits if_splits)

lemma nextRecord_shorter: "nextRecord bs = WalRec e rest \<Longrightarrow> length rest < length bs"
  by (induction bs rule: nextRecord.induct)
    (auto dest: nextBinary_shorter nextText_shorter split: if_splits)

text \<open>\<open>replayWAL\<close>: every record up to the end or to the first one that cannot be read.\<close>

function replayWAL :: "bytes \<Rightarrow> walReplayEntry list" where
  "replayWAL bs = (case nextRecord bs of WalRec e rest \<Rightarrow> e # replayWAL rest | _ \<Rightarrow> [])"
  by pat_completeness auto
termination
  by (relation "measure length") (auto dest: nextRecord_shorter)

declare replayWAL.simps [simp del]

section \<open>Round trip\<close>

text \<open>The entries the writers produce: every field within its width, an inline value described
  by its length and checksum.\<close>

definition walOk :: "WALEntry \<Rightarrow> bool" where
  "walOk e \<longleftrightarrow> length (wKey e) \<le> walMaxRecordField \<and> inInt64 (wTimestamp e) \<and> wValueLen e < 2 ^ 32 \<and>
     wChecksum e < 2 ^ 32 \<and> wVersion e < 2 ^ 64 \<and> inInt64 (wVLogOffset e) \<and>
     wDiskValueLen e < 2 ^ 32 \<and> wXformFlags e < 256 \<and> inInt64 (wTTLExpiryUs e) \<and>
     (inlineValue e \<longrightarrow> wValueLen e = length (wValue e) \<and> length (wValue e) \<le> walMaxRecordField \<and>
        wChecksum e = crc32c (wValue e))"

definition replayedEntry :: "WALEntry \<Rightarrow> walReplayEntry" where
  "replayedEntry e =
     \<lparr>rKey = wKey e, rValue = (if inlineValue e then wValue e else []),
      rIsTombstone = wIsTombstone e, rVersion = wVersion e, rTimestampNs = wTimestamp e,
      rCrc = wChecksum e, rValueLen = wValueLen e, rVLogOffset = wVLogOffset e,
      rPacked = wPacked e, rDiskLen = diskLenOf e, rXflags = wXformFlags e,
      rTTLExpiryUs = (if wTTLExpiryUs e > 0 then wTTLExpiryUs e else 0)\<rparr>"

definition walHdrLen :: "WALEntry \<Rightarrow> nat" where
  "walHdrLen e = (if wTTLExpiryUs e > 0 then 56 else 48)"

lemma length_walBinHeader [simp]: "length (walBinHeader e) = walHdrLen e"
  by (simp add: walBinHeader_def walHdrLen_def)

lemma walBinFlags_bits:
  "walBinFlags e < 2 ^ 16" "bit (walBinFlags e) 0 = wIsTombstone e"
  "bit (walBinFlags e) 1 = wPacked e" "bit (walBinFlags e) 2 = inlineValue e"
  by (simp_all add: walBinFlags_def bit_iff_odd)

lemma walBinHeader_fields:
  assumes "walOk e"
  shows "(walBinHeader e @ t) ! 1 = (if wTTLExpiryUs e > 0 then walBinVersionTTL else walBinVersion)"
    "unle (take 2 (drop 2 (walBinHeader e @ t))) = walBinFlags e"
    "unle (take 4 (drop 4 (walBinHeader e @ t))) = length (wKey e)"
    "unle (take 4 (drop 8 (walBinHeader e @ t))) = wValueLen e"
    "unle (take 4 (drop 12 (walBinHeader e @ t))) = diskLenOf e"
    "unle (take 4 (drop 16 (walBinHeader e @ t))) = wChecksum e"
    "toI64 (unle (take 8 (drop 24 (walBinHeader e @ t)))) = wTimestamp e"
    "unle (take 8 (drop 32 (walBinHeader e @ t))) = wVersion e"
    "toI64 (unle (take 8 (drop 40 (walBinHeader e @ t)))) = wVLogOffset e"
    "wTTLExpiryUs e > 0 \<Longrightarrow> toI64 (unle (take 8 (drop 48 (walBinHeader e @ t)))) = wTTLExpiryUs e"
  using assms walBinFlags_bits(1) [of e] toU64_less [of "wTimestamp e"] toU64_less [of "wVLogOffset e"]
    toU64_less [of "wTTLExpiryUs e"]
  by (simp_all add: walBinHeader_def walOk_def diskLenOf_def walMaxRecordField_def)

lemma walBinHeader_xflags:
  assumes "walOk e"
  shows "unat ((walBinHeader e @ t) ! 20) = wXformFlags e"
proof -
  have "drop 20 (walBinHeader e @ t) ! 0 = (walBinHeader e @ t) ! (20 + 0)"
    by (rule nth_drop) (simp add: walHdrLen_def)
  then have "(walBinHeader e @ t) ! 20 = drop 20 (walBinHeader e @ t) ! 0"
    by simp
  also have "\<dots> = of_nat (wXformFlags e)"
    unfolding walBinHeader_def by simp
  finally show ?thesis
    using assms by (simp add: walOk_def unsigned_of_nat take_bit_nat_eq_self_iff)
qed

definition walBodyLen :: "WALEntry \<Rightarrow> nat" where
  "walBodyLen e = length (wKey e) + (if inlineValue e then length (wValue e) else 0)"

lemma length_walBinBody: "length (walBinBody e) = walHdrLen e + walBodyLen e"
  by (simp add: walBinBody_def walBodyLen_def)

lemma nextBinary_record:
  assumes ok: "walOk e"
  shows "nextBinary (appendWALRecordBinary [] e @ rest) = WalRec (replayedEntry e) rest"
proof -
  define t where "t = wKey e @ (if inlineValue e then wValue e else []) @ le 4 (crc32c (walBinBody e)) @ rest"
  define bs where "bs = appendWALRecordBinary [] e @ rest"
  have bs: "bs = walBinHeader e @ t" "bs = walBinBody e @ le 4 (crc32c (walBinBody e)) @ rest"
    by (simp_all add: bs_def appendWALRecordBinary_def walBinBody_def t_def)
  note f = walBinHeader_fields [OF ok, of t, folded bs(1)] walBinHeader_xflags [OF ok, of t, folded bs(1)]
  have h: "walHdrLen e \<ge> 48" "walHdrLen e = (if bs ! 1 = walBinVersion then 48 else 56)"
    using f(1) by (simp_all add: walHdrLen_def wal_consts)
  have len: "length bs = walHdrLen e + walBodyLen e + 4 + length rest"
    by (simp add: bs(2) length_walBinBody)
  have crc: "crc32c (take (walHdrLen e + walBodyLen e) bs) =
      unle (take 4 (drop (walHdrLen e + walBodyLen e) bs))"
    using length_walBinBody [of e] crc32c_less [of "walBinBody e"] by (simp add: bs(2))
  have body: "take (walBodyLen e) (drop (walHdrLen e) bs) = wKey e @ (if inlineValue e then wValue e else [])"
    by (simp add: bs(1) t_def walBodyLen_def)
  have rest: "drop (walHdrLen e + walBodyLen e + 4) bs = rest"
    using length_walBinBody [of e] by (simp add: bs(2))
  have il: "(if inlineValue e then length (wKey e) + wValueLen e else length (wKey e)) = walBodyLen e"
    using ok by (simp add: walOk_def walBodyLen_def)
  have k: "length (wKey e) \<le> walMaxRecordField" "inlineValue e \<Longrightarrow> wValueLen e \<le> walMaxRecordField"
    using ok by (simp_all add: walOk_def)
  have hl: "(if bs ! 1 = walBinVersion then walBinHeaderSize else walBinHeaderSize + walBinTTLSize) = walHdrLen e"
    using h(2) by (simp add: wal_consts)
  have ver: "\<not> (bs ! 1 \<noteq> walBinVersion \<and> bs ! 1 \<noteq> walBinVersionTTL)"
    using f(1) by simp
  have ttl: "(if walHdrLen e > walBinHeaderSize then toI64 (unle (take 8 (drop walBinHeaderSize bs))) else 0) =
      (if wTTLExpiryUs e > 0 then wTTLExpiryUs e else 0)"
    using f(10) by (simp add: walHdrLen_def walBinHeaderSize_def)
  have e: "binEntry (walHdrLen e) (walBodyLen e) bs = replayedEntry e"
    unfolding binEntry_def Let_def f(2-9,11) walBinFlags_bits ttl body
    by (simp add: replayedEntry_def diskLenOf_def)
  have "inlineValue e \<Longrightarrow> crc32c (rValue (replayedEntry e)) = rCrc (replayedEntry e)"
    using ok by (simp add: replayedEntry_def walOk_def)
  then have "nextBinary bs = WalRec (replayedEntry e) rest"
    unfolding nextBinary_def Let_def hl f(2-4) walBinFlags_bits il e
    using ver k h(1) len crc rest by (auto simp: walBinHeaderSize_def walBinTrailer_def)
  then show ?thesis by (simp add: bs_def)
qed

lemma nextBinary_torn:
  assumes ok: "walOk e" and n: "n < length (appendWALRecordBinary [] e)"
  shows "nextBinary (take n (appendWALRecordBinary [] e)) = WalTail"
proof -
  define r where "r = appendWALRecordBinary [] e"
  define bs where "bs = take n r"
  have lr: "length r = walHdrLen e + walBodyLen e + 4"
    by (simp add: r_def appendWALRecordBinary_def length_walBinBody)
  have lb: "length bs = n" "n < walHdrLen e + walBodyLen e + 4"
    using n lr by (simp_all add: bs_def r_def)
  define t where "t = wKey e @ (if inlineValue e then wValue e else []) @ le 4 (crc32c (walBinBody e))"
  have r: "r = walBinHeader e @ t"
    by (simp add: r_def appendWALRecordBinary_def walBinBody_def t_def)
  note f = walBinHeader_fields [OF ok, of t, folded r]
  have il: "(if inlineValue e then length (wKey e) + wValueLen e else length (wKey e)) = walBodyLen e"
    using ok by (simp add: walOk_def walBodyLen_def)
  show ?thesis
  proof (cases "n < 48")
    case True
    then show ?thesis using lb by (simp add: nextBinary_def walBinHeaderSize_def flip: r_def bs_def)
  next
    case False
    have same: "take k (drop i bs) = take k (drop i r)" if "i + k \<le> 48" for i k
      using that False by (simp add: bs_def take_drop min_def)
    have v: "bs ! 1 = (if wTTLExpiryUs e > 0 then walBinVersionTTL else walBinVersion)"
      using False f(1) by (simp add: bs_def)
    have hl: "(if bs ! 1 = walBinVersion then walBinHeaderSize else walBinHeaderSize + walBinTTLSize) = walHdrLen e"
      using v by (simp add: walHdrLen_def wal_consts)
    have g: "unle (take 2 (drop 2 bs)) = walBinFlags e" "unle (take 4 (drop 4 bs)) = length (wKey e)"
      "unle (take 4 (drop 8 bs)) = wValueLen e"
      using f(2-4) same [of 2 2] same [of 4 4] same [of 8 4] by simp_all
    show ?thesis
      unfolding r_def [symmetric] bs_def [symmetric] nextBinary_def Let_def hl g walBinFlags_bits il
      using lb by (auto simp: walBinTrailer_def)
  qed
qed

section \<open>Text records\<close>

text \<open>The entries the text encoding can carry: keys without its separators, and a value that is
  inline whenever the reader expects one.\<close>

definition textOk :: "WALEntry \<Rightarrow> bool" where
  "textOk e \<longleftrightarrow> walOk e \<and> 124 \<notin> set (wKey e) \<and> 10 \<notin> set (wKey e) \<and>
     (\<not> wIsTombstone e \<and> wValueLen e > 0 \<and> wVLogOffset e = 0 \<longrightarrow> inlineValue e)"

definition cleanField :: "bytes \<Rightarrow> bool" where
  "cleanField f \<longleftrightarrow> 124 \<notin> set f \<and> 10 \<notin> set f"

lemma cleanField_simps [simp]:
  "cleanField (formatInt i)" "cleanField (formatUint 10 n)" "cleanField (formatUint 16 n)"
  "cleanField (flagByte b)"
proof -
  show "cleanField (formatInt i)"
    unfolding cleanField_def using formatInt_clean(1,2) by blast
  show "cleanField (formatUint 10 n)" "cleanField (formatUint 16 n)"
    unfolding cleanField_def using formatUint_clean(1,2) [of 10] formatUint_clean(1,2) [of 16]
    by fastforce+
  show "cleanField (flagByte b)"
    by (simp add: cleanField_def flagByte_def)
qed

lemma walTextFields_clean:
  assumes "textOk e"
  shows "list_all cleanField (walTextFields e)"
proof -
  have "cleanField (wKey e)"
    using assms by (simp add: textOk_def cleanField_def)
  then show ?thesis by (simp add: walTextFields_def)
qed

lemma set_joinWith: "set (joinWith sep ps) \<subseteq> insert sep (\<Union> (set ` set ps))"
  by (induction sep ps rule: joinWith.induct) auto

lemma last_joinWith: "ps \<noteq> [] \<Longrightarrow> last ps \<noteq> [] \<Longrightarrow> joinWith sep ps \<noteq> [] \<and> last (joinWith sep ps) = last (last ps)"
  by (induction sep ps rule: joinWith.induct) auto

lemma walTextFields_last:
  "last (walTextFields e) \<noteq> []" "last (last (walTextFields e)) \<noteq> 10" "last (last (walTextFields e)) \<noteq> 13"
proof -
  have "last (formatInt i) \<noteq> 10 \<and> last (formatInt i) \<noteq> 13" for i
    using formatInt_clean(2,3) [of "last (formatInt i)" i] by simp
  moreover have "last (formatUint 16 n) \<noteq> 10 \<and> last (formatUint 16 n) \<noteq> 13" for n
    using formatUint_clean(2,3) [of 16 "last (formatUint 16 n)" n] by simp
  ultimately show "last (walTextFields e) \<noteq> []" "last (last (walTextFields e)) \<noteq> 10"
    "last (last (walTextFields e)) \<noteq> 13"
    by (simp_all add: walTextFields_def flagByte_def)
qed

lemma parse_walTextFields:
  assumes "textOk e"
  shows "parseTextHeader (walTextFields e) = Some ((replayedEntry e)\<lparr>rValue := []\<rparr>)"
proof -
  have ok: "inInt64 (wTimestamp e)" "wValueLen e < 2 ^ 32" "wChecksum e < 2 ^ 32" "wVersion e < 2 ^ 64"
    "inInt64 (wVLogOffset e)" "diskLenOf e < 2 ^ 32" "wXformFlags e < 2 ^ 8" "inInt64 (wTTLExpiryUs e)"
    using assms by (simp_all add: textOk_def walOk_def diskLenOf_def)
  have d: "diskLenOf e = 0 \<Longrightarrow> wValueLen e = 0"
    by (simp add: diskLenOf_def split: if_splits)
  show ?thesis
  proof (cases "wTTLExpiryUs e > 0")
    case True
    then show ?thesis
      using ok d by (simp add: walTextFields_def parseTextHeader_def parse_formatInt parse_formatUint
          replayedEntry_def flagByte_def)
  next
    case False
    show ?thesis
    proof (cases "wXformFlags e \<noteq> 0 \<or> diskLenOf e \<noteq> wValueLen e")
      case True
      then show ?thesis
        using ok d False by (auto simp: walTextFields_def parseTextHeader_def parse_formatInt parse_formatUint
            replayedEntry_def flagByte_def)
    next
      case no: False
      then show ?thesis
        using ok d False by (simp add: walTextFields_def parseTextHeader_def parse_formatInt parse_formatUint
            replayedEntry_def flagByte_def)
    qed
  qed
qed

lemma joined_fields:
  assumes "textOk e"
  defines "j \<equiv> joinWith 124 (walTextFields e)"
  shows "10 \<notin> set j" "trimLine (j @ [10]) = j" "splitN 124 11 j = walTextFields e" "j \<noteq> []"
    "hd j \<noteq> 177 \<and> hd j \<noteq> 10 \<and> hd j \<noteq> 13"
proof -
  have ne: "walTextFields e \<noteq> []"
    by (simp add: walTextFields_def)
  have clean: "\<forall>f \<in> set (walTextFields e). 124 \<notin> set f \<and> 10 \<notin> set f"
    using walTextFields_clean [OF assms(1)] by (auto simp: list_all_iff cleanField_def)
  then show "10 \<notin> set j"
    unfolding j_def using set_joinWith [of 124 "walTextFields e"] by fastforce
  note l = last_joinWith [OF ne walTextFields_last(1), of 124]
  then show "j \<noteq> []" by (simp add: j_def)
  show "trimLine (j @ [10]) = j"
    unfolding j_def using l walTextFields_last [of e] by (intro trimLine_newline) auto
  have "length (walTextFields e) \<le> 11"
    by (simp add: walTextFields_def)
  then show "splitN 124 11 j = walTextFields e"
    unfolding j_def using ne clean by (intro splitN_join) auto
  have "hd j = hd (formatInt (wTimestamp e))"
    by (simp add: j_def walTextFields_def)
  then show "hd j \<noteq> 177 \<and> hd j \<noteq> 10 \<and> hd j \<noteq> 13"
    using formatInt_clean [of "hd (formatInt (wTimestamp e))" "wTimestamp e"] by simp
qed

lemma text_record_split:
  "appendWALRecordText [] e = joinWith 124 (walTextFields e) @ 10 #
     (if inlineValue e then wValue e @ [10] else [])"
  by (simp add: appendWALRecordText_def)

lemma nextText_header:
  assumes "textOk e"
  shows "nextText (joinWith 124 (walTextFields e) @ 10 # rest) =
     (if inlineValue e
      then if length rest < length (wValue e) + 1 \<or> rest ! length (wValue e) \<noteq> 10 \<or>
              crc32c (take (length (wValue e)) rest) \<noteq> wChecksum e
           then WalTail
           else WalRec ((replayedEntry e)\<lparr>rValue := take (length (wValue e)) rest\<rparr>)
                  (drop (length (wValue e) + 1) rest)
      else WalRec (replayedEntry e) rest)"
proof -
  have v: "inlineValue e \<Longrightarrow> wValueLen e = length (wValue e) \<and> \<not> length (wValue e) > walMaxRecordField"
    using assms by (simp add: textOk_def walOk_def)
  have il: "(\<not> wIsTombstone e \<and> wValueLen e > 0 \<and> wVLogOffset e = 0) = inlineValue e"
    using assms v by (auto simp: textOk_def inlineValue_def)
  have r: "(replayedEntry e)\<lparr>rValue := []\<rparr> = replayedEntry e" if "\<not> inlineValue e"
    using that by (simp add: replayedEntry_def)
  show ?thesis
    using v il r
    by (simp add: nextText_def readLine_line joined_fields [OF assms] parse_walTextFields [OF assms] Let_def
        replayedEntry_def)
qed

lemma nextText_record:
  assumes "textOk e"
  shows "nextText (appendWALRecordText [] e @ rest) = WalRec (replayedEntry e) rest"
proof -
  have "inlineValue e \<Longrightarrow> wChecksum e = crc32c (wValue e)"
    using assms by (simp add: textOk_def walOk_def)
  then show ?thesis
    using nextText_header [OF assms, of "(if inlineValue e then wValue e @ [10] else []) @ rest"]
    by (simp add: text_record_split replayedEntry_def)
qed

lemma nextText_torn:
  assumes "textOk e" "n < length (appendWALRecordText [] e)"
  shows "nextText (take n (appendWALRecordText [] e)) = WalTail"
proof (cases "n \<le> length (joinWith 124 (walTextFields e))")
  case True
  then have "10 \<notin> set (take n (appendWALRecordText [] e))"
    using joined_fields(1) [OF assms(1)] by (auto simp: text_record_split dest: in_set_takeD)
  then show ?thesis by (simp add: nextText_def readLine_def)
next
  case False
  let ?j = "joinWith 124 (walTextFields e)"
  obtain k where k: "n = length ?j + Suc k"
    using False less_imp_Suc_add [of "length ?j" n] by auto
  have il: "inlineValue e" "k < length (wValue e) + 1"
    using assms(2) k by (auto simp: text_record_split split: if_splits)
  then have "take n (appendWALRecordText [] e) = ?j @ 10 # take k (wValue e @ [10])"
    using k by (simp add: text_record_split)
  then show ?thesis
    using nextText_header [OF assms(1), of "take k (wValue e @ [10])"] il by simp
qed

section \<open>Files\<close>

text \<open>A record of a file: the encoding it was written in and its entry.\<close>

type_synonym wal_record = "bool \<times> WALEntry"

definition recordBytes :: "wal_record \<Rightarrow> bytes" where
  "recordBytes r = (case r of (legacyText, e) \<Rightarrow>
     if legacyText then appendWALRecordText [] e else appendWALRecordBinary [] e)"

definition recordOk :: "wal_record \<Rightarrow> bool" where
  "recordOk r = (case r of (legacyText, e) \<Rightarrow> if legacyText then textOk e else walOk e)"

definition fileBytes :: "wal_record list \<Rightarrow> bytes" where
  "fileBytes rs = concat (map recordBytes rs)"

lemma binary_first: "\<exists>t. appendWALRecordBinary [] e @ rest = walBinMagic # t"
  by (simp add: appendWALRecordBinary_def walBinBody_def walBinHeader_def)

lemma nextRecord_record:
  assumes "recordOk r"
  shows "nextRecord (recordBytes r @ rest) = WalRec (replayedEntry (snd r)) rest"
proof (cases r)
  case (Pair lt e)
  show ?thesis
  proof (cases lt)
    case True
    then have ok: "textOk e" using assms Pair by (simp add: recordOk_def)
    obtain b t where bt: "appendWALRecordText [] e @ rest = b # t" "b \<noteq> 177 \<and> b \<noteq> 10 \<and> b \<noteq> 13"
      using joined_fields(4,5) [OF ok] by (cases "joinWith 124 (walTextFields e)") (auto simp: text_record_split)
    then show ?thesis
      using nextText_record [OF ok, of rest] True Pair by (simp add: recordBytes_def walBinMagic_def)
  next
    case False
    then have ok: "walOk e" using assms Pair by (simp add: recordOk_def)
    obtain t where "appendWALRecordBinary [] e @ rest = walBinMagic # t"
      using binary_first by blast
    then show ?thesis
      using nextBinary_record [OF ok, of rest] False Pair by (simp add: recordBytes_def)
  qed
qed

lemma recordBytes_neq_Nil [simp]: "recordBytes r \<noteq> []"
  using binary_first [of "snd r" "[]"] by (cases r) (auto simp: recordBytes_def text_record_split)

lemma nextRecord_torn:
  assumes "recordOk r" "n < length (recordBytes r)"
  shows "nextRecord (take n (recordBytes r)) \<in> {WalEOF, WalTail}"
proof (cases r)
  case (Pair lt e)
  show ?thesis
  proof (cases "n = 0")
    case False
    then obtain b t where bt: "recordBytes r = b # t" "take n (recordBytes r) = b # take (n - 1) t"
      by (cases "recordBytes r") (auto simp: take_Cons')
    show ?thesis
    proof (cases lt)
      case True
      then have ok: "textOk e" and r: "recordBytes r = appendWALRecordText [] e"
        using assms(1) Pair by (simp_all add: recordOk_def recordBytes_def)
      have "b \<noteq> 177 \<and> b \<noteq> 10 \<and> b \<noteq> 13"
        using joined_fields(4,5) [OF ok] bt(1) r by (cases "joinWith 124 (walTextFields e)") (auto simp: text_record_split)
      then show ?thesis
        using nextText_torn [OF ok, of n] assms(2) r bt by (simp add: walBinMagic_def)
    next
      case False
      then have ok: "walOk e" and r: "recordBytes r = appendWALRecordBinary [] e"
        using assms(1) Pair by (simp_all add: recordOk_def recordBytes_def)
      have "b = walBinMagic"
        using binary_first [of e "[]"] bt(1) r by simp
      then show ?thesis
        using nextBinary_torn [OF ok, of n] assms(2) r bt by simp
    qed
  qed simp
qed

lemma replayWAL_file:
  "\<forall>r \<in> set rs. recordOk r \<Longrightarrow>
     replayWAL (fileBytes rs @ rest) = map (\<lambda>r. replayedEntry (snd r)) rs @ replayWAL rest"
proof (induction rs)
  case (Cons r rs)
  then show ?case
    by (subst replayWAL.simps) (simp add: fileBytes_def nextRecord_record)
qed (simp add: fileBytes_def)

lemma replayWAL_Nil [simp]: "replayWAL [] = []"
  by (simp add: replayWAL.simps)

text \<open>
  C24: replay inverts the writers. A file of complete records, binary and text in
  any mix, followed by what a crash left of the next record, replays to exactly the entries
  written, in order, and nothing else. The fields fit their widths; keys are arbitrary bytes
  in the binary records, and free of \<open>|\<close> and of line ends in the text records, the text
  format's own limit; a text record of a put has its value in place or in the value log.
\<close>

theorem wal_replay:
  assumes "\<forall>r \<in> set rs. recordOk r" and "recordOk torn" and "n < length (recordBytes torn)"
  shows "replayWAL (fileBytes rs @ take n (recordBytes torn)) = map (\<lambda>r. replayedEntry (snd r)) rs"
proof -
  have "replayWAL (take n (recordBytes torn)) = []"
    using nextRecord_torn [OF assms(2,3)] by (auto simp: replayWAL.simps)
  then show ?thesis
    by (simp add: replayWAL_file [OF assms(1)])
qed

definition exampleWal :: WALEntry where
  "exampleWal = \<lparr>wTimestamp = 1, wKey = [10, 124], wValueLen = 1, wValue = [7], wChecksum = crc32c [7],
     wVersion = 3, wIsTombstone = False, wVLogOffset = 0, wPacked = False, wDiskValueLen = 0,
     wXformFlags = 0, wTTLExpiryUs = 5\<rparr>"

lemma exampleWal_ok: "recordOk (False, exampleWal)"
  by (simp add: recordOk_def walOk_def exampleWal_def inInt64_def inlineValue_def walMaxRecordField_def)

lemma exampleText_ok: "recordOk (True, exampleWal\<lparr>wKey := [65]\<rparr>)"
  by (simp add: recordOk_def textOk_def walOk_def exampleWal_def inInt64_def inlineValue_def walMaxRecordField_def)

theorem wal_replay_witness:
  "map rKey (replayWAL (fileBytes [(False, exampleWal), (True, exampleWal\<lparr>wKey := [65]\<rparr>)] @
     take 5 (recordBytes (False, exampleWal)))) = [[10, 124], [65]]"
proof -
  have "\<forall>r \<in> set [(False, exampleWal), (True, exampleWal\<lparr>wKey := [65]\<rparr>)]. recordOk r"
    using exampleWal_ok exampleText_ok by simp
  moreover have "5 < length (recordBytes (False, exampleWal))"
    by (simp add: recordBytes_def appendWALRecordBinary_def length_walBinBody walHdrLen_def)
  ultimately show ?thesis
    using wal_replay [OF _ exampleWal_ok, of "[(False, exampleWal), (True, exampleWal\<lparr>wKey := [65]\<rparr>)]" 5]
    by (simp add: replayedEntry_def exampleWal_def)
qed

end
