(* ===== verification/WalReplay.thy ===== *)
theory WalReplay
  imports WalFormat ShardIndex
begin

text \<open>
  Rebuilding the index from the write-ahead log and writing the log anew from the index:
  \<open>applyWALReplay\<close>, \<open>writeCheckpointRecords\<close>, \<open>writeWALCheckpoint\<close> and \<open>maxVLogEndFromWAL\<close> of
  \<open>src/storage/wal_replay.go\<close>.

  The value log a legacy record is re-appended to is seen through its outcomes: the transform
  pipeline, the offset each append returns and whether its fsync succeeded.
\<close>

text \<open>Go's division of an \<open>int64\<close> by a positive constant rounds towards zero.\<close>

definition goQuot :: "int \<Rightarrow> int \<Rightarrow> int" where
  "goQuot a b = (if a < 0 then - (- a div b) else a div b)"

lemma goQuot_mult [simp]: "0 < b \<Longrightarrow> goQuot (a * b) b = a"
  by (simp add: goQuot_def mult_less_0_iff flip: mult_minus_left)

text \<open>The product of an \<open>int64\<close> and a constant wraps around.\<close>

definition int64 :: "int \<Rightarrow> int" where
  "int64 i = (i + 2 ^ 63) mod 2 ^ 64 - 2 ^ 63"

lemma int64_id: "inInt64 i \<Longrightarrow> int64 i = i"
  by (simp add: int64_def inInt64_def mod_pos_pos_trivial)

record replayIO =
  ioTransform :: "bytes \<Rightarrow> (bytes \<times> byte) option"
  ioAppend :: "nat \<Rightarrow> nat option"
  ioSynced :: "nat \<Rightarrow> bool"

record replayState =
  rsMaxVersion :: nat
  rsIndex :: shardedIndex
  rsPending :: "(bytes \<times> IndexEntry \<times> nat) list"
  rsAppends :: nat

text \<open>The entry a record describes, before its place in the value log is known.\<close>

definition replayFlags :: "walReplayEntry \<Rightarrow> byte" where
  "replayFlags e =
     (if rPacked e then FlagPacked else 0) OR
     (of_nat (rXflags e) AND (FlagCompressed OR FlagEncrypted OR FlagReplicaApplied)) OR
     (if rTTLExpiryUs e > 0 then FlagHasTTL else 0)"

definition replayIndexEntry :: "walReplayEntry \<Rightarrow> IndexEntry" where
  "replayIndexEntry e =
     zeroEntry\<lparr>ieKeyHash := fnv64a (rKey e), ieValueSize := rDiskLen e,
       ieUncompressedSize := rValueLen e, ieKeySize := length (rKey e) mod 2 ^ 32,
       ieWriteTimestampUs := goQuot (rTimestampNs e) 1000, ieCRC32C := rCrc e,
       ieSchemaVersion := CurrentSchemaVersion, ieShardID := shardFor (rKey e),
       ieFlags := replayFlags e,
       ieTTLExpiryUs := (if rTTLExpiryUs e > 0 then rTTLExpiryUs e else 0)\<rparr>"

definition reappend :: "replayIO \<Rightarrow> nat \<Rightarrow> walReplayEntry \<Rightarrow> IndexEntry \<Rightarrow> replayState \<Rightarrow> replayState" where
  "reappend io diskIdx e entry rs = (case ioTransform io (rValue e) of
     None \<Rightarrow> rs
   | Some (writeBytes, xf) \<Rightarrow>
       (let entry1 = (setFlag xf entry)\<lparr>ieValueSize := length writeBytes mod 2 ^ 32,
                                        ieUncompressedSize := length (rValue e) mod 2 ^ 32\<rparr>;
            rs1 = rs\<lparr>rsAppends := rsAppends rs + 1\<rparr>
        in case ioAppend io (rsAppends rs) of
             None \<Rightarrow> rs1
           | Some offset \<Rightarrow>
               rs1\<lparr>rsPending := rsPending rs1 @
                 [(rKey e, entry1\<lparr>ieDiskOffset := offset, ieSegmentID := diskIdx mod 2 ^ 32\<rparr>,
                   rsAppends rs)]\<rparr>))"

definition replayStep :: "replayIO \<Rightarrow> nat \<Rightarrow> nat \<Rightarrow> bool \<Rightarrow> bool \<Rightarrow> int \<Rightarrow> walReplayEntry \<Rightarrow> replayState \<Rightarrow>
    replayState" where
  "replayStep io diskIdx numDisks kvSep hasVL nowR e rs =
     (if diskForShard (shardFor (rKey e)) numDisks \<noteq> diskIdx then rs
      else
        let rs1 = (if rVersion e > rsMaxVersion rs then rs\<lparr>rsMaxVersion := rVersion e\<rparr> else rs);
            nowUs = goQuot (rTimestampNs e) 1000
        in if rIsTombstone e
           then rs1\<lparr>rsIndex := replayTombstoneRecord (rKey e) nowUs
                  (of_nat (rXflags e) AND FlagReplicaApplied) (rsIndex rs1)\<rparr>
           else if rTTLExpiryUs e > 0 \<and> nowR \<ge> rTTLExpiryUs e
           then rs1\<lparr>rsIndex := replayMarkTombstone (rKey e) nowUs (rsIndex rs1)\<rparr>
           else
             let entry = replayIndexEntry e
             in if kvSep \<and> hasVL \<and> rVLogOffset e > 0
                then rs1\<lparr>rsIndex := replayPut (rKey e)
                       (entry\<lparr>ieDiskOffset := nat (rVLogOffset e), ieSegmentID := diskIdx mod 2 ^ 32\<rparr>)
                       None (rsIndex rs1)\<rparr>
                else if kvSep \<and> hasVL \<and> rValue e \<noteq> [] then reappend io diskIdx e entry rs1
                else if \<not> kvSep \<and> rValue e \<noteq> []
                then rs1\<lparr>rsIndex := replayPut (rKey e) entry (Some (rValue e)) (rsIndex rs1)\<rparr>
                else rs1)"

text \<open>The appends in flight are collected at the end.\<close>

fun collectPending :: "replayIO \<Rightarrow> (bytes \<times> IndexEntry \<times> nat) list \<Rightarrow> shardedIndex \<Rightarrow> shardedIndex" where
  "collectPending io [] si = si"
| "collectPending io ((k, e, n) # ps) si =
     collectPending io ps (if ioSynced io n then replayPut k e None si else si)"

definition applyWALReplay :: "replayIO \<Rightarrow> nat \<Rightarrow> nat \<Rightarrow> bool \<Rightarrow> bool \<Rightarrow> int \<Rightarrow> walReplayEntry list \<Rightarrow>
    shardedIndex \<Rightarrow> nat \<times> shardedIndex" where
  "applyWALReplay io diskIdx numDisks kvSep hasVL now es si =
     (let rs = fold (replayStep io diskIdx numDisks kvSep hasVL (replayNowUs now si)) es
                 \<lparr>rsMaxVersion = 0, rsIndex = si, rsPending = [], rsAppends = 0\<rparr>
      in (rsMaxVersion rs, collectPending io (rsPending rs) (rsIndex rs)))"

definition maxVLogEndFromWAL :: "walReplayEntry list \<Rightarrow> nat \<Rightarrow> nat \<Rightarrow> nat" where
  "maxVLogEndFromWAL es diskIdx numDisks =
     fold (\<lambda>e maxEnd.
        if rVLogOffset e \<le> 0 \<or> diskForShard (shardFor (rKey e)) numDisks \<noteq> diskIdx then maxEnd
        else let end = recordEnd (nat (rVLogOffset e)) (rDiskLen e) (rPacked e)
          in if end > maxEnd then end else maxEnd) es 0"

section \<open>Checkpoints\<close>

text \<open>
  The record a checkpoint writes for an entry, if any. \<open>keep\<close> is the retention rule for
  tombstones (\<open>None\<close> when there is none) and \<open>now\<close> the clock in nanoseconds.
\<close>

definition zeroWAL :: "bytes \<Rightarrow> nat \<Rightarrow> WALEntry" where
  "zeroWAL key version =
     \<lparr>wTimestamp = 0, wKey = key, wValueLen = 0, wValue = [], wChecksum = 0, wVersion = version,
      wIsTombstone = False, wVLogOffset = 0, wPacked = False, wDiskValueLen = 0, wXformFlags = 0,
      wTTLExpiryUs = 0\<rparr>"

definition keptFlags :: "IndexEntry \<Rightarrow> byte \<Rightarrow> nat" where
  "keptFlags e m = unat (ieFlags e AND m)"

definition checkpointEntry :: "bool \<Rightarrow> nat \<Rightarrow> bool \<Rightarrow> (int \<Rightarrow> int \<Rightarrow> bool) option \<Rightarrow> int \<Rightarrow> bytes \<Rightarrow>
    IndexEntry \<Rightarrow> bytes option \<Rightarrow> WALEntry option" where
  "checkpointEntry kvSep version dropTTL keep now key e dirty =
     (let nowUs = goQuot now 1000; we = zeroWAL key version in
      if IsTombstone e \<and> \<not> dropTTL \<and> ieWriteTimestampUs e > 0 \<and>
         (case keep of None \<Rightarrow> False | Some f \<Rightarrow> f (ieWriteTimestampUs e) nowUs)
      then Some (we\<lparr>wTimestamp := int64 (ieWriteTimestampUs e * 1000), wIsTombstone := True,
                    wXformFlags := keptFlags e FlagReplicaApplied\<rparr>)
      else if IsTombstone e \<or> IsExpired nowUs e then None
      else
        let ts = int64 (ieWriteTimestampUs e * 1000);
            plainLen = (if ieUncompressedSize e = 0 then ieValueSize e else ieUncompressedSize e);
            we1 = we\<lparr>wTimestamp := (if ts = 0 then now else ts),
                     wTTLExpiryUs := (if HasTTL e \<and> ieTTLExpiryUs e > 0 then ieTTLExpiryUs e else 0)\<rparr>
        in if kvSep \<and> ieDiskOffset e > 0
           then Some (we1\<lparr>wValueLen := plainLen, wChecksum := ieCRC32C e,
                  wVLogOffset := int (ieDiskOffset e), wPacked := IsPacked e,
                  wDiskValueLen := ieValueSize e,
                  wXformFlags := keptFlags e (FlagCompressed OR FlagEncrypted OR FlagReplicaApplied)\<rparr>)
           else (case dirty of
                   None \<Rightarrow> None
                 | Some v \<Rightarrow> if v = [] then None
                     else Some (we1\<lparr>wValue := v, wValueLen := length v mod 2 ^ 32,
                            wXformFlags := keptFlags e FlagReplicaApplied, wChecksum := crc32c v\<rparr>)))"

definition checkpointRecords :: "bool \<Rightarrow> nat \<Rightarrow> bool \<Rightarrow> (int \<Rightarrow> int \<Rightarrow> bool) option \<Rightarrow> int \<Rightarrow> nat \<Rightarrow> nat \<Rightarrow>
    shardedIndex \<Rightarrow> WALEntry list" where
  "checkpointRecords kvSep version dropTTL keep now diskIdx numDisks si =
     List.map_filter (\<lambda>(k, e). checkpointEntry kvSep version dropTTL keep now k e (dirtyOf si k))
       (scanEntries (shardsFrom diskIdx numDisks) si)"

definition writeCheckpointRecords :: "bool \<Rightarrow> nat \<Rightarrow> bool \<Rightarrow> bool \<Rightarrow> (int \<Rightarrow> int \<Rightarrow> bool) option \<Rightarrow> int \<Rightarrow>
    nat \<Rightarrow> nat \<Rightarrow> WALEntry list \<Rightarrow> shardedIndex \<Rightarrow> bytes" where
  "writeCheckpointRecords kvSep version legacyText dropTTL keep now diskIdx numDisks extra si =
     concat (map (\<lambda>e. appendWALRecordEnc [] e legacyText dropTTL)
       (checkpointRecords kvSep version dropTTL keep now diskIdx numDisks si @ extra))"

text \<open>The outcome of the system calls; only a rename that happened replaces the log.\<close>

datatype ckpt_outcome = CkptCreateErr | CkptWriteErr | CkptSyncErr | CkptRenameErr | CkptOk

definition writeWALCheckpoint :: "ckpt_outcome \<Rightarrow> bool \<Rightarrow> nat \<Rightarrow> bool \<Rightarrow> bool \<Rightarrow> (int \<Rightarrow> int \<Rightarrow> bool) option \<Rightarrow>
    int \<Rightarrow> nat \<Rightarrow> nat \<Rightarrow> WALEntry list \<Rightarrow> shardedIndex \<Rightarrow> bytes \<Rightarrow> bool \<times> bytes" where
  "writeWALCheckpoint out kvSep version legacyText dropTTL keep now diskIdx numDisks extra si walFile =
     (case out of
        CkptOk \<Rightarrow> (True, writeCheckpointRecords kvSep version legacyText dropTTL keep now diskIdx numDisks extra si)
      | _ \<Rightarrow> (False, walFile))"

section \<open>Replay key by key\<close>

text \<open>A record that changes the index at once: a delete, or a put whose value is in place.\<close>

definition direct :: "bool \<Rightarrow> bool \<Rightarrow> walReplayEntry \<Rightarrow> bool" where
  "direct kvSep hasVL e \<longleftrightarrow> rIsTombstone e \<or> (kvSep \<and> hasVL \<and> rVLogOffset e > 0) \<or> (\<not> kvSep \<and> rValue e \<noteq> [])"

definition recordTs :: "walReplayEntry \<Rightarrow> int" where
  "recordTs e = goQuot (rTimestampNs e) 1000"

definition installedEntry :: "nat \<Rightarrow> bool \<Rightarrow> walReplayEntry \<Rightarrow> IndexEntry" where
  "installedEntry diskIdx kvSep e =
     (if kvSep then (replayIndexEntry e)\<lparr>ieDiskOffset := nat (rVLogOffset e), ieSegmentID := diskIdx mod 2 ^ 32\<rparr>
      else replayIndexEntry e)"

definition expiredAt :: "int \<Rightarrow> walReplayEntry \<Rightarrow> bool" where
  "expiredAt nowR e \<longleftrightarrow> rTTLExpiryUs e > 0 \<and> nowR \<ge> rTTLExpiryUs e"

text \<open>What one record does to the entry of its key; \<open>ordered\<close> is the raft mode.\<close>

definition keyStep :: "nat \<Rightarrow> bool \<Rightarrow> int \<Rightarrow> bool \<Rightarrow> walReplayEntry \<Rightarrow> IndexEntry option \<Rightarrow> IndexEntry option" where
  "keyStep diskIdx kvSep nowR inOrder e old =
     (if \<not> inOrder \<and> (\<exists>e0. old = Some e0 \<and> ieWriteTimestampUs e0 > recordTs e) then old
      else if rIsTombstone e
      then Some (tombstoneFor (rKey e) (recordTs e) (of_nat (rXflags e) AND FlagReplicaApplied) old)
      else if expiredAt nowR e
      then map_option (MarkTombstone (recordTs e)) old
      else Some (installedEntry diskIdx kvSep e))"

lemma installedEntry_fields [simp]:
  "ieKeyHash (installedEntry d kvSep e) = fnv64a (rKey e)"
  "ieWriteTimestampUs (installedEntry d kvSep e) = recordTs e"
  by (simp_all add: installedEntry_def replayIndexEntry_def recordTs_def)

lemma replayFlags_live: "replayFlags e AND 1 = 0"
proof -
  have "(x AND 22) AND 1 = (0 :: byte)" for x by (simp add: and.assoc)
  then show ?thesis
    by (simp add: replayFlags_def FlagPacked_def FlagCompressed_def FlagEncrypted_def FlagReplicaApplied_def
        FlagHasTTL_def bit.conj_disj_distrib2)
qed

lemma replayIndexEntry_live [simp]: "\<not> IsTombstone (replayIndexEntry e)" "\<not> IsTombstone (installedEntry d kvSep e)"
  using replayFlags_live [of e]
  by (simp_all add: IsTombstone_def hasFlag_def FlagTombstone_def replayIndexEntry_def installedEntry_def)

lemma replayStep_index:
  assumes "direct kvSep hasVL e" "diskForShard (shardFor (rKey e)) n = d"
  shows "rsIndex (replayStep io d n kvSep hasVL nowR e rs) =
    (if rIsTombstone e
     then replayTombstoneRecord (rKey e) (recordTs e) (of_nat (rXflags e) AND FlagReplicaApplied) (rsIndex rs)
     else if expiredAt nowR e
     then replayMarkTombstone (rKey e) (recordTs e) (rsIndex rs)
     else replayPut (rKey e) (installedEntry d kvSep e) (if kvSep then None else Some (rValue e)) (rsIndex rs))"
proof -
  have "rsIndex (if rVersion e > rsMaxVersion rs then rs\<lparr>rsMaxVersion := rVersion e\<rparr> else rs) = rsIndex rs"
    by simp
  then show ?thesis
    using assms by (cases "rIsTombstone e"; cases kvSep)
      (auto simp: replayStep_def Let_def direct_def recordTs_def installedEntry_def expiredAt_def)
qed

lemma replayStep_other:
  "diskForShard (shardFor (rKey e)) n \<noteq> d \<Longrightarrow> replayStep io d n kvSep hasVL nowR e rs = rs"
  by (simp add: replayStep_def)

lemma installedEntry_hash [simp]:
  "(installedEntry d kvSep e)\<lparr>ieKeyHash := fnv64a (rKey e)\<rparr> = installedEntry d kvSep e"
  by (simp add: installedEntry_def replayIndexEntry_def)

lemma replayStep_direct:
  assumes "direct kvSep hasVL e"
  shows "lookup (rsIndex (replayStep io d n kvSep hasVL nowR e rs)) =
      (if diskForShard (shardFor (rKey e)) n = d
       then (lookup (rsIndex rs))(rKey e := keyStep d kvSep nowR (replayInOrder (rsIndex rs)) e
              (lookup (rsIndex rs) (rKey e)))
       else lookup (rsIndex rs))"
    "replayInOrder (rsIndex (replayStep io d n kvSep hasVL nowR e rs)) = replayInOrder (rsIndex rs)"
    "rsPending (replayStep io d n kvSep hasVL nowR e rs) = rsPending rs"
proof -
  let ?rs = "replayStep io d n kvSep hasVL nowR e rs"
  show "lookup (rsIndex ?rs) =
      (if diskForShard (shardFor (rKey e)) n = d
       then (lookup (rsIndex rs))(rKey e := keyStep d kvSep nowR (replayInOrder (rsIndex rs)) e
              (lookup (rsIndex rs) (rKey e)))
       else lookup (rsIndex rs))"
  proof (cases "diskForShard (shardFor (rKey e)) n = d")
    case True
    note i = replayStep_index [OF assms True]
    have id: "lookup (rsIndex rs) = (lookup (rsIndex rs))(rKey e := lookup (rsIndex rs) (rKey e))"
      by simp
    show ?thesis
      unfolding i keyStep_def using True
      by (cases "lookup (rsIndex rs) (rKey e)")
        (auto simp: lookup_replayTombstoneRecord lookup_replayMarkTombstone lookup_replayPut
          simp del: fun_upd_triv intro: id)
  qed (simp add: replayStep_other)
  show "replayInOrder (rsIndex ?rs) = replayInOrder (rsIndex rs)"
    by (cases "diskForShard (shardFor (rKey e)) n = d")
      (simp_all add: replayStep_index [OF assms] replayStep_other frame)
  show "rsPending ?rs = rsPending rs"
    using assms by (cases "rIsTombstone e"; cases kvSep) (auto simp: replayStep_def Let_def direct_def)
qed

text \<open>Records of other keys, legacy records included, do not touch a key.\<close>

lemma replayStep_elsewhere:
  assumes "rKey e \<noteq> k"
  shows "lookup (rsIndex (replayStep io d n kvSep hasVL nowR e rs)) k = lookup (rsIndex rs) k"
    "replayInOrder (rsIndex (replayStep io d n kvSep hasVL nowR e rs)) = replayInOrder (rsIndex rs)"
    "k \<notin> fst ` set (rsPending rs) \<Longrightarrow> k \<notin> fst ` set (rsPending (replayStep io d n kvSep hasVL nowR e rs))"
proof -
  have r: "rsIndex (reappend io d e x rs') = rsIndex rs'"
    "k \<notin> fst ` set (rsPending rs') \<Longrightarrow> k \<notin> fst ` set (rsPending (reappend io d e x rs'))" for x rs'
    using assms by (auto simp: reappend_def Let_def split: option.splits)
  have m: "lookup (replayMarkTombstone (rKey e) t si) k = lookup si k" for t si
    using assms by (simp add: lookup_replayMarkTombstone split: option.splits)
  show "lookup (rsIndex (replayStep io d n kvSep hasVL nowR e rs)) k = lookup (rsIndex rs) k"
    using assms by (simp add: replayStep_def Let_def r m lookup_replayTombstoneRecord lookup_replayPut)
  show "replayInOrder (rsIndex (replayStep io d n kvSep hasVL nowR e rs)) = replayInOrder (rsIndex rs)"
    by (simp add: replayStep_def Let_def r frame)
  show "k \<notin> fst ` set (rsPending (replayStep io d n kvSep hasVL nowR e rs))" if "k \<notin> fst ` set (rsPending rs)"
    using that by (simp add: replayStep_def Let_def r(2))
qed

lemma replay_fold:
  "\<forall>e \<in> set es. rKey e = k \<longrightarrow> direct kvSep hasVL e \<Longrightarrow> k \<notin> fst ` set (rsPending rs) \<Longrightarrow>
   lookup (rsIndex (fold (replayStep io d n kvSep hasVL nowR) es rs)) k =
      (if diskForShard (shardFor k) n = d
       then fold (keyStep d kvSep nowR (replayInOrder (rsIndex rs))) (filter (\<lambda>e. rKey e = k) es)
              (lookup (rsIndex rs) k)
       else lookup (rsIndex rs) k) \<and>
   k \<notin> fst ` set (rsPending (fold (replayStep io d n kvSep hasVL nowR) es rs))"
proof (induction es arbitrary: rs)
  case (Cons e es)
  let ?rs = "replayStep io d n kvSep hasVL nowR e rs"
  show ?case
  proof (cases "rKey e = k")
    case True
    then have "direct kvSep hasVL e" using Cons.prems(1) by simp
    note st = replayStep_direct [OF this, of io d n nowR rs]
    show ?thesis
      using Cons.IH [of ?rs] Cons.prems True by (auto simp: st)
  next
    case False
    note st = replayStep_elsewhere [OF False, where io = io and d = d and n = n and kvSep = kvSep
        and hasVL = hasVL and nowR = nowR and rs = rs]
    show ?thesis
      using Cons.IH [of ?rs] Cons.prems False st(3) by (simp add: st(1,2))
  qed
qed simp

lemma collectPending_elsewhere: "k \<notin> fst ` set ps \<Longrightarrow> lookup (collectPending io ps si) k = lookup si k"
  by (induction io ps si rule: collectPending.induct) (auto simp: lookup_replayPut)

lemma applyWALReplay_lookup:
  assumes "\<forall>e \<in> set es. rKey e = k \<longrightarrow> direct kvSep hasVL e" "diskForShard (shardFor k) n = d"
  shows "lookup (snd (applyWALReplay io d n kvSep hasVL now es si)) k =
    fold (keyStep d kvSep (replayNowUs now si) (replayInOrder si)) (filter (\<lambda>e. rKey e = k) es) (lookup si k)"
  using replay_fold [OF assms(1), where rs = "\<lparr>rsMaxVersion = 0, rsIndex = si, rsPending = [], rsAppends = 0\<rparr>"
      and io = io and d = d and n = n and nowR = "replayNowUs now si"] assms(2)
  by (simp add: applyWALReplay_def Let_def collectPending_elsewhere)

lemma keyStep_ts:
  assumes "keyStep d kvSep nowR inOrder e old = Some e1"
  shows "ieWriteTimestampUs e1 = recordTs e \<or> old = Some e1"
  using assms by (auto simp: keyStep_def split: if_splits)

lemma keySteps_ts: "fold (keyStep d kvSep nowR inOrder) es None = Some e0 \<Longrightarrow>
    ieWriteTimestampUs e0 \<in> recordTs ` set es"
proof (induction es arbitrary: e0 rule: rev_induct)
  case (snoc e es)
  then have "keyStep d kvSep nowR inOrder e (fold (keyStep d kvSep nowR inOrder) es None) = Some e0"
    by simp
  from keyStep_ts [OF this] show ?case
    using snoc.IH by auto
qed simp

lemma keySteps_last:
  assumes "inOrder \<or> (\<forall>e \<in> set es. recordTs e \<le> recordTs r)"
  shows "fold (keyStep d kvSep nowR inOrder) (es @ [r]) None =
    (if rIsTombstone r
     then Some (tombstoneFor (rKey r) (recordTs r) (of_nat (rXflags r) AND FlagReplicaApplied)
            (fold (keyStep d kvSep nowR inOrder) es None))
     else if expiredAt nowR r
     then map_option (MarkTombstone (recordTs r)) (fold (keyStep d kvSep nowR inOrder) es None)
     else Some (installedEntry d kvSep r))"
proof -
  have "\<not> ieWriteTimestampUs e0 > recordTs r"
    if "\<not> inOrder" "fold (keyStep d kvSep nowR inOrder) es None = Some e0" for e0
    using keySteps_ts [OF that(2)] that(1) assms by (auto simp: not_less)
  then show ?thesis
    by (auto simp: keyStep_def)
qed

text \<open>
  C9: after replay a key is what its last record says: the put with its
  location, sizes, checksum, flags and deadline, or dead when the record is a delete or its
  deadline has passed. This needs the raft mode or timestamps that never step back from one
  record of the key to the next, and it needs every record of that key to be one that replay
  applies at once: a delete; with key-value separation, a record that names the place of its
  value; without it, a record with a non-empty value. The records of other keys are arbitrary.
  (A record that carries its value although values are separated is appended to the value log
  and installed after all others, and a put of an empty value without separation is skipped.)
\<close>

theorem replay_last_record_wins:
  assumes "\<forall>e \<in> set es. rKey e = k \<longrightarrow> direct kvSep hasVL e" "diskForShard (shardFor k) n = d"
    and "lookup si k = None"
    and "filter (\<lambda>e. rKey e = k) es = rs @ [r]" "replayInOrder si \<or> sorted (map recordTs (rs @ [r]))"
  shows "(rIsTombstone r \<or> expiredAt (replayNowUs now si) r \<longrightarrow>
      k \<notin> liveKeys (snd (applyWALReplay io d n kvSep hasVL now es si))) \<and>
    (\<not> rIsTombstone r \<and> \<not> expiredAt (replayNowUs now si) r \<longrightarrow>
      lookup (snd (applyWALReplay io d n kvSep hasVL now es si)) k = Some (installedEntry d kvSep r))"
proof -
  have "replayInOrder si \<or> (\<forall>e \<in> set rs. recordTs e \<le> recordTs r)"
    using assms(5) by (auto simp: sorted_append)
  from keySteps_last [OF this, of d kvSep "replayNowUs now si"] applyWALReplay_lookup [OF assms(1,2), of io now si]
  show ?thesis
    using assms(3,4) by (auto simp: live_def split: if_splits option.splits)
qed

definition exampleRecord :: "int \<Rightarrow> bool \<Rightarrow> walReplayEntry" where
  "exampleRecord ts tomb = \<lparr>rKey = [1], rValue = [], rIsTombstone = tomb, rVersion = 1, rTimestampNs = ts,
     rCrc = 0, rValueLen = 3, rVLogOffset = 4096, rPacked = False, rDiskLen = 3, rXflags = 0, rTTLExpiryUs = 0\<rparr>"

definition noIO :: replayIO where
  "noIO = \<lparr>ioTransform = (\<lambda>v. Some (v, 0)), ioAppend = (\<lambda>_. None), ioSynced = (\<lambda>_. False)\<rparr>"

lemma lookup_new [simp]: "lookup newShardedIndex k = None"
  by (simp add: lookup_def newShardedIndex_def newIndexShard_def)

theorem replay_last_record_wins_witness:
  "lookup (snd (applyWALReplay noIO 0 1 True True 9 [exampleRecord 1000 True, exampleRecord 2000 False]
      newShardedIndex)) [1] = Some (installedEntry 0 True (exampleRecord 2000 False))"
proof -
  let ?es = "[exampleRecord 1000 True, exampleRecord 2000 False]"
  have "\<forall>e \<in> set ?es. rKey e = [1] \<longrightarrow> direct True True e" by (simp add: direct_def exampleRecord_def)
  moreover have "filter (\<lambda>e. rKey e = [1]) ?es = [exampleRecord 1000 True] @ [exampleRecord 2000 False]"
    by (simp add: exampleRecord_def)
  moreover have "sorted (map recordTs ([exampleRecord 1000 True] @ [exampleRecord 2000 False]))"
    by (simp add: recordTs_def exampleRecord_def goQuot_def)
  ultimately show ?thesis
    using replay_last_record_wins [of ?es "[1]" True True 1 0 newShardedIndex "[exampleRecord 1000 True]"
        "exampleRecord 2000 False" 9 noIO]
    by (simp add: diskForShard_def expiredAt_def) (simp add: exampleRecord_def)
qed

text \<open>
  C34: outside the raft mode replay keeps the record with the larger timestamp.
  When the clock stepped back between two acknowledged puts of a key, the later one, with the
  higher version, is dropped and the earlier value is back after the restart.
\<close>

theorem replay_clock_step:
  assumes "direct kvSep hasVL r1" "direct kvSep hasVL r2" "rKey r1 = k" "rKey r2 = k"
    and "diskForShard (shardFor k) n = d" "lookup si k = None" "\<not> replayInOrder si"
    and "\<not> rIsTombstone r1" "\<not> expiredAt (replayNowUs now si) r1" "recordTs r2 < recordTs r1"
  shows "lookup (snd (applyWALReplay io d n kvSep hasVL now [r1, r2] si)) k = Some (installedEntry d kvSep r1)"
proof -
  have "\<forall>e \<in> set [r1, r2]. rKey e = k \<longrightarrow> direct kvSep hasVL e" using assms by simp
  from applyWALReplay_lookup [OF this assms(5), of io now si] show ?thesis
    using assms by (simp add: keyStep_def)
qed

theorem replay_clock_step_witness:
  "lookup (snd (applyWALReplay noIO 0 1 True True 9
      [exampleRecord 2000 False, (exampleRecord 1000 False)\<lparr>rVersion := 2, rVLogOffset := 8192\<rparr>]
      newShardedIndex)) [1] = Some (installedEntry 0 True (exampleRecord 2000 False))"
  by (rule replay_clock_step)
    (simp_all add: direct_def exampleRecord_def diskForShard_def expiredAt_def recordTs_def goQuot_def
      newShardedIndex_def lookup_def newIndexShard_def)

section \<open>A checkpoint restores the index\<close>

lemma checkpointEntry_key: "checkpointEntry kvSep v noTTL keep now k e dirty = Some w \<Longrightarrow> wKey w = k"
  by (auto simp: checkpointEntry_def Let_def zeroWAL_def split: if_splits option.splits)

lemma in_map_filter: "w \<in> set (List.map_filter f xs) \<longleftrightarrow> (\<exists>x \<in> set xs. f x = Some w)"
  by (induction xs) (auto simp: List.map_filter_simps split: option.splits)

lemma map_filter_key:
  assumes "distinct (map fst xs)" "\<And>k e w. f k e = Some w \<Longrightarrow> wKey w = k"
  shows "filter (\<lambda>w. wKey w = k) (List.map_filter (\<lambda>(k, e). f k e) xs) =
    (case map_of xs k of None \<Rightarrow> [] | Some e \<Rightarrow> (case f k e of None \<Rightarrow> [] | Some w \<Rightarrow> [w]))"
  using assms(1)
proof (induction xs)
  case (Cons x xs)
  obtain k' e where x: "x = (k', e)" by fastforce
  have none: "map_of xs k' = None" using Cons.prems x by (simp add: map_of_eq_None_iff)
  show ?case
  proof (cases "f k' e")
    case None
    then show ?thesis using Cons x none by (auto simp: List.map_filter_simps)
  next
    case (Some w)
    then show ?thesis using Cons x none assms(2) [OF Some] by (auto simp: List.map_filter_simps)
  qed
qed (simp add: List.map_filter_simps)

lemma distinct_shardsFrom: "distinct (shardsFrom i n)"
proof (induction i n rule: shardsFrom.induct)
  case (1 i n)
  show ?case
  proof (cases "n = 0 \<or> numShards \<le> i")
    case True
    then show ?thesis by (auto simp: shardsFrom.simps [of i n])
  next
    case False
    then show ?thesis
      using 1 set_shardsFrom [of n "i + n"] by (simp add: shardsFrom.simps [of i n])
  qed
qed

lemma distinct_scan:
  assumes "shapeOk si" "distinct is"
  shows "distinct (map fst (scanEntries is si))"
  using assms(2)
proof (induction "is")
  case (Cons i "is")
  have t: "tableOk j (entries (shards si j))" for j using assms(1) by (simp add: shapeOk_def)
  have sf: "shardFor k = j" if "(k, e) \<in> set (entries (shards si j))" for k e j
    using t [of j] that by (force simp: tableOk_def)
  have "fst ` set (entries (shards si i)) \<inter> fst ` set (scanEntries is si) = {}"
    using Cons.prems by (auto simp: scanEntries_def dest!: sf)
  then show ?case
    using Cons t [of i] by (auto simp: scanEntries_def tableOk_def)
qed (simp add: scanEntries_def)

lemma map_of_scan:
  assumes "shapeOk si" "d < n" "diskForShard (shardFor k) n = d"
  shows "map_of (scanEntries (shardsFrom d n) si) k = lookup si k"
proof -
  have "map_of (scanEntries (shardsFrom d n) si) k = Some e \<longleftrightarrow> lookup si k = Some e" for e
    using assms distinct_scan [OF assms(1) distinct_shardsFrom] shardFor_less
    by (simp add: map_of_eq_Some_iff scanEntries_iff shardsFrom_disk)
  then show ?thesis by (metis not_None_eq)
qed

text \<open>The entries a node has: sizes, offsets and times within their widths.\<close>

definition entryFits :: "bytes \<Rightarrow> IndexEntry \<Rightarrow> bool" where
  "entryFits k e \<longleftrightarrow> length k \<le> walMaxRecordField \<and> 0 < ieDiskOffset e \<and> ieDiskOffset e < 2 ^ 63 \<and>
     ieValueSize e < 2 ^ 32 \<and> ieUncompressedSize e < 2 ^ 32 \<and> ieCRC32C e < 2 ^ 32 \<and>
     0 < ieWriteTimestampUs e \<and> ieWriteTimestampUs e * 1000 < 2 ^ 63 \<and> ieTTLExpiryUs e < 2 ^ 63 \<and>
     (ieValueSize e = 0 \<longrightarrow> ieUncompressedSize e = 0)"

text \<open>A tombstone has no value any more: only its time and its key matter.\<close>

definition storedFits :: "bytes \<Rightarrow> IndexEntry \<Rightarrow> bool" where
  "storedFits k e \<longleftrightarrow> (if IsTombstone e
     then length k \<le> walMaxRecordField \<and> ieWriteTimestampUs e * 1000 < 2 ^ 63 else entryFits k e)"

lemma keptFlags_less: "keptFlags e m < 256"
  using unsigned_less [of "ieFlags e AND m"] by (simp add: keptFlags_def)

lemma entryFits_ts: "entryFits k e \<Longrightarrow> int64 (ieWriteTimestampUs e * 1000) = ieWriteTimestampUs e * 1000"
  by (rule int64_id) (simp add: entryFits_def inInt64_def)

lemma checkpointEntry_ok:
  assumes w: "checkpointEntry True v noTTL keep now k e dirty = Some w" and f: "storedFits k e" and v: "v < 2 ^ 64"
  shows "walOk w"
proof (cases "IsTombstone e")
  case True
  then have "int64 (ieWriteTimestampUs e * 1000) = ieWriteTimestampUs e * 1000" if "ieWriteTimestampUs e > 0"
    using f that by (intro int64_id) (simp add: storedFits_def inInt64_def)
  then show ?thesis
    using w f v True keptFlags_less
    by (auto simp: checkpointEntry_def Let_def zeroWAL_def storedFits_def walOk_def inInt64_def inlineValue_def
        split: if_splits)
next
  case False
  then have "entryFits k e" using f by (simp add: storedFits_def)
  then show ?thesis
    using w v False keptFlags_less
    by (auto simp: checkpointEntry_def Let_def zeroWAL_def entryFits_ts entryFits_def walOk_def inInt64_def
        inlineValue_def split: if_splits)
qed

text \<open>What a read uses of an entry.\<close>

definition sameRecord :: "IndexEntry \<Rightarrow> IndexEntry \<Rightarrow> bool" where
  "sameRecord e e' \<longleftrightarrow> ieDiskOffset e' = ieDiskOffset e \<and> ieValueSize e' = ieValueSize e \<and>
     ieCRC32C e' = ieCRC32C e \<and> ieWriteTimestampUs e' = ieWriteTimestampUs e \<and>
     CacheExpiryUs e' = CacheExpiryUs e \<and> IsPacked e' = IsPacked e \<and>
     hasFlag FlagCompressed e' = hasFlag FlagCompressed e \<and>
     hasFlag FlagEncrypted e' = hasFlag FlagEncrypted e \<and>
     (0 < ieUncompressedSize e \<longrightarrow> ieUncompressedSize e' = ieUncompressedSize e)"

lemma hasFlag_or: "hasFlag f (e\<lparr>ieFlags := a OR b\<rparr>) \<longleftrightarrow> a AND f \<noteq> 0 \<or> b AND f \<noteq> 0"
  by (auto simp: hasFlag_def bit.conj_disj_distrib2 or_eq_0_iff)

lemma checkpointEntry_same:
  assumes w: "checkpointEntry True v noTTL keep now k e dirty = Some w" and f: "entryFits k e"
    and t: "\<not> IsTombstone e"
  shows "sameRecord e (installedEntry d True (replayedEntry w))"
proof -
  let ?m = "FlagCompressed OR FlagEncrypted OR FlagReplicaApplied"
  have kept: "of_nat (keptFlags e ?m) = ieFlags e AND ?m" by (simp add: keptFlags_def)
  have w': "w = (zeroWAL k v)\<lparr>wTimestamp := ieWriteTimestampUs e * 1000,
      wTTLExpiryUs := (if HasTTL e \<and> ieTTLExpiryUs e > 0 then ieTTLExpiryUs e else 0),
      wValueLen := (if ieUncompressedSize e = 0 then ieValueSize e else ieUncompressedSize e),
      wChecksum := ieCRC32C e, wVLogOffset := int (ieDiskOffset e), wPacked := IsPacked e,
      wDiskValueLen := ieValueSize e, wXformFlags := keptFlags e ?m\<rparr>"
    using w f t by (auto simp: checkpointEntry_def Let_def entryFits_ts [OF f] entryFits_def split: if_splits)
  have fl: "ieFlags (installedEntry d True (replayedEntry w)) = (if IsPacked e then FlagPacked else 0) OR
      ((ieFlags e AND ?m) AND ?m) OR (if HasTTL e \<and> ieTTLExpiryUs e > 0 then FlagHasTTL else 0)"
    by (simp add: installedEntry_def replayIndexEntry_def replayFlags_def replayedEntry_def w' kept zeroWAL_def)
  have bits: "hasFlag FlagPacked (installedEntry d True (replayedEntry w)) = IsPacked e"
    "hasFlag FlagCompressed (installedEntry d True (replayedEntry w)) = hasFlag FlagCompressed e"
    "hasFlag FlagEncrypted (installedEntry d True (replayedEntry w)) = hasFlag FlagEncrypted e"
    "hasFlag FlagHasTTL (installedEntry d True (replayedEntry w)) \<longleftrightarrow> HasTTL e \<and> ieTTLExpiryUs e > 0"
    unfolding hasFlag_def fl
    by (simp_all add: bit.conj_disj_distrib2 or_eq_0_iff and.assoc FlagPacked_def FlagCompressed_def
        FlagEncrypted_def FlagReplicaApplied_def FlagHasTTL_def)
  have fields: "ieDiskOffset (installedEntry d True (replayedEntry w)) = ieDiskOffset e"
    "ieValueSize (installedEntry d True (replayedEntry w)) = ieValueSize e"
    "ieCRC32C (installedEntry d True (replayedEntry w)) = ieCRC32C e"
    "ieWriteTimestampUs (installedEntry d True (replayedEntry w)) = ieWriteTimestampUs e"
    "ieTTLExpiryUs (installedEntry d True (replayedEntry w)) =
       (if HasTTL e \<and> ieTTLExpiryUs e > 0 then ieTTLExpiryUs e else 0)"
    "0 < ieUncompressedSize e \<Longrightarrow> ieUncompressedSize (installedEntry d True (replayedEntry w)) = ieUncompressedSize e"
    using f by (simp_all add: installedEntry_def replayIndexEntry_def replayedEntry_def w' zeroWAL_def
        diskLenOf_def entryFits_def)
  show ?thesis
    unfolding sameRecord_def CacheExpiryUs_def HasTTL_def [of "installedEntry d True (replayedEntry w)"]
      IsPacked_def [of "installedEntry d True (replayedEntry w)"] bits fields
    using fields(6) by simp
qed

lemma checkpoint_bytes:
  assumes "\<forall>w \<in> set ws. walOk w"
  shows "replayWAL (concat (map (\<lambda>e. appendWALRecordEnc [] e False noTTL) ws)) = map replayedEntry ws"
proof -
  have "concat (map (\<lambda>e. appendWALRecordEnc [] e False noTTL) ws) = fileBytes (map (Pair False) ws)"
    by (simp add: fileBytes_def recordBytes_def appendWALRecordEnc_def comp_def)
  moreover have "\<forall>r \<in> set (map (Pair False) ws). recordOk r"
    using assms by (auto simp: recordOk_def)
  ultimately show ?thesis
    using replayWAL_file [of "map (Pair False) ws" "[]"] by (simp add: comp_def)
qed

lemma checkpointRecords_ok:
  assumes "shapeOk si" "v < 2 ^ 64" "\<forall>k e. lookup si k = Some e \<longrightarrow> storedFits k e"
  shows "\<forall>w \<in> set (checkpointRecords True v noTTL keep now d n si). walOk w"
proof
  fix w assume "w \<in> set (checkpointRecords True v noTTL keep now d n si)"
  then obtain k e where "(k, e) \<in> set (scanEntries (shardsFrom d n) si)"
      "checkpointEntry True v noTTL keep now k e (dirtyOf si k) = Some w"
    by (auto simp: checkpointRecords_def in_map_filter)
  then show "walOk w"
    using assms scanEntries_iff [OF assms(1)] checkpointEntry_ok by blast
qed

lemma checkpointEntry_direct:
  "checkpointEntry True v noTTL keep now k e dirty = Some w \<Longrightarrow> IsTombstone e \<or> 0 < ieDiskOffset e \<Longrightarrow>
   direct True True (replayedEntry w)"
  by (auto simp: checkpointEntry_def Let_def direct_def replayedEntry_def split: if_splits)

lemma checkpoint_replayed:
  assumes "shapeOk si" "v < 2 ^ 64" "\<forall>k e. lookup si k = Some e \<longrightarrow> storedFits k e" "d < n"
    and "diskForShard (shardFor k) n = d" "lookup si0 k = None"
  shows "lookup (snd (applyWALReplay io d n True True now' (replayWAL (writeCheckpointRecords True v
      False noTTL keep now d n [] si)) si0)) k =
    (case lookup si k of None \<Rightarrow> None
     | Some e \<Rightarrow> (case checkpointEntry True v noTTL keep now k e (dirtyOf si k) of None \<Rightarrow> None
        | Some w \<Rightarrow> keyStep d True (replayNowUs now' si0) (replayInOrder si0) (replayedEntry w) None))"
proof -
  let ?ws = "checkpointRecords True v noTTL keep now d n si"
  have ok: "\<forall>w \<in> set ?ws. walOk w"
    by (rule checkpointRecords_ok [OF assms(1-3)])
  have rp: "replayWAL (writeCheckpointRecords True v False noTTL keep now d n [] si) = map replayedEntry ?ws"
    using checkpoint_bytes [OF ok] by (simp add: writeCheckpointRecords_def)
  have dir: "\<forall>e \<in> set (map replayedEntry ?ws). rKey e = k \<longrightarrow> direct True True e"
  proof (intro ballI impI)
    fix r assume "r \<in> set (map replayedEntry ?ws)"
    then obtain k e w where "(k, e) \<in> set (scanEntries (shardsFrom d n) si)" "r = replayedEntry w"
        "checkpointEntry True v noTTL keep now k e (dirtyOf si k) = Some w"
      by (auto simp: checkpointRecords_def in_map_filter)
    then show "direct True True r"
      using assms(3) scanEntries_iff [OF assms(1)] checkpointEntry_direct
      by (fastforce simp: storedFits_def entryFits_def split: if_splits)
  qed
  have "filter (\<lambda>e. rKey e = k) (map replayedEntry ?ws) = map replayedEntry (filter (\<lambda>w. wKey w = k) ?ws)"
    by (simp add: filter_map comp_def replayedEntry_def)
  also have "filter (\<lambda>w. wKey w = k) ?ws = (case lookup si k of None \<Rightarrow> []
      | Some e \<Rightarrow> (case checkpointEntry True v noTTL keep now k e (dirtyOf si k) of None \<Rightarrow> [] | Some w \<Rightarrow> [w]))"
    unfolding checkpointRecords_def
    by (subst map_filter_key [OF distinct_scan [OF assms(1) distinct_shardsFrom]])
      (simp_all add: checkpointEntry_key map_of_scan [OF assms(1,4,5)])
  finally show ?thesis
    using applyWALReplay_lookup [OF dir assms(5), of io now' si0] assms(6)
    by (simp add: rp split: option.splits)
qed

text \<open>A live entry is left out exactly when it is expired; its record expires when the entry does.\<close>

lemma checkpointEntry_expiry:
  assumes "\<not> IsTombstone e" "entryFits k e"
  shows "checkpointEntry True v False keep now k e dirty = None \<longleftrightarrow> IsExpired (goQuot now 1000) e"
    and "checkpointEntry True v False keep now k e dirty = Some w \<Longrightarrow> \<not> wIsTombstone w"
    and "checkpointEntry True v False keep now k e dirty = Some w \<Longrightarrow> expiredAt t (replayedEntry w) \<longleftrightarrow> IsExpired t e"
proof -
  show "checkpointEntry True v False keep now k e dirty = None \<longleftrightarrow> IsExpired (goQuot now 1000) e"
    using assms by (auto simp: checkpointEntry_def Let_def entryFits_def)
  assume w: "checkpointEntry True v False keep now k e dirty = Some w"
  have "\<not> wIsTombstone w \<and> rTTLExpiryUs (replayedEntry w) = CacheExpiryUs e"
    using w assms by (auto simp: checkpointEntry_def Let_def zeroWAL_def replayedEntry_def CacheExpiryUs_def
        entryFits_def split: if_splits)
  then show "\<not> wIsTombstone w" "expiredAt t (replayedEntry w) \<longleftrightarrow> IsExpired t e"
    by (auto simp: expiredAt_def IsExpired_def CacheExpiryUs_def)
qed


text \<open>An index with one live and one deleted key.\<close>

definition exampleIndex :: shardedIndex where
  "exampleIndex = snd (markTombstone [2] 8 (put_entry [2] (exampleEntryIE\<lparr>ieDiskOffset := 8192, ieUncompressedSize := 5\<rparr>) None
     (put_entry [1] (exampleEntryIE\<lparr>ieDiskOffset := 4096\<rparr>) None newShardedIndex)))"

lemma exampleIndex_ok: "indexOk exampleIndex"
  unfolding exampleIndex_def
  by (intro markTombstone_ok put_ok newShardedIndex_ok)
    (simp_all add: IsTombstone_def hasFlag_def exampleEntryIE_def zeroEntry_def)

lemma exampleIndex_lookup:
  "lookup exampleIndex = [[1] \<mapsto> exampleEntryIE\<lparr>ieDiskOffset := 4096, ieKeyHash := fnv64a [1]\<rparr>,
     [2] \<mapsto> MarkTombstone 8 (exampleEntryIE\<lparr>ieDiskOffset := 8192, ieUncompressedSize := 5, ieKeyHash := fnv64a [2]\<rparr>)]"
  by (auto simp: exampleIndex_def lookup_markTombstone fun_eq_iff)

lemma exampleIndex_fits: "lookup exampleIndex k = Some e \<Longrightarrow> storedFits k e"
  by (auto simp: exampleIndex_lookup storedFits_def entryFits_def walMaxRecordField_def split: if_splits)
    (simp_all add: exampleEntryIE_def zeroEntry_def)


lemma dirtyOf_replayPut_new:
  "lookup si k = None \<Longrightarrow> dirtyOf (replayPut k e (Some v) si) = (dirtyOf si)(k \<mapsto> v)"
  by (simp add: replayPut_def Let_def tget_lookup put_install_view frame)

text \<open>
  C35: without key-value separation a put of an empty value writes a
  record that replay ignores. After a restart the key has the value of the put before, which
  the acknowledged write replaced.
\<close>

theorem replay_drops_empty_value:
  assumes "\<not> wIsTombstone w1" "wValue w1 \<noteq> []" "wVLogOffset w1 = 0" "wTTLExpiryUs w1 = 0" "wKey w1 = k"
    and "\<not> wIsTombstone w2" "wValue w2 = []" "wTTLExpiryUs w2 = 0" "wKey w2 = k"
    and "diskForShard (shardFor k) n = d" "lookup si k = None"
  shows "lookup (snd (applyWALReplay io d n False hasVL now [replayedEntry w1, replayedEntry w2] si)) k =
      Some (installedEntry d False (replayedEntry w1)) \<and>
    dirtyOf (snd (applyWALReplay io d n False hasVL now [replayedEntry w1, replayedEntry w2] si)) k =
      Some (wValue w1)"
proof -
  let ?rs = "\<lparr>rsMaxVersion = 0, rsIndex = si, rsPending = [], rsAppends = 0\<rparr>"
  let ?s = "replayStep io d n False hasVL (replayNowUs now si)"
  have f1: "rKey (replayedEntry w1) = k" "rValue (replayedEntry w1) = wValue w1" "\<not> rIsTombstone (replayedEntry w1)"
      "rTTLExpiryUs (replayedEntry w1) = 0"
    and f2: "rKey (replayedEntry w2) = k" "rValue (replayedEntry w2) = []" "\<not> rIsTombstone (replayedEntry w2)"
      "rTTLExpiryUs (replayedEntry w2) = 0"
    using assms by (simp_all add: replayedEntry_def inlineValue_def)
  have skip: "rsIndex (?s (replayedEntry w2) rs) = rsIndex rs \<and>
      rsPending (?s (replayedEntry w2) rs) = rsPending rs" for rs
    using f2 by (simp add: replayStep_def Let_def)
  have "direct False hasVL (replayedEntry w1)"
    using f1 assms(2) by (simp add: direct_def)
  note st = replayStep_index [OF this, of n d io "replayNowUs now si" ?rs]
    replayStep_direct(3) [OF this, of io d n "replayNowUs now si" ?rs]
  have "snd (applyWALReplay io d n False hasVL now [replayedEntry w1, replayedEntry w2] si) =
      replayPut k (installedEntry d False (replayedEntry w1)) (Some (wValue w1)) si"
    using st skip f1 assms(10) by (simp add: applyWALReplay_def Let_def expiredAt_def)
  then show ?thesis
    using assms(11) installedEntry_hash [where e = "replayedEntry w1" and d = d and kvSep = False] f1(1)
    by (simp add: lookup_replayPut dirtyOf_replayPut_new)
qed

theorem replay_drops_empty_value_witness:
  "dirtyOf (snd (applyWALReplay noIO 0 1 False False 9
     [replayedEntry ((zeroWAL [1] 1)\<lparr>wValue := [7], wValueLen := 1\<rparr>), replayedEntry (zeroWAL [1] 2)]
     newShardedIndex)) [1] = Some [7]"
  using replay_drops_empty_value [of "(zeroWAL [1] 1)\<lparr>wValue := [7], wValueLen := 1\<rparr>" "[1]" "zeroWAL [1] 2" 1 0
      newShardedIndex noIO False 9]
  by (simp add: zeroWAL_def diskForShard_def)

section \<open>Where the value log ends\<close>

lemma MarkTombstone_extent [simp]:
  "ieDiskOffset (MarkTombstone n e) = ieDiskOffset e" "ieValueSize (MarkTombstone n e) = 0"
  "IsPacked (MarkTombstone n e) = IsPacked e"
proof -
  have "((x AND NOT 16) OR 1) AND 64 = x AND (64 :: byte)" for x
    by (simp add: bit.conj_disj_distrib2 and.assoc)
  then show "IsPacked (MarkTombstone n e) = IsPacked e"
    by (simp add: IsPacked_def hasFlag_def MarkTombstone_def FlagPacked_def FlagTombstone_def
        FlagReplicaApplied_def)
qed (simp_all add: MarkTombstone_def)

text \<open>An entry replay has built lies where one of the records says.\<close>

definition fromRecords :: "walReplayEntry list \<Rightarrow> IndexEntry \<Rightarrow> bool" where
  "fromRecords es e \<longleftrightarrow> (0 < ieDiskOffset e \<longrightarrow> (\<exists>r \<in> set es. 0 < rVLogOffset r \<and>
     ieDiskOffset e = nat (rVLogOffset r) \<and> ieValueSize e \<le> rDiskLen r \<and> IsPacked e = rPacked r))"

lemma recordEnd_mono:
  "off < 2 ^ 63 \<Longrightarrow> len' < 2 ^ 32 \<Longrightarrow> len \<le> len' \<Longrightarrow> recordEnd off len packed \<le> recordEnd off len' packed"
  by (auto simp: recordEnd_exact alignBlock_def intro: mult_le_mono1 div_le_mono)

lemma installedEntry_packed: "IsPacked (installedEntry d kvSep r) = rPacked r"
  by (simp add: IsPacked_def hasFlag_def installedEntry_def replayIndexEntry_def replayFlags_def
      bit.conj_disj_distrib2 or_eq_0_iff and.assoc FlagPacked_def FlagCompressed_def FlagEncrypted_def
      FlagReplicaApplied_def FlagHasTTL_def)

lemma keyStep_fromRecords:
  assumes "\<forall>e0. old = Some e0 \<longrightarrow> fromRecords es e0" "r \<in> set es" "direct True True r"
    and "keyStep d True nowR inOrder r old = Some e"
  shows "fromRecords es e"
proof -
  have fl: "ieDiskOffset (setFlag f x) = ieDiskOffset x" "ieValueSize (setFlag f x) = ieValueSize x"
    "IsPacked (setFlag FlagReplicaApplied x) = IsPacked x" for f x
    by (simp_all add: setFlag_def IsPacked_def hasFlag_def FlagPacked_def FlagReplicaApplied_def bit.conj_disj_distrib2)
  have "fromRecords es (tombstoneFor k t o' old)" for k t o'
    using assms(1) by (auto simp: tombstoneFor_def fromRecords_def fl zeroEntry_def split: option.splits)
  moreover have "fromRecords es (MarkTombstone t e0)" if "old = Some e0" for t e0
    using assms(1) that by (auto simp: fromRecords_def)
  moreover have "fromRecords es (installedEntry d True r)" if "\<not> rIsTombstone r"
    using assms(2,3) that installedEntry_packed [of d True r]
    by (auto simp: fromRecords_def direct_def installedEntry_def replayIndexEntry_def)
  ultimately show ?thesis
    using assms(1,4) by (auto simp: keyStep_def split: if_splits)
qed

lemma keySteps_fromRecords:
  assumes "\<forall>r \<in> set es. direct True True r" "set rs \<subseteq> set es"
    and "fold (keyStep d True nowR inOrder) rs None = Some e"
  shows "fromRecords es e"
  using assms(2,3)
proof (induction rs arbitrary: e rule: rev_induct)
  case (snoc r rs)
  then show ?case
    using assms(1) by (intro keyStep_fromRecords [of "fold (keyStep d True nowR inOrder) rs None" es r d nowR inOrder]) auto
qed simp

lemma maxVLogEndFromWAL_ge:
  assumes "r \<in> set es" "0 < rVLogOffset r" "diskForShard (shardFor (rKey r)) n = d"
  shows "recordEnd (nat (rVLogOffset r)) (rDiskLen r) (rPacked r) \<le> maxVLogEndFromWAL es d n"
proof -
  let ?f = "\<lambda>e. if rVLogOffset e \<le> 0 \<or> diskForShard (shardFor (rKey e)) n \<noteq> d then 0
    else recordEnd (nat (rVLogOffset e)) (rDiskLen e) (rPacked e)"
  have "maxVLogEndFromWAL es d n = fold (\<lambda>e acc. if ?f e > acc then ?f e else acc) es 0"
    unfolding maxVLogEndFromWAL_def by (intro fold_cong) (auto simp: fun_eq_iff Let_def)
  moreover have "?f r \<le> fold (\<lambda>e acc. if ?f e > acc then ?f e else acc) es 0"
    using fold_max_ge [of 0 ?f es] assms(1) by blast
  ultimately show ?thesis using assms(2,3) by simp
qed

lemma fold_max_le: "\<forall>x \<in> set xs. f x \<le> (b :: nat) \<Longrightarrow> m \<le> b \<Longrightarrow>
    fold (\<lambda>x acc. if f x > acc then f x else acc) xs m \<le> b"
  by (induction xs arbitrary: m) auto

text \<open>Replay keeps the invariant of the index.\<close>

definition pendingLive :: "replayState \<Rightarrow> bool" where
  "pendingLive rs \<longleftrightarrow> (\<forall>p \<in> set (rsPending rs). \<not> IsTombstone (fst (snd p)))"

lemma reappend_ok:
  assumes "indexOk (rsIndex rs)" "pendingLive rs" "\<not> IsTombstone x"
    and "\<forall>v w xf. ioTransform io v = Some (w, xf) \<longrightarrow> xf AND 1 = 0"
  shows "indexOk (rsIndex (reappend io d e x rs))" "pendingLive (reappend io d e x rs)"
  using assms setFlag_tombstone
  by (auto simp: pendingLive_def reappend_def Let_def IsTombstone_def hasFlag_def split: option.splits)

lemma replayStep_ok:
  assumes "indexOk (rsIndex rs)" "\<forall>v w xf. ioTransform io v = Some (w, xf) \<longrightarrow> xf AND 1 = 0"
    and "pendingLive rs"
  shows "indexOk (rsIndex (replayStep io d n kvSep hasVL nowR e rs)) \<and>
    pendingLive (replayStep io d n kvSep hasVL nowR e rs)"
proof -
  have "pendingLive (rs\<lparr>rsMaxVersion := a\<rparr>) = pendingLive rs"
    "pendingLive (rs\<lparr>rsMaxVersion := a, rsIndex := b\<rparr>) = pendingLive rs"
    "pendingLive (rs\<lparr>rsIndex := b\<rparr>) = pendingLive rs" for a b
    by (simp_all add: pendingLive_def)
  moreover have "\<not> IsTombstone ((replayIndexEntry e)\<lparr>ieDiskOffset := a, ieSegmentID := b\<rparr>)"
    "\<not> IsTombstone (replayIndexEntry e)" for a b
    using replayIndexEntry_live(1) [of e] by (simp_all add: IsTombstone_def hasFlag_def)
  ultimately show ?thesis
    using assms(1,3) reappend_ok [OF _ _ _ assms(2)]
    by (simp add: replayStep_def Let_def replayTombstoneRecord_ok replayMarkTombstone_ok replayPut_ok)
qed

lemma collectPending_ok:
  "indexOk si \<Longrightarrow> \<forall>p \<in> set ps. \<not> IsTombstone (fst (snd p)) \<Longrightarrow> indexOk (collectPending io ps si)"
  by (induction io ps si rule: collectPending.induct) (auto simp: replayPut_ok)

lemma applyWALReplay_ok:
  assumes "indexOk si" "\<forall>v w xf. ioTransform io v = Some (w, xf) \<longrightarrow> xf AND 1 = 0"
  shows "indexOk (snd (applyWALReplay io d n kvSep hasVL now es si))"
proof -
  have "indexOk (rsIndex rs) \<Longrightarrow> pendingLive rs \<Longrightarrow>
      indexOk (rsIndex (fold (replayStep io d n kvSep hasVL nowR) es rs)) \<and>
      pendingLive (fold (replayStep io d n kvSep hasVL nowR) es rs)" for rs nowR
    using replayStep_ok [OF _ assms(2)] by (induction es arbitrary: rs) auto
  from this [of "\<lparr>rsMaxVersion = 0, rsIndex = si, rsPending = [], rsAppends = 0\<rparr>" "replayNowUs now si"]
  show ?thesis
    using assms(1) by (simp add: applyWALReplay_def Let_def pendingLive_def collectPending_ok)
qed

text \<open>
  C28: the end of the value log read off the parsed records before the server
  accepts writes. It lies at or behind the last byte of every record of the disk that names a
  place in the value log, also of those a later record deletes or overwrites; hence of every
  record the replayed index refers to, for each key whose records are all deletes or name
  their place (\<open>direct\<close>), and, when this holds for all keys, the end computed from the
  replayed index lies at or before it. So no write that arrives during the background replay
  overwrites such a record. Records that still carry their value are appended anew during
  replay and are not covered. Offsets are below \<open>2^63\<close> and lengths below \<open>2^32\<close>, as the parser
  delivers them; the invariant of the index holds after any replay.
\<close>

theorem replay_vlog_end:
  assumes "indexOk si" "\<forall>k. lookup si k = None" "d < n"
    and "\<forall>e \<in> set es. rVLogOffset e < 2 ^ 63 \<and> rDiskLen e < 2 ^ 32"
    and "\<forall>v w xf. ioTransform io v = Some (w, xf) \<longrightarrow> xf AND 1 = 0"
  shows "indexOk (snd (applyWALReplay io d n True True now es si)) \<and>
    (\<forall>r \<in> set es. 0 < rVLogOffset r \<longrightarrow> diskForShard (shardFor (rKey r)) n = d \<longrightarrow>
       nat (rVLogOffset r) + vlogHeaderBytes + rDiskLen r \<le> maxVLogEndFromWAL es d n) \<and>
    (\<forall>k e. lookup (snd (applyWALReplay io d n True True now es si)) k = Some e \<longrightarrow>
       diskForShard (shardFor k) n = d \<longrightarrow> (\<forall>r \<in> set es. rKey r = k \<longrightarrow> direct True True r) \<longrightarrow> 0 < ieDiskOffset e \<longrightarrow>
       ieDiskOffset e + vlogHeaderBytes + ieValueSize e \<le> maxVLogEndFromWAL es d n) \<and>
    ((\<forall>r \<in> set es. direct True True r) \<longrightarrow>
       maxVLogEndOffset d n (snd (applyWALReplay io d n True True now es si)) \<le> maxVLogEndFromWAL es d n)"
proof -
  let ?si = "snd (applyWALReplay io d n True True now es si)"
  have ok: "indexOk ?si" by (rule applyWALReplay_ok [OF assms(1,5)])
  have covered: "recordEnd (ieDiskOffset e) (ieValueSize e) (IsPacked e) \<le> maxVLogEndFromWAL es d n \<and>
      ieDiskOffset e < 2 ^ 63 \<and> ieValueSize e < 2 ^ 32"
    if k: "lookup ?si k = Some e" "diskForShard (shardFor k) n = d" "0 < ieDiskOffset e"
      "\<forall>r \<in> set es. rKey r = k \<longrightarrow> direct True True r" for k e
  proof -
    let ?rs = "filter (\<lambda>e. rKey e = k) es"
    have "fold (keyStep d True (replayNowUs now si) (replayInOrder si)) ?rs None = Some e"
      using applyWALReplay_lookup [OF k(4) k(2), of io now si] assms(2) k(1) by simp
    then have "fromRecords ?rs e"
      using k(4) by (intro keySteps_fromRecords [of ?rs ?rs]) auto
    then obtain r where r: "r \<in> set es" "rKey r = k" "0 < rVLogOffset r" "ieDiskOffset e = nat (rVLogOffset r)"
        "ieValueSize e \<le> rDiskLen r" "IsPacked e = rPacked r"
      using k(3) by (auto simp: fromRecords_def)
    have w: "ieDiskOffset e < 2 ^ 63" "rDiskLen r < 2 ^ 32"
      using assms(4) r by auto
    show ?thesis
      using maxVLogEndFromWAL_ge [of r es n d] recordEnd_mono [OF w r(5), of "rPacked r"] r k(2) w
      by auto
  qed
  have all: "nat (rVLogOffset r) + vlogHeaderBytes + rDiskLen r \<le> maxVLogEndFromWAL es d n"
    if "r \<in> set es" "0 < rVLogOffset r" "diskForShard (shardFor (rKey r)) n = d" for r
    using maxVLogEndFromWAL_ge [OF that] recordEnd_ge [of "nat (rVLogOffset r)" "rDiskLen r" "rPacked r"]
      assms(4) that(1) by fastforce
  have idx: "ieDiskOffset e + vlogHeaderBytes + ieValueSize e \<le> maxVLogEndFromWAL es d n"
    if "lookup ?si k = Some e" "diskForShard (shardFor k) n = d" "\<forall>r \<in> set es. rKey r = k \<longrightarrow> direct True True r"
      "0 < ieDiskOffset e" for k e
    using covered [OF that(1,2,4,3)] recordEnd_ge [of "ieDiskOffset e" "ieValueSize e" "IsPacked e"] by linarith
  have "maxVLogEndOffset d n ?si \<le> maxVLogEndFromWAL es d n" if dir: "\<forall>r \<in> set es. direct True True r"
    unfolding maxVLogEndOffset_fold
  proof (rule fold_max_le, rule ballI)
    fix p assume "p \<in> set (scanEntries (shardsFrom d n) ?si)"
    then have "lookup ?si (fst p) = Some (snd p)" "diskForShard (shardFor (fst p)) n = d"
      using ok scanEntries_iff [of ?si "fst p" "snd p"] shardsFrom_disk [OF assms(3)] by (auto simp: indexOk_def)
    then show "extentEnd p \<le> maxVLogEndFromWAL es d n"
      using covered [of "fst p" "snd p"] dir by (auto simp: extentEnd_def)
  qed simp
  with ok all idx show ?thesis by blast
qed

theorem replay_vlog_end_witness:
  "maxVLogEndOffset 0 1 (snd (applyWALReplay noIO 0 1 True True 9 [exampleRecord 1000 False] newShardedIndex))
     \<le> maxVLogEndFromWAL [exampleRecord 1000 False] 0 1 \<and>
   4096 + vlogHeaderBytes + 3 \<le> maxVLogEndFromWAL [exampleRecord 1000 False] 0 1"
proof -
  have "\<forall>e \<in> set [exampleRecord 1000 False]. rVLogOffset e < 2 ^ 63 \<and> rDiskLen e < 2 ^ 32"
    "\<forall>v w xf. ioTransform noIO v = Some (w, xf) \<longrightarrow> xf AND 1 = 0" "direct True True (exampleRecord 1000 False)"
    by (simp_all add: exampleRecord_def noIO_def direct_def)
  with replay_vlog_end [OF newShardedIndex_ok, of 0 1 "[exampleRecord 1000 False]" noIO 9]
  show ?thesis
    by (simp add: diskForShard_def) (simp add: exampleRecord_def)
qed

end
