(* ===== verification/EngineClock.thy ===== *)
theory EngineClock
  imports WalReplay
begin

text \<open>
  The time of raft commands, \<open>src/storage/raft_clock.go\<close>: the clock state, the time a command is
  applied at, the time expiry is judged at and the version token of a key. The local clock of a
  node is an argument of every function that reads it. Times are unbounded integers: microseconds
  since the epoch stay below \<open>2^63\<close>, so that the increments of the code do not overflow.
\<close>

record ApplyTime =
  StampUs :: int
  NowUs :: int

record raftClock =
  rcLast :: int
  rcFloor :: int
  rcCur :: "ApplyTime option"

definition LegacyVersion :: nat where "LegacyVersion = 1"

definition legacyStampUs :: int where "legacyStampUs = 1"

definition NextRaftApplyTime :: "int \<Rightarrow> int \<Rightarrow> raftClock \<Rightarrow> ApplyTime \<times> raftClock" where
  "NextRaftApplyTime leaderTsUs localUs c =
     (let e = rcLast c in
      if leaderTsUs \<le> 0 then
        if e = 0 then (\<lparr>StampUs = legacyStampUs, NowUs = localUs\<rparr>, c)
        else (\<lparr>StampUs = e + 1, NowUs = localUs\<rparr>, c\<lparr>rcLast := e + 1\<rparr>)
      else
        let nxt = (if leaderTsUs \<le> e then e + 1 else leaderTsUs);
            c1 = c\<lparr>rcLast := nxt\<rparr>
        in (\<lparr>StampUs = nxt, NowUs = nxt\<rparr>, if rcFloor c1 = 0 then c1\<lparr>rcFloor := nxt\<rparr> else c1))"

definition RaftClock :: "raftClock \<Rightarrow> int \<times> int" where
  "RaftClock c = (rcLast c, rcFloor c)"

definition SetRaftClock :: "int \<Rightarrow> int \<Rightarrow> raftClock \<Rightarrow> raftClock" where
  "SetRaftClock lastUs floorUs c = c\<lparr>rcLast := lastUs, rcFloor := floorUs\<rparr>"

definition SetApplyTime :: "ApplyTime \<Rightarrow> raftClock \<Rightarrow> raftClock" where
  "SetApplyTime t c = c\<lparr>rcCur := Some t\<rparr>"

definition ClearApplyTime :: "raftClock \<Rightarrow> raftClock" where
  "ClearApplyTime c = c\<lparr>rcCur := None\<rparr>"

definition writeClock :: "int \<Rightarrow> raftClock \<Rightarrow> int \<times> int" where
  "writeClock localUs c = (case rcCur c of Some t \<Rightarrow> (StampUs t, NowUs t) | None \<Rightarrow> (localUs, localUs))"

definition decisionNowUs :: "int \<Rightarrow> raftClock \<Rightarrow> int" where
  "decisionNowUs localUs c = (case rcCur c of Some t \<Rightarrow> NowUs t | None \<Rightarrow> localUs)"

definition expiryCutoffUs :: "int \<Rightarrow> raftClock \<Rightarrow> int" where
  "expiryCutoffUs localUs c = (case rcCur c of
     Some t \<Rightarrow> NowUs t
   | None \<Rightarrow> if rcLast c > 0 \<and> rcLast c < localUs then rcLast c else localUs)"

definition versionToken :: "IndexEntry \<Rightarrow> int \<Rightarrow> int \<Rightarrow> nat" where
  "versionToken e nowUs floorUs =
     (if IsTombstone e \<or> IsExpired nowUs e then 0
      else let s = ieWriteTimestampUs e
        in if s \<le> 0 \<or> (floorUs > 0 \<and> s < floorUs) then LegacyVersion else nat s)"

section \<open>Commands in log order\<close>

text \<open>The commands of a log, each with the leader's time and the local clock of the node.\<close>

fun applyTimes :: "(int \<times> int) list \<Rightarrow> raftClock \<Rightarrow> ApplyTime list \<times> raftClock" where
  "applyTimes [] c = ([], c)"
| "applyTimes ((ts, localUs) # cmds) c =
     (let (t, c1) = NextRaftApplyTime ts localUs c; (times, c2) = applyTimes cmds c1
      in (t # times, c2))"

lemma Next_stamped:
  assumes "0 < ts" "0 \<le> rcLast c"
  shows "StampUs (fst (NextRaftApplyTime ts l c)) = max ts (rcLast c + 1)"
    "NowUs (fst (NextRaftApplyTime ts l c)) = max ts (rcLast c + 1)"
    "rcLast (snd (NextRaftApplyTime ts l c)) = max ts (rcLast c + 1)"
    "rcFloor (snd (NextRaftApplyTime ts l c)) = (if rcFloor c = 0 then max ts (rcLast c + 1) else rcFloor c)"
    "rcCur (snd (NextRaftApplyTime ts l c)) = rcCur c"
  using assms by (simp_all add: NextRaftApplyTime_def Let_def max_def)

lemma Next_local: "0 < ts \<Longrightarrow> NextRaftApplyTime ts l c = NextRaftApplyTime ts l' c"
  by (simp add: NextRaftApplyTime_def)

lemma applyTimes_local:
  "\<forall>(ts, l) \<in> set cmds. 0 < ts \<Longrightarrow> map fst cmds' = map fst cmds \<Longrightarrow> applyTimes cmds' c = applyTimes cmds c"
proof (induction cmds arbitrary: cmds' c)
  case (Cons a cmds)
  obtain ts l where a: "a = (ts, l)" by (cases a)
  from Cons.prems(2) a obtain l' cs where c: "cmds' = (ts, l') # cs" "map fst cs = map fst cmds"
    by (cases cmds') auto
  have "NextRaftApplyTime ts l' c = NextRaftApplyTime ts l c"
    using Next_local Cons.prems(1) a by simp
  then show ?case
    using Cons.IH [OF _ c(2)] Cons.prems(1) by (simp add: a c(1) split_beta)
qed simp

lemma applyTimes_stamps:
  assumes "\<forall>(ts, l) \<in> set cmds. 0 < ts" "0 \<le> rcLast c"
  shows "sorted_wrt (<) (rcLast c # map StampUs (fst (applyTimes cmds c))) \<and>
    map NowUs (fst (applyTimes cmds c)) = map StampUs (fst (applyTimes cmds c))"
  using assms
proof (induction cmds arbitrary: c)
  case (Cons a cmds)
  obtain ts l where a: "a = (ts, l)" by (cases a)
  have ts: "0 < ts" using Cons.prems(1) a by simp
  note n = Next_stamped [OF ts Cons.prems(2), of l]
  have "rcLast c < rcLast (snd (NextRaftApplyTime ts l c))" using n(3) by simp
  then show ?case
    using Cons.IH [of "snd (NextRaftApplyTime ts l c)"] Cons.prems n by (auto simp: a split_beta)
qed simp

lemma applyTimes_floor: "rcFloor c \<noteq> 0 \<Longrightarrow> rcFloor (snd (applyTimes cmds c)) = rcFloor c"
proof (induction cmds arbitrary: c)
  case (Cons a cmds)
  obtain ts l where a: "a = (ts, l)" by (cases a)
  have "rcFloor (snd (NextRaftApplyTime ts l c)) = rcFloor c"
    using Cons.prems by (simp add: NextRaftApplyTime_def Let_def)
  with Cons show ?case by (simp add: a split_beta)
qed simp

lemma floor_below_stamps:
  assumes "\<forall>(ts, l) \<in> set cmds. 0 < ts" "0 \<le> rcLast c" "rcFloor c \<le> rcLast c" "t \<in> set (fst (applyTimes cmds c))"
  shows "rcFloor (snd (applyTimes cmds c)) \<le> StampUs t"
proof (cases "rcFloor c = 0")
  case False
  then show ?thesis
    using applyTimes_floor [OF False, of cmds] applyTimes_stamps [OF assms(1,2)] assms(3,4) by fastforce
next
  case True
  from assms(4) obtain a cs where c: "cmds = a # cs" by (cases cmds) auto
  obtain ts l where a: "a = (ts, l)" by (cases a)
  have ts: "0 < ts" using assms(1) c a by simp
  let ?c = "snd (NextRaftApplyTime ts l c)"
  note n = Next_stamped [OF ts assms(2), of l]
  have "rcFloor ?c \<noteq> 0" using n True assms(2) by simp
  from applyTimes_floor [OF this, of cs]
  have "rcFloor (snd (applyTimes cmds c)) = StampUs (fst (NextRaftApplyTime ts l c))"
    using n True by (simp add: c a split_beta)
  moreover have "StampUs (fst (NextRaftApplyTime ts l c)) \<le> StampUs t"
    using applyTimes_stamps [OF assms(1,2)] assms(4) by (auto simp: c a split_beta)
  ultimately show ?thesis by simp
qed

text \<open>
  C13: nodes that apply the same stamped commands from the same clock state give
  them the same times whatever their local clocks say. The times grow strictly from one command
  to the next; a key a command writes has the command's time as its version token as long as it
  is live, so tokens of different commands differ; and what may be expired between commands,
  at any local time, is expired at every later command too.
\<close>

theorem raft_clock_agrees:
  assumes "\<forall>(ts, l) \<in> set cmds. 0 < ts" "map fst cmds' = map fst cmds"
    and "0 \<le> rcLast c" "rcFloor c \<le> rcLast c" "rcCur c = None"
  shows "applyTimes cmds' c = applyTimes cmds c \<and>
    sorted_wrt (<) (rcLast c # map StampUs (fst (applyTimes cmds c))) \<and>
    (\<forall>t \<in> set (fst (applyTimes cmds c)). \<forall>e now.
       ieWriteTimestampUs e = StampUs t \<longrightarrow> \<not> IsTombstone e \<longrightarrow> \<not> IsExpired now e \<longrightarrow>
       versionToken e now (rcFloor (snd (applyTimes cmds c))) = nat (StampUs t)) \<and>
    (0 < rcLast c \<longrightarrow> (\<forall>t \<in> set (fst (applyTimes cmds c)). \<forall>e localUs.
       IsExpired (expiryCutoffUs localUs c) e \<longrightarrow> IsExpired (NowUs t) e))"
proof -
  note st = applyTimes_stamps [OF assms(1,3)]
  have pos: "rcLast c < StampUs t \<and> NowUs t = StampUs t" if "t \<in> set (fst (applyTimes cmds c))" for t
    using st that by (force simp: list_eq_iff_nth_eq in_set_conv_nth)
  have tok: "versionToken e now (rcFloor (snd (applyTimes cmds c))) = nat (StampUs t)"
    if "t \<in> set (fst (applyTimes cmds c))" "ieWriteTimestampUs e = StampUs t" "\<not> IsTombstone e" "\<not> IsExpired now e"
    for t e now
    using that pos [OF that(1)] floor_below_stamps [OF assms(1,3,4) that(1)] assms(3)
    by (simp add: versionToken_def)
  have cut: "expiryCutoffUs l c \<le> rcLast c" if "0 < rcLast c" for l
    using that assms(5) by (simp add: expiryCutoffUs_def)
  have "IsExpired (NowUs t) e"
    if "0 < rcLast c" "t \<in> set (fst (applyTimes cmds c))" "IsExpired (expiryCutoffUs l c) e" for t e l
    using that(3) cut [OF that(1), of l] pos [OF that(2)] by (simp add: IsExpired_def)
  then show ?thesis
    using applyTimes_local [OF assms(1,2)] st tok by blast
qed

theorem raft_clock_agrees_witness:
  "map StampUs (fst (applyTimes [(50, 7), (40, 90)] \<lparr>rcLast = 0, rcFloor = 0, rcCur = None\<rparr>)) = [50, 51] \<and>
   applyTimes [(50, 1), (40, 2)] \<lparr>rcLast = 0, rcFloor = 0, rcCur = None\<rparr> =
     applyTimes [(50, 7), (40, 90)] \<lparr>rcLast = 0, rcFloor = 0, rcCur = None\<rparr>"
  using raft_clock_agrees [of "[(50, 7), (40, 90)]" "[(50, 1), (40, 2)]" "\<lparr>rcLast = 0, rcFloor = 0, rcCur = None\<rparr>"]
  by (simp add: NextRaftApplyTime_def)

section \<open>Checkpoints and the raft clock\<close>

text \<open>
  C37: the checkpoint leaves out the keys expired by the local clock,
  also in the raft mode. A key whose deadline the local clock has passed and the raft clock has
  not is gone after the restart, although neither the expiry cutoff nor the next command of the
  log, stamped before the deadline, finds it expired: on the other nodes that command sees it.
\<close>

theorem checkpoint_drops_by_local_clock:
  assumes "indexOk si" "v < 2 ^ 64" "\<forall>k e. lookup si k = Some e \<longrightarrow> storedFits k e" "d < n"
    and "diskForShard (shardFor k) n = d" "\<forall>k. lookup si0 k = None"
    and "writeWALCheckpoint out True v False False keep now d n [] si oldLog = (True, log)"
    and "lookup si k = Some e" "\<not> IsTombstone e" "HasTTL e"
    and "rcCur c = None" "0 < rcLast c" "rcLast c < ieTTLExpiryUs e" "ieTTLExpiryUs e \<le> goQuot now 1000"
    and "0 < ts" "ts < ieTTLExpiryUs e" "rcLast c + 1 < ieTTLExpiryUs e"
  shows "k \<notin> liveKeys (snd (applyWALReplay io d n True True now' (replayWAL log) si0)) \<and>
    \<not> IsExpired (expiryCutoffUs (goQuot now 1000) c) e \<and>
    \<not> IsExpired (NowUs (fst (NextRaftApplyTime ts localUs c))) e"
proof -
  have sh: "shapeOk si" using assms(1) by (simp add: indexOk_def)
  have log: "log = writeCheckpointRecords True v False False keep now d n [] si"
    using assms(7) by (simp add: writeWALCheckpoint_def split: ckpt_outcome.splits)
  have x: "IsExpired t e \<longleftrightarrow> ieTTLExpiryUs e \<le> t" for t
    using assms(10,12,13) by (auto simp: IsExpired_def)
  have "checkpointEntry True v False keep now k e (dirtyOf si k) = None"
    using assms(9,14) by (simp add: checkpointEntry_def Let_def x)
  then have "lookup (snd (applyWALReplay io d n True True now' (replayWAL log) si0)) k = None"
    using checkpoint_replayed [OF sh assms(2-5) assms(6) [rule_format], where noTTL = False and keep = keep
        and now = now and io = io and now' = now'] assms(8)
    by (simp add: log)
  moreover have "expiryCutoffUs (goQuot now 1000) c = rcLast c"
    using assms(11-14) by (simp add: expiryCutoffUs_def)
  moreover have "NowUs (fst (NextRaftApplyTime ts localUs c)) < ieTTLExpiryUs e"
    using Next_stamped(2) [of ts c localUs] assms(12,15-17) by simp
  ultimately show ?thesis
    using assms(13) by (simp add: live_def x)
qed

text \<open>A key with the deadline 20, the raft clock at 10 and the local clock at 30.\<close>

theorem checkpoint_drops_by_local_clock_witness:
  "[1] \<notin> liveKeys (snd (applyWALReplay noIO 0 1 True True 9 (replayWAL (writeCheckpointRecords True 3 False False
     None 30000 0 1 [] (put_entry [1] (exampleEntryIE\<lparr>ieDiskOffset := 4096, ieFlags := FlagHasTTL,
       ieTTLExpiryUs := 20\<rparr>) None newShardedIndex))) newShardedIndex))"
proof -
  let ?e = "exampleEntryIE\<lparr>ieDiskOffset := 4096, ieFlags := FlagHasTTL, ieTTLExpiryUs := 20\<rparr>"
  let ?si = "put_entry [1] ?e None newShardedIndex"
  have t: "\<not> IsTombstone ?e" "HasTTL ?e"
    by (simp_all add: IsTombstone_def HasTTL_def hasFlag_def FlagHasTTL_def FlagTombstone_def)
  then have t': "\<not> IsTombstone (?e\<lparr>ieKeyHash := fnv64a [1]\<rparr>)" "HasTTL (?e\<lparr>ieKeyHash := fnv64a [1]\<rparr>)"
    by (simp_all add: IsTombstone_def HasTTL_def hasFlag_def)
  have ok: "indexOk ?si" by (rule put_ok [OF newShardedIndex_ok t(1)])
  have fit: "\<forall>k e. lookup ?si k = Some e \<longrightarrow> storedFits k e"
    using t'(1) by (auto simp: storedFits_def entryFits_def exampleEntryIE_def zeroEntry_def walMaxRecordField_def split: if_splits)
  from checkpoint_drops_by_local_clock [OF ok _ fit _ _ _ _ _ t', of 3 0 1 "[1]" newShardedIndex CkptOk None 30000 "[]"
      _ "\<lparr>rcLast = 10, rcFloor = 10, rcCur = None\<rparr>" 15 noIO 9]
  show ?thesis by (simp add: diskForShard_def writeWALCheckpoint_def goQuot_def)
qed

end
