(* ===== verification/EngineWrite.thy ===== *)
theory EngineWrite
  imports EngineClock
begin

text \<open>
  What a write of the engine puts into the write-ahead log and into the index:
  \<open>putOrigin\<close> and \<open>delOrigin\<close> of \<open>src/storage/engine.go\<close>. The two are built side by side from the
  same arguments; a restart sees only the first.
\<close>

section \<open>Puts\<close>

definition putExpiryUs :: "int \<Rightarrow> int \<Rightarrow> int \<Rightarrow> int" where
  "putExpiryUs nowUs ttl expiryUs = (if expiryUs > 0 then expiryUs else walTTLExpiryUs nowUs ttl)"

definition putWAL :: "bytes \<Rightarrow> bytes \<Rightarrow> int \<Rightarrow> int \<Rightarrow> byte \<Rightarrow> nat \<Rightarrow> WALEntry" where
  "putWAL key v stampUs ttlExpiryUs origin version =
     \<lparr>wTimestamp = stampUs * 1000, wKey = key, wValueLen = length v mod 2 ^ 32, wValue = v,
      wChecksum = crc32c v, wVersion = version, wIsTombstone = False, wVLogOffset = 0, wPacked = False,
      wDiskValueLen = 0, wXformFlags = unat origin, wTTLExpiryUs = ttlExpiryUs\<rparr>"

definition putEntry :: "bytes \<Rightarrow> bytes \<Rightarrow> int \<Rightarrow> int \<Rightarrow> byte \<Rightarrow> IndexEntry" where
  "putEntry key v stampUs ttlExpiryUs origin =
     zeroEntry\<lparr>ieKeyHash := fnv64a key, ieValueSize := length v mod 2 ^ 32,
       ieUncompressedSize := length v mod 2 ^ 32, ieKeySize := length key mod 2 ^ 32,
       ieWriteTimestampUs := stampUs, ieCRC32C := crc32c v, ieSchemaVersion := CurrentSchemaVersion,
       ieShardID := shardFor key,
       ieFlags := (if ttlExpiryUs > 0 then FlagHasTTL else 0) OR origin,
       ieTTLExpiryUs := (if ttlExpiryUs > 0 then ttlExpiryUs else 0)\<rparr>"

text \<open>With key-value separation both point to the place of the value in the value log.\<close>

definition sepWAL :: "bytes \<Rightarrow> byte \<Rightarrow> byte \<Rightarrow> int \<Rightarrow> WALEntry \<Rightarrow> WALEntry" where
  "sepWAL writeBytes xflags origin vlogOffset w =
     w\<lparr>wVLogOffset := vlogOffset, wValue := [], wDiskValueLen := length writeBytes mod 2 ^ 32,
       wXformFlags := unat (xflags OR origin)\<rparr>"

definition sepEntry :: "bytes \<Rightarrow> byte \<Rightarrow> int \<Rightarrow> nat \<Rightarrow> IndexEntry \<Rightarrow> IndexEntry" where
  "sepEntry writeBytes xflags vlogOffset diskIdx e =
     e\<lparr>ieFlags := ieFlags e OR xflags, ieValueSize := length writeBytes mod 2 ^ 32,
       ieDiskOffset := nat vlogOffset, ieSegmentID := diskIdx mod 2 ^ 32\<rparr>"

section \<open>Deletes\<close>

text \<open>
  A delete fills in an entry from the pool. It leaves the value log offset, the packed mark and
  the length on disk as the last user of the entry set them.
\<close>

definition delWAL :: "WALEntry \<Rightarrow> bytes \<Rightarrow> int \<Rightarrow> byte \<Rightarrow> nat \<Rightarrow> WALEntry" where
  "delWAL pooled key stampUs origin version =
     pooled\<lparr>wTimestamp := stampUs * 1000, wKey := key, wIsTombstone := True, wVersion := version,
       wValueLen := 0, wValue := [], wChecksum := 0, wTTLExpiryUs := 0, wXformFlags := unat origin\<rparr>"

section \<open>The log record and the index entry\<close>

text \<open>The arguments of a put that the machine types of the record can hold.\<close>

definition putFits :: "bytes \<Rightarrow> bytes \<Rightarrow> int \<Rightarrow> int \<Rightarrow> byte \<Rightarrow> nat \<Rightarrow> bytes \<Rightarrow> byte \<Rightarrow> int \<Rightarrow> bool" where
  "putFits key v stampUs expiry origin version writeBytes xflags vlogOffset \<longleftrightarrow>
     length key \<le> walMaxRecordField \<and> length v < 2 ^ 32 \<and> 0 < stampUs \<and> stampUs * 1000 < 2 ^ 63 \<and>
     0 \<le> expiry \<and> expiry < 2 ^ 63 \<and> origin \<in> {0, FlagReplicaApplied} \<and> version < 2 ^ 64 \<and>
     length writeBytes < 2 ^ 32 \<and> (writeBytes = [] \<longrightarrow> v = []) \<and>
     xflags AND (FlagCompressed OR FlagEncrypted) = xflags \<and> 0 < vlogOffset \<and> vlogOffset < 2 ^ 63"

lemma put_flags:
  fixes xflags origin :: byte
  assumes "origin \<in> {0, FlagReplicaApplied}" "xflags AND (FlagCompressed OR FlagEncrypted) = xflags"
  shows "(xflags OR origin) AND (FlagCompressed OR FlagEncrypted OR FlagReplicaApplied) = xflags OR origin"
proof -
  let ?c = "FlagCompressed OR FlagEncrypted"
  have "xflags AND FlagReplicaApplied = (xflags AND ?c) AND FlagReplicaApplied" by (simp only: assms(2))
  also have "\<dots> = 0"
    by (simp add: and.assoc FlagCompressed_def FlagEncrypted_def FlagReplicaApplied_def)
  finally have x: "xflags AND (?c OR FlagReplicaApplied) = xflags"
    using assms(2) by (simp add: bit.conj_disj_distrib)
  have "origin AND (?c OR FlagReplicaApplied) = origin"
    using assms(1) by (auto simp: FlagCompressed_def FlagEncrypted_def FlagReplicaApplied_def)
  with x show ?thesis by (simp only: bit.conj_disj_distrib2 or.assoc)
qed

lemma put_record_ok:
  assumes "putFits key v stampUs expiry origin version writeBytes xflags vlogOffset" "d < 2 ^ 32"
  defines "w \<equiv> sepWAL writeBytes xflags origin vlogOffset (putWAL key v stampUs expiry origin version)"
    and "e \<equiv> sepEntry writeBytes xflags vlogOffset d (putEntry key v stampUs expiry origin)"
  shows "walOk w \<and> direct True True (replayedEntry w) \<and> installedEntry d True (replayedEntry w) = e \<and>
    \<not> IsTombstone e \<and> entryFits key e \<and> CacheExpiryUs e = expiry"
proof -
  note f = assms(1) [unfolded putFits_def]
  have fl: "(xflags OR origin) AND (FlagCompressed OR FlagEncrypted OR FlagReplicaApplied) = xflags OR origin"
    using f by (intro put_flags) blast+
  have "walOk w"
    using f unsigned_less [of "xflags OR origin"]
    by (simp add: w_def walOk_def sepWAL_def putWAL_def inlineValue_def inInt64_def)
  moreover have dir: "direct True True (replayedEntry w)"
    using f by (simp add: w_def direct_def replayedEntry_def sepWAL_def putWAL_def)
  moreover have inst: "installedEntry d True (replayedEntry w) = e"
    using f fl
    by (simp add: w_def e_def installedEntry_def replayIndexEntry_def replayFlags_def replayedEntry_def sepWAL_def
        putWAL_def sepEntry_def putEntry_def zeroEntry_def diskLenOf_def or.commute or.left_commute)
  moreover have "\<not> IsTombstone e"
    using replayIndexEntry_live(1) [of "replayedEntry w"]
    by (simp add: inst [symmetric] installedEntry_def IsTombstone_def hasFlag_def)
  moreover have "entryFits key e"
    using f by (auto simp: e_def entryFits_def sepEntry_def putEntry_def zeroEntry_def)
  moreover have "CacheExpiryUs e = expiry"
  proof (cases "expiry > 0")
    case True
    then have "ieFlags e AND FlagHasTTL = FlagHasTTL"
      by (simp add: e_def sepEntry_def putEntry_def bit.conj_disj_distrib2 or.assoc)
    then have "HasTTL e" by (simp add: HasTTL_def hasFlag_def) (simp add: FlagHasTTL_def)
    with True show ?thesis by (simp add: CacheExpiryUs_def) (simp add: e_def sepEntry_def putEntry_def)
  next
    case False
    with f show ?thesis by (simp add: CacheExpiryUs_def e_def sepEntry_def putEntry_def)
  qed
  ultimately show ?thesis by blast
qed

text \<open>
  C38: a put with key-value separation, whose arguments fit their machine
  types. The log record it writes fits the fields of its binary encoding, and a start that
  replays just this record into an index without the key has exactly the entry the put itself
  installs, field by field, unless the put had a deadline that has passed by then; in that
  case the key stays absent. The entry is live, has that deadline, and is of the shape a
  checkpoint needs.
\<close>

theorem put_record_matches:
  assumes "putFits key v stampUs expiry origin version writeBytes xflags vlogOffset" "d < 2 ^ 32"
    and "diskForShard (shardFor key) n = d" "lookup si key = None"
  defines "w \<equiv> sepWAL writeBytes xflags origin vlogOffset (putWAL key v stampUs expiry origin version)"
    and "e \<equiv> sepEntry writeBytes xflags vlogOffset d (putEntry key v stampUs expiry origin)"
  shows "lookup (snd (applyWALReplay io d n True True now (replayWAL (appendWALRecordEnc [] w False False)) si)) key =
      (if 0 < expiry \<and> expiry \<le> replayNowUs now si then None else Some e) \<and>
    walOk w \<and> \<not> IsTombstone e \<and> entryFits key e \<and> CacheExpiryUs e = expiry"
proof -
  note r = put_record_ok [OF assms(1,2), folded w_def e_def]
  have f: "rKey (replayedEntry w) = key" "\<not> rIsTombstone (replayedEntry w)" "rTTLExpiryUs (replayedEntry w) = expiry"
    using assms(1) by (simp_all add: w_def replayedEntry_def sepWAL_def putWAL_def putFits_def)
  have "replayWAL (appendWALRecordEnc [] w False False) = [replayedEntry w]"
    using checkpoint_bytes [of "[w]" False] r by simp
  then show ?thesis
    using applyWALReplay_lookup [of "[replayedEntry w]" key True True n d io now si] r f assms(3,4)
    by (simp add: keyStep_def expiredAt_def)
qed

theorem put_record_matches_witness:
  "lookup (snd (applyWALReplay noIO 0 1 True True 9 (replayWAL (appendWALRecordEnc []
     (sepWAL [9] FlagCompressed 0 4096 (putWAL [1] [7, 7] 5 20 0 3)) False False)) newShardedIndex)) [1] =
     Some (sepEntry [9] FlagCompressed 4096 0 (putEntry [1] [7, 7] 5 20 0))"
proof -
  have "replayNowUs 9 newShardedIndex = 9"
    by (simp add: replayNowUs_def newShardedIndex_def)
  then show ?thesis
    using put_record_matches [of "[1]" "[7, 7]" 5 20 0 3 "[9]" FlagCompressed 4096 0 1 newShardedIndex noIO 9]
    by (simp add: putFits_def walMaxRecordField_def FlagCompressed_def FlagEncrypted_def diskForShard_def)
qed

end
