(* ===== verification/WalLive.thy ===== *)
theory WalLive
  imports EngineWrite
begin

text \<open>
  The write-ahead log while it serves writes: the append queue and the flusher of
  \<open>src/storage/wal.go\<close> and the runtime checkpoint of \<open>src/storage/wal_checkpoint_live.go\<close>, which
  replaces the log by a compacted image of the index plus the records written meanwhile.

  \<open>walFile\<close> is the content of \<open>wal.log\<close>; \<open>walSynced\<close> is how much of it a completed fdatasync
  covers, so a crash leaves any prefix that is at least that long. \<open>appendCh\<close> is the channel
  together with the batch the flusher has collected, \<open>walBatch\<close> the batch between its write and
  its fdatasync. Each function is one section: what the flusher does between two receives, an
  atomic operation of a writer, or a part of \<open>checkpointLive\<close> with no lock released inside.
\<close>

section \<open>The log\<close>

record walItem =
  itData :: bytes
  itN :: nat
  itResp :: nat

text \<open>A swap of the file for the log archiver; \<open>swReader\<close> tells whether the new file could be opened.\<close>

record walSwap =
  swOldEnd :: nat
  swNewStart :: nat
  swReader :: bool

record WriteAheadLog =
  walFile :: bytes
  walSynced :: nat
  durableBytes :: nat
  appendCh :: "walItem list"
  walBatch :: "walItem list"
  bytesWritten :: nat
  entriesWritten :: nat
  legacyText :: bool
  dropTTL :: bool
  wepoch :: nat
  wactive :: "nat \<Rightarrow> int"
  fileGen :: nat
  swapWatch :: bool
  swaps :: "walSwap list"

definition newWriteAheadLog :: "bytes \<Rightarrow> bool \<Rightarrow> bool \<Rightarrow> WriteAheadLog" where
  "newWriteAheadLog file legacy noTTL =
     \<lparr>walFile = file, walSynced = length file, durableBytes = length file, appendCh = [], walBatch = [],
      bytesWritten = 0, entriesWritten = 0, legacyText = legacy, dropTTL = noTTL, wepoch = 0,
      wactive = (\<lambda>_. 0), fileGen = 0, swapWatch = False, swaps = []\<rparr>"

definition serialize :: "WALEntry \<Rightarrow> WriteAheadLog \<Rightarrow> bytes" where
  "serialize entry wal = appendWALRecordEnc [] entry (legacyText wal) (dropTTL wal)"

definition beginAppend :: "nat \<Rightarrow> WALEntry \<Rightarrow> WriteAheadLog \<Rightarrow> WriteAheadLog" where
  "beginAppend resp entry wal =
     wal\<lparr>appendCh := appendCh wal @ [\<lparr>itData = serialize entry wal, itN = 1, itResp = resp\<rparr>]\<rparr>"

definition appendAll :: "nat \<Rightarrow> WALEntry list \<Rightarrow> WriteAheadLog \<Rightarrow> WriteAheadLog" where
  "appendAll resp es wal =
     (if es = [] then wal
      else wal\<lparr>appendCh := appendCh wal @
        [\<lparr>itData = fold (\<lambda>e buf. appendWALRecordEnc buf e (legacyText wal) (dropTTL wal)) es [],
          itN = length es, itResp = resp\<rparr>]\<rparr>)"

text \<open>
  The flush of the first \<open>n\<close> items: one write, then one fdatasync, then the answers. A failed
  write may have put \<open>m\<close> bytes into the file; the flusher leaves them there.
\<close>

datatype write_outcome = WriteOk | WriteErr nat

definition flush_write :: "nat \<Rightarrow> write_outcome \<Rightarrow> WriteAheadLog \<Rightarrow> (nat \<times> bool) list \<times> WriteAheadLog" where
  "flush_write n out wal =
     (let items = take n (appendCh wal); data = concat (map itData items);
          wal1 = wal\<lparr>appendCh := drop n (appendCh wal)\<rparr>
      in case out of
           WriteOk \<Rightarrow> ([], wal1\<lparr>walFile := walFile wal @ data, walBatch := items,
             bytesWritten := bytesWritten wal + length data,
             entriesWritten := entriesWritten wal + sum_list (map itN items)\<rparr>)
         | WriteErr m \<Rightarrow> (map (\<lambda>it. (itResp it, False)) items, wal1\<lparr>walFile := walFile wal @ take m data\<rparr>))"

definition flush_sync :: "bool \<Rightarrow> WriteAheadLog \<Rightarrow> (nat \<times> bool) list \<times> WriteAheadLog" where
  "flush_sync ok wal =
     (let data = concat (map itData (walBatch wal));
          wal1 = (if ok then wal\<lparr>walSynced := length (walFile wal),
                                 durableBytes := durableBytes wal + length data\<rparr> else wal)
      in (map (\<lambda>it. (itResp it, ok)) (walBatch wal), wal1\<lparr>walBatch := []\<rparr>))"

definition durableOffset :: "WriteAheadLog \<Rightarrow> nat" where
  "durableOffset wal = durableBytes wal"

section \<open>Write epochs\<close>

text \<open>\<open>enterWrite\<close> loads the epoch, counts itself, and looks again.\<close>

definition enterWrite_add :: "nat \<Rightarrow> WriteAheadLog \<Rightarrow> WriteAheadLog" where
  "enterWrite_add e wal = wal\<lparr>wactive := (wactive wal)(e mod 2 := wactive wal (e mod 2) + 1)\<rparr>"

definition exitWrite :: "nat \<Rightarrow> WriteAheadLog \<Rightarrow> WriteAheadLog" where
  "exitWrite e wal = wal\<lparr>wactive := (wactive wal)(e mod 2 := wactive wal (e mod 2) - 1)\<rparr>"

definition enterWrite_check :: "nat \<Rightarrow> WriteAheadLog \<Rightarrow> bool \<times> WriteAheadLog" where
  "enterWrite_check e wal = (if wepoch wal = e then (True, wal) else (False, exitWrite e wal))"

definition waitWriters_done :: "nat \<Rightarrow> WriteAheadLog \<Rightarrow> bool" where
  "waitWriters_done e wal \<longleftrightarrow> wactive wal (e mod 2) \<le> 0"

section \<open>The runtime checkpoint\<close>

text \<open>The fence: the length of the log and the epoch whose writes are to be waited for.\<close>

definition ckpt_fence :: "WriteAheadLog \<Rightarrow> (nat \<times> nat) \<times> WriteAheadLog" where
  "ckpt_fence wal = ((length (walFile wal), wepoch wal), wal\<lparr>wepoch := wepoch wal + 1\<rparr>)"

text \<open>The records of one shard, read under its lock.\<close>

definition ckpt_shard :: "bool \<Rightarrow> nat \<Rightarrow> (int \<Rightarrow> int \<Rightarrow> bool) option \<Rightarrow> int \<Rightarrow> WriteAheadLog \<Rightarrow> shardedIndex \<Rightarrow> nat \<Rightarrow>
    bytes \<Rightarrow> bytes" where
  "ckpt_shard kvSep version keep now wal si i buf =
     buf @ concat (map (\<lambda>e. appendWALRecordEnc [] e (legacyText wal) (dropTTL wal))
       (List.map_filter (\<lambda>(k, e). checkpointEntry kvSep version (dropTTL wal) keep now k e (dirtyOf si k))
         (scanEntries [i] si)))"

definition copyWALRange :: "bytes \<Rightarrow> bytes \<Rightarrow> nat \<Rightarrow> nat \<Rightarrow> bytes" where
  "copyWALRange dst src fromOff toOff = dst @ take (toOff - fromOff) (drop fromOff src)"

definition ckpt_tail :: "nat \<Rightarrow> bytes \<Rightarrow> WriteAheadLog \<Rightarrow> nat \<times> bytes" where
  "ckpt_tail copied buf wal =
     (if durableOffset wal > copied
      then (durableOffset wal, copyWALRange buf (walFile wal) copied (durableOffset wal))
      else (copied, buf))"

text \<open>\<open>fileGen\<close> is odd while \<open>durableBytes\<close> moves to the new file.\<close>

definition publishSwap :: "bool \<Rightarrow> nat \<Rightarrow> nat \<Rightarrow> WriteAheadLog \<Rightarrow> WriteAheadLog" where
  "publishSwap opened oldEnd newStart wal =
     (let wal1 = wal\<lparr>fileGen := fileGen wal + 1\<rparr>;
          wal2 = wal1\<lparr>durableBytes := newStart\<rparr>;
          wal3 = (if swapWatch wal2
                  then wal2\<lparr>swaps := swaps wal2 @ [\<lparr>swOldEnd = oldEnd, swNewStart = newStart, swReader = opened\<rparr>]\<rparr>
                  else wal2)
      in wal3\<lparr>fileGen := fileGen wal3 + 1\<rparr>)"

text \<open>The swap, between two batches; an error before the rename leaves the log as it is.\<close>

definition ckpt_swap :: "bool \<Rightarrow> nat \<Rightarrow> bytes \<Rightarrow> WriteAheadLog \<Rightarrow> WriteAheadLog" where
  "ckpt_swap opened copied buf wal =
     (let fin = length (walFile wal);
          newFile = (if fin > copied then copyWALRange buf (walFile wal) copied fin else buf)
      in publishSwap opened fin (length newFile) (wal\<lparr>walFile := newFile, walSynced := length newFile\<rparr>))"

text \<open>
  The archiver follows the file through its swaps. \<open>durableSnapshot\<close> reads the generation, the
  offset and the generation again, \<open>g\<close>, \<open>durable\<close> and \<open>g'\<close>, and retries unless they agree.
\<close>

definition openFollower :: "bool \<Rightarrow> WriteAheadLog \<Rightarrow> nat option \<times> WriteAheadLog" where
  "openFollower opened wal =
     (if opened then (Some (fileGen wal div 2), wal\<lparr>swapWatch := True\<rparr>) else (None, wal))"

definition durableSnapshot :: "nat \<Rightarrow> nat \<Rightarrow> nat \<Rightarrow> (nat \<times> nat) option" where
  "durableSnapshot g durable g' = (if odd g \<or> g' \<noteq> g then None else Some (g div 2, durable))"

definition peekSwap :: "WriteAheadLog \<Rightarrow> walSwap option" where
  "peekSwap wal = (case swaps wal of [] \<Rightarrow> None | sw # _ \<Rightarrow> Some sw)"

definition dropSwap :: "WriteAheadLog \<Rightarrow> WriteAheadLog" where
  "dropSwap wal = wal\<lparr>swaps := tl (swaps wal)\<rparr>"

definition stopFollowing :: "WriteAheadLog \<Rightarrow> WriteAheadLog" where
  "stopFollowing wal = wal\<lparr>swapWatch := False, swaps := []\<rparr>"

section \<open>Writers, the flusher and a checkpoint together\<close>

text \<open>
  A write is a record for the log and an entry for the index. \<open>PLogged\<close> carries the answer of the
  flusher.
\<close>

type_synonym write_job = "WALEntry \<times> IndexEntry"

datatype phase = PIdle | PLoaded nat | PAdded nat | PEntered nat | PQueued nat | PLogged nat bool |
  PIndexed nat | PDone bool

datatype ckpt_state = CkIdle | CkFenced nat nat | CkBuilding nat "nat list" bytes | CkCopying nat nat bytes

text \<open>
  The last four fields are not in the code, no step reads them to decide what happens: whether a
  write or an fdatasync of the log failed half way, a drain timed out or a directory fsync failed;
  the writes of a key that a restart may show, which is the last acknowledged one and those begun
  since; the latest timestamp given to a write of the key; and whether two writes of one key were
  ever in flight together or a write of a key had an older timestamp than one before it.
\<close>

record liveSys =
  lsWal :: WriteAheadLog
  lsIndex :: shardedIndex
  lsPhase :: "nat \<Rightarrow> phase"
  lsCk :: ckpt_state
  lsFault :: bool
  lsCands :: "bytes \<Rightarrow> write_job option set"
  lsTs :: "bytes \<Rightarrow> int"
  lsRaced :: bool

definition initSys :: liveSys where
  "initSys = \<lparr>lsWal = newWriteAheadLog [] False False, lsIndex = newShardedIndex, lsPhase = (\<lambda>_. PIdle),
     lsCk = CkIdle, lsFault = False, lsCands = (\<lambda>_. {None}), lsTs = (\<lambda>_. 0), lsRaced = False\<rparr>"

definition jobKey :: "write_job \<Rightarrow> bytes" where
  "jobKey j = wKey (fst j)"

definition jobTs :: "write_job \<Rightarrow> int" where
  "jobTs j = goQuot (wTimestamp (fst j)) 1000"

definition indexWrite :: "write_job \<Rightarrow> shardedIndex \<Rightarrow> shardedIndex" where
  "indexWrite j si =
     (if wIsTombstone (fst j) then snd (markTombstone (jobKey j) (jobTs j) si)
      else put_entry (jobKey j) (snd j) None si)"

definition answer :: "(nat \<times> bool) list \<Rightarrow> (nat \<Rightarrow> phase) \<Rightarrow> nat \<Rightarrow> phase" where
  "answer rs ph w = (case map_of rs w of
     None \<Rightarrow> ph w
   | Some ok \<Rightarrow> (case ph w of PQueued e \<Rightarrow> PLogged e ok | p \<Rightarrow> p))"

definition setPhase :: "nat \<Rightarrow> phase \<Rightarrow> liveSys \<Rightarrow> liveSys" where
  "setPhase w p s = s\<lparr>lsPhase := (lsPhase s)(w := p)\<rparr>"

definition inFlight :: "phase \<Rightarrow> bool" where
  "inFlight p \<longleftrightarrow> p \<noteq> PIdle \<and> (\<forall>ok. p \<noteq> PDone ok)"

text \<open>
  The steps. Writes interleave freely, those of one key too: \<open>putOrigin\<close> and \<open>delOrigin\<close> take no
  lock of the key. \<open>d\<close> is the disk of the log and \<open>n\<close> the number of disks, \<open>v\<close> and \<open>now\<close> the
  version and the clock of a checkpoint.
\<close>

inductive lstep :: "nat \<Rightarrow> nat \<Rightarrow> nat \<Rightarrow> (nat \<Rightarrow> write_job) \<Rightarrow> liveSys \<Rightarrow> liveSys \<Rightarrow> bool" for d n v job where
  w_load: "lsPhase s w = PIdle \<Longrightarrow> diskForShard (shardFor (jobKey (job w))) n = d \<Longrightarrow>
    lstep d n v job s (setPhase w (PLoaded (wepoch (lsWal s))) (s\<lparr>lsRaced := lsRaced s \<or>
      (\<exists>w'. w' \<noteq> w \<and> jobKey (job w') = jobKey (job w) \<and> inFlight (lsPhase s w'))\<rparr>))"
| w_add: "lsPhase s w = PLoaded e \<Longrightarrow>
    lstep d n v job s (setPhase w (PAdded e) (s\<lparr>lsWal := enterWrite_add e (lsWal s)\<rparr>))"
| w_check: "lsPhase s w = PAdded e \<Longrightarrow> enterWrite_check e (lsWal s) = (ok, wal) \<Longrightarrow>
    lstep d n v job s (setPhase w (if ok then PEntered e else PIdle) (s\<lparr>lsWal := wal\<rparr>))"
| w_enqueue: "lsPhase s w = PEntered e \<Longrightarrow>
    lstep d n v job s (setPhase w (PQueued e) (s\<lparr>lsWal := beginAppend w (fst (job w)) (lsWal s),
      lsCands := (lsCands s)(jobKey (job w) := insert (Some (job w)) (lsCands s (jobKey (job w)))),
      lsTs := (lsTs s)(jobKey (job w) := max (lsTs s (jobKey (job w))) (jobTs (job w))),
      lsRaced := lsRaced s \<or> jobTs (job w) < lsTs s (jobKey (job w))\<rparr>))"
| f_write: "walBatch (lsWal s) = [] \<Longrightarrow> flush_write m out (lsWal s) = (rs, wal) \<Longrightarrow>
    lstep d n v job s (s\<lparr>lsWal := wal, lsPhase := answer rs (lsPhase s),
      lsFault := lsFault s \<or> (\<exists>b. out = WriteErr b \<and> 0 < b)\<rparr>)"
| f_sync: "flush_sync ok (lsWal s) = (rs, wal) \<Longrightarrow>
    lstep d n v job s (s\<lparr>lsWal := wal, lsPhase := answer rs (lsPhase s), lsFault := lsFault s \<or> \<not> ok\<rparr>)"
| w_index: "lsPhase s w = PLogged e True \<Longrightarrow>
    lstep d n v job s (setPhase w (PIndexed e) (s\<lparr>lsIndex := indexWrite (job w) (lsIndex s)\<rparr>))"
| w_fail: "lsPhase s w = PLogged e ok \<Longrightarrow>
    lstep d n v job s (setPhase w (PDone False) (s\<lparr>lsWal := exitWrite e (lsWal s)\<rparr>))"
| w_ack: "lsPhase s w = PIndexed e \<Longrightarrow>
    lstep d n v job s (setPhase w (PDone True) (s\<lparr>lsWal := exitWrite e (lsWal s),
      lsCands := (lsCands s)(jobKey (job w) := {Some (job w)})\<rparr>))"
| c_fence: "lsCk s = CkIdle \<Longrightarrow> walBatch (lsWal s) = [] \<Longrightarrow> ckpt_fence (lsWal s) = ((off, e), wal) \<Longrightarrow>
    lstep d n v job s (s\<lparr>lsWal := wal, lsCk := CkFenced off e\<rparr>)"
| c_drained: "lsCk s = CkFenced off e \<Longrightarrow> waitWriters_done e (lsWal s) \<Longrightarrow>
    lstep d n v job s (s\<lparr>lsCk := CkBuilding off (shardsFrom d n) []\<rparr>)"
| c_timeout: "lsCk s = CkFenced off e \<Longrightarrow>
    lstep d n v job s (s\<lparr>lsCk := CkIdle, lsFault := True\<rparr>)"
| c_build: "lsCk s = CkBuilding off (i # left) buf \<Longrightarrow>
    lstep d n v job s (s\<lparr>lsCk := CkBuilding off left (ckpt_shard True v None now (lsWal s) (lsIndex s) i buf)\<rparr>)"
| c_built: "lsCk s = CkBuilding off [] buf \<Longrightarrow>
    lstep d n v job s (s\<lparr>lsCk := CkCopying off off buf\<rparr>)"
| c_copy: "lsCk s = CkCopying off copied buf \<Longrightarrow> ckpt_tail copied buf (lsWal s) = (copied', buf') \<Longrightarrow>
    lstep d n v job s (s\<lparr>lsCk := CkCopying off copied' buf'\<rparr>)"
| c_swap: "lsCk s = CkCopying off copied buf \<Longrightarrow> walBatch (lsWal s) = [] \<Longrightarrow>
    lstep d n v job s (s\<lparr>lsWal := ckpt_swap opened copied buf (lsWal s), lsCk := CkIdle, lsFault := lsFault s \<or> \<not> dirOk\<rparr>)"
| c_abort: "lsCk s \<notin> {CkFenced off e | off e. True} \<Longrightarrow>
    lstep d n v job s (s\<lparr>lsCk := CkIdle\<rparr>)"

inductive lreach :: "nat \<Rightarrow> nat \<Rightarrow> nat \<Rightarrow> (nat \<Rightarrow> write_job) \<Rightarrow> liveSys \<Rightarrow> bool" for d n v job where
  init: "lreach d n v job initSys"
| step: "lreach d n v job s \<Longrightarrow> lstep d n v job s s' \<Longrightarrow> lreach d n v job s'"

section \<open>Files of records\<close>

definition encs :: "WALEntry list \<Rightarrow> bytes" where
  "encs ws = fileBytes (map (Pair False) ws)"

lemma encs_simps [simp]: "encs [] = []" "encs (xs @ ys) = encs xs @ encs ys"
  "encs (w # ws) = recordBytes (False, w) @ encs ws"
  by (simp_all add: encs_def fileBytes_def)

lemma appendWALRecordEnc_bytes: "appendWALRecordEnc [] w False noTTL = recordBytes (False, w)"
  by (simp add: appendWALRecordEnc_def recordBytes_def)

lemma concat_encs: "concat (map (\<lambda>w. recordBytes (False, w)) ws) = encs ws"
  by (induction ws) auto

lemma replay_encs: "\<forall>w \<in> set ws. walOk w \<Longrightarrow> replayWAL (encs ws) = map replayedEntry ws"
  using replayWAL_file [of "map (Pair False) ws" "[]"] by (auto simp: encs_def recordOk_def comp_def)

text \<open>A crash cuts the log inside some record: replay gives the records before it.\<close>

lemma replay_cut:
  "\<forall>w \<in> set ws. walOk w \<Longrightarrow> \<exists>j. replayWAL (take m (encs ws)) = map replayedEntry (take j ws)"
proof (induction ws arbitrary: m)
  case (Cons w ws)
  have ok: "recordOk (False, w)" using Cons.prems by (simp add: recordOk_def)
  show ?case
  proof (cases "m < length (recordBytes (False, w))")
    case True
    then have "replayWAL (take m (recordBytes (False, w))) = []"
      using nextRecord_torn [OF ok True] by (auto simp: replayWAL.simps)
    with True show ?thesis by (intro exI [of _ 0]) simp
  next
    case False
    obtain j where "replayWAL (take (m - length (recordBytes (False, w))) (encs ws)) = map replayedEntry (take j ws)"
      using Cons by auto
    moreover have "replayWAL (recordBytes (False, w) @ rest) = replayedEntry w # replayWAL rest" for rest
      using replayWAL_file [of "[(False, w)]" rest] ok by (simp add: fileBytes_def)
    ultimately show ?thesis
      using False by (intro exI [of _ "Suc j"]) simp
  qed
qed simp

lemma replay_crash:
  assumes "\<forall>w \<in> set (ws @ ws'). walOk w" "length (encs ws) \<le> m"
  shows "\<exists>j. replayWAL (take m (encs (ws @ ws'))) = map replayedEntry (ws @ take j ws')"
proof -
  obtain j where "replayWAL (take (m - length (encs ws)) (encs ws')) = map replayedEntry (take j ws')"
    using replay_cut [of ws'] assms(1) by auto
  moreover have "replayWAL (encs ws @ rest) = map replayedEntry ws @ replayWAL rest" for rest
    using replayWAL_file [of "map (Pair False) ws" rest] assms(1) by (auto simp: encs_def recordOk_def comp_def)
  ultimately show ?thesis using assms(2) by auto
qed

lemma flush_sync_fields:
  assumes "flush_sync ok wal = (rs, wal')"
  shows "legacyText wal' = legacyText wal" "dropTTL wal' = dropTTL wal" "appendCh wal' = appendCh wal"
    "walBatch wal' = []" "rs = map (\<lambda>it. (itResp it, ok)) (walBatch wal)" "walFile wal' = walFile wal"
    "ok \<Longrightarrow> walSynced wal' = length (walFile wal)"
    "ok \<Longrightarrow> durableBytes wal' = durableBytes wal + length (concat (map itData (walBatch wal)))"
    "wepoch wal' = wepoch wal" "wactive wal' = wactive wal"
  using assms by (cases ok; auto simp: flush_sync_def Let_def)+

lemma flush_write_fields:
  assumes "flush_write m out wal = (rs, wal')"
  shows "legacyText wal' = legacyText wal" "dropTTL wal' = dropTTL wal" "appendCh wal' = drop m (appendCh wal)"
    "walBatch wal' = (if out = WriteOk then take m (appendCh wal) else walBatch wal)"
    "rs = (if out = WriteOk then [] else map (\<lambda>it. (itResp it, False)) (take m (appendCh wal)))"
    "out = WriteOk \<Longrightarrow> walFile wal' = walFile wal @ concat (map itData (take m (appendCh wal)))"
    "out = WriteErr 0 \<Longrightarrow> walFile wal' = walFile wal"
    "walSynced wal' = walSynced wal" "durableBytes wal' = durableBytes wal"
    "wepoch wal' = wepoch wal" "wactive wal' = wactive wal"
  using assms by (cases out; auto simp: flush_write_def Let_def)+

lemma publishSwap_fields [simp]:
  "walFile (publishSwap q a b wal) = walFile wal" "walSynced (publishSwap q a b wal) = walSynced wal"
  "durableBytes (publishSwap q a b wal) = b" "appendCh (publishSwap q a b wal) = appendCh wal"
  "walBatch (publishSwap q a b wal) = walBatch wal" "legacyText (publishSwap q a b wal) = legacyText wal"
  "dropTTL (publishSwap q a b wal) = dropTTL wal" "wepoch (publishSwap q a b wal) = wepoch wal"
  "wactive (publishSwap q a b wal) = wactive wal"
  by (simp_all add: publishSwap_def Let_def)

lemma publishSwap_follow:
  "swaps (publishSwap q a b wal) =
     (if swapWatch wal then swaps wal @ [\<lparr>swOldEnd = a, swNewStart = b, swReader = q\<rparr>] else swaps wal)"
  "even (fileGen (publishSwap q a b wal)) = even (fileGen wal)"
  "fileGen (publishSwap q a b wal) div 2 = fileGen wal div 2 + 1"
  by (simp_all add: publishSwap_def Let_def)

section \<open>Counting writers\<close>

fun counted :: "phase \<Rightarrow> nat option" where
  "counted (PAdded e) = Some e"
| "counted (PEntered e) = Some e"
| "counted (PQueued e) = Some e"
| "counted (PLogged e ok) = Some e"
| "counted (PIndexed e) = Some e"
| "counted p = None"

definition inSlot :: "(nat \<Rightarrow> nat option) \<Rightarrow> nat \<Rightarrow> nat set" where
  "inSlot f p = {w. \<exists>e. f w = Some e \<and> e mod 2 = p}"

lemma inSlot_finite: "finite (dom f) \<Longrightarrow> finite (inSlot f p)"
  by (rule finite_subset [of _ "dom f"]) (auto simp: inSlot_def)

lemma inSlot_upd: "inSlot (f(w := x)) p =
    inSlot f p - {w} \<union> (case x of None \<Rightarrow> {} | Some e \<Rightarrow> if e mod 2 = p then {w} else {})"
  by (auto simp: inSlot_def split: option.splits)

lemma card_inSlot_in:
  assumes "finite (dom f)" "f w = None"
  shows "card (inSlot (f(w \<mapsto> e)) p) = card (inSlot f p) + (if e mod 2 = p then 1 else 0)"
proof -
  have "w \<notin> inSlot f p" using assms(2) by (simp add: inSlot_def)
  then show ?thesis using inSlot_finite [OF assms(1), of p] by (simp add: inSlot_upd)
qed

lemma card_inSlot_out:
  assumes "finite (dom f)" "f w = Some e"
  shows "card (inSlot f p) = card (inSlot (f(w := None)) p) + (if e mod 2 = p then 1 else 0)"
proof -
  have "f(w := None, w \<mapsto> e) = f" using assms(2) by auto
  then show ?thesis
    using card_inSlot_in [of "f(w := None)" w e p] assms(1) by simp
qed

definition countInv :: "liveSys \<Rightarrow> bool" where
  "countInv s \<longleftrightarrow> finite (dom (counted \<circ> lsPhase s)) \<and>
     (\<forall>p. wactive (lsWal s) p = int (card (inSlot (counted \<circ> lsPhase s) p)))"

lemma counted_answer [simp]: "counted (answer rs ph w) = counted (ph w)"
  by (cases "ph w") (auto simp: answer_def split: option.splits)

lemma comp_fun_upd': "counted \<circ> (ph(w := p)) = (counted \<circ> ph)(w := counted p)"
  by auto

lemma wactive_simps [simp]:
  "wactive (beginAppend w x wal) = wactive wal" "wactive (snd (flush_write m out wal)) = wactive wal"
  "wactive (snd (flush_sync ok wal)) = wactive wal" "wactive (snd (ckpt_fence wal)) = wactive wal"
  "wactive (ckpt_swap q c b wal) = wactive wal"
  by (simp_all add: beginAppend_def flush_write_def flush_sync_def ckpt_fence_def ckpt_swap_def Let_def
      split: write_outcome.splits)

lemma countInv_step:
  assumes "lstep d n v job s s'" "countInv s"
  shows "countInv s'"
proof -
  have fin: "finite (dom (counted \<circ> lsPhase s))" and act: "wactive (lsWal s) p = int (card (inSlot (counted \<circ> lsPhase s) p))" for p
    using assms(2) by (simp_all add: countInv_def)
  have same: "countInv s1" if "counted \<circ> lsPhase s1 = counted \<circ> lsPhase s" "wactive (lsWal s1) = wactive (lsWal s)" for s1
    using assms(2) that by (simp add: countInv_def)
  have out: "countInv s1"
    if "counted (lsPhase s w) = Some e" "counted q = None" "lsPhase s1 = (lsPhase s)(w := q)"
      "wactive (lsWal s1) = wactive (exitWrite e (lsWal s))" for w q e s1
    using that fin act card_inSlot_out [OF fin, of w e]
    by (auto simp: countInv_def exitWrite_def comp_fun_upd' dom_fun_upd)
  have keep: "(counted \<circ> ph)(w := counted q) = counted \<circ> ph" if "counted q = counted (ph w)" for w q ph
    using that by auto
  show ?thesis
    using assms(1)
  proof cases
    case (w_add w e)
    then show ?thesis
      using fin act card_inSlot_in [OF fin, of w e]
      by (auto simp: countInv_def setPhase_def enterWrite_add_def comp_fun_upd')
  next
    case (w_check w e ok wal)
    then have "ok \<Longrightarrow> countInv s'"
      by (intro same) (auto simp: enterWrite_check_def setPhase_def comp_fun_upd' keep split: if_splits)
    moreover have "\<not> ok \<Longrightarrow> countInv s'"
      using w_check by (intro out [of w e PIdle]) (auto simp: enterWrite_check_def setPhase_def split: if_splits)
    ultimately show ?thesis by blast
  next
    case (w_fail w e ok)
    then show ?thesis by (intro out [of w e "PDone False"]) (simp_all add: setPhase_def)
  next
    case (w_ack w e)
    then show ?thesis by (intro out [of w e "PDone True"]) (simp_all add: setPhase_def)
  next
    case (f_write m o' rs wal)
    then show ?thesis by (intro same) (auto simp: comp_def dest: arg_cong [where f = "\<lambda>x. wactive (snd x)"])
  next
    case (f_sync ok rs wal)
    then show ?thesis by (intro same) (auto simp: comp_def dest: arg_cong [where f = "\<lambda>x. wactive (snd x)"])
  next
    case (c_fence off e wal)
    then show ?thesis by (intro same) (auto dest: arg_cong [where f = "\<lambda>x. wactive (snd x)"])
  qed (auto intro!: same simp: setPhase_def comp_fun_upd' keep)
qed

section \<open>Epochs\<close>

fun entered :: "phase \<Rightarrow> nat option" where
  "entered (PEntered e) = Some e"
| "entered (PQueued e) = Some e"
| "entered (PLogged e ok) = Some e"
| "entered (PIndexed e) = Some e"
| "entered p = None"

definition epochInv :: "liveSys \<Rightarrow> bool" where
  "epochInv s \<longleftrightarrow> (case lsCk s of
     CkFenced off old \<Rightarrow> wepoch (lsWal s) = Suc old \<and>
       (\<forall>w e. entered (lsPhase s w) = Some e \<longrightarrow> e = old \<or> e = Suc old)
   | _ \<Rightarrow> \<forall>w e. entered (lsPhase s w) = Some e \<longrightarrow> e = wepoch (lsWal s))"

lemma entered_answer [simp]: "entered (answer rs ph w) = entered (ph w)"
  by (cases "ph w") (auto simp: answer_def split: option.splits)

lemma wepoch_simps [simp]:
  "wepoch (beginAppend w x wal) = wepoch wal" "wepoch (snd (flush_write m out wal)) = wepoch wal"
  "wepoch (snd (flush_sync ok wal)) = wepoch wal" "wepoch (ckpt_swap q c b wal) = wepoch wal"
  "wepoch (enterWrite_add e wal) = wepoch wal" "wepoch (exitWrite e wal) = wepoch wal"
  by (simp_all add: beginAppend_def flush_write_def flush_sync_def ckpt_swap_def Let_def
      enterWrite_add_def exitWrite_def split: write_outcome.splits)

lemma entered_counted: "entered p = Some e \<Longrightarrow> counted p = Some e"
  by (cases p) auto

lemma drained_none:
  assumes "countInv s" "waitWriters_done e (lsWal s)"
  shows "entered (lsPhase s w) \<noteq> Some e"
proof
  assume "entered (lsPhase s w) = Some e"
  then have "w \<in> inSlot (counted \<circ> lsPhase s) (e mod 2)"
    using entered_counted by (auto simp: inSlot_def)
  moreover have "finite (inSlot (counted \<circ> lsPhase s) (e mod 2))"
    using assms(1) by (simp add: countInv_def inSlot_finite)
  ultimately have "card (inSlot (counted \<circ> lsPhase s) (e mod 2)) > 0"
    by (auto simp: card_gt_0_iff)
  then show False
    using assms by (simp add: countInv_def waitWriters_done_def)
qed

lemma epochInv_step:
  assumes "lstep d n v job s s'" "countInv s" "epochInv s" "\<not> lsFault s'"
  shows "epochInv s'"
proof -
  have keep: "epochInv s1"
    if "lsCk s1 = lsCk s" "wepoch (lsWal s1) = wepoch (lsWal s)"
      "\<And>w e. entered (lsPhase s1 w) = Some e \<Longrightarrow> entered (lsPhase s w) = Some e \<or> e = wepoch (lsWal s)" for s1
    using assms(3) that by (fastforce simp: epochInv_def split: ckpt_state.splits)
  show ?thesis
    using assms(1)
  proof cases
    case (w_check w e ok wal)
    then show ?thesis
      by (intro keep) (auto simp: enterWrite_check_def setPhase_def split: if_splits)
  next
    case (f_write m o' rs wal)
    then have "wepoch wal = wepoch (lsWal s)" using wepoch_simps(2) [of m o' "lsWal s"] by simp
    with f_write show ?thesis by (intro keep) auto
  next
    case (f_sync ok rs wal)
    then have "wepoch wal = wepoch (lsWal s)" using wepoch_simps(3) [of ok "lsWal s"] by simp
    with f_sync show ?thesis by (intro keep) auto
  next
    case (c_fence off e wal)
    then show ?thesis using assms(3) by (auto simp: epochInv_def ckpt_fence_def)
  next
    case (c_drained off e)
    then show ?thesis
      using assms(3) drained_none [OF assms(2)] by (fastforce simp: epochInv_def)
  next
    case (c_timeout off e)
    with assms(4) show ?thesis by simp
  next
    case (c_abort)
    then show ?thesis using assms(3) by (auto simp: epochInv_def split: ckpt_state.splits)
  next
    case (c_build off i left buf now)
    then show ?thesis using assms(3) by (simp add: epochInv_def)
  next
    case (c_built off buf)
    then show ?thesis using assms(3) by (simp add: epochInv_def)
  next
    case (c_copy off copied buf copied' buf')
    then show ?thesis using assms(3) by (simp add: epochInv_def)
  next
    case (c_swap off copied buf opened dirOk)
    then show ?thesis using assms(3) by (simp add: epochInv_def)
  qed (auto intro!: keep simp: setPhase_def split: if_splits)
qed

section \<open>The queue\<close>

definition queueInv :: "(nat \<Rightarrow> write_job) \<Rightarrow> liveSys \<Rightarrow> bool" where
  "queueInv job s \<longleftrightarrow> \<not> legacyText (lsWal s) \<and> \<not> dropTTL (lsWal s) \<and>
     distinct (map itResp (walBatch (lsWal s) @ appendCh (lsWal s))) \<and>
     (\<forall>it \<in> set (walBatch (lsWal s) @ appendCh (lsWal s)).
        (\<exists>e. lsPhase s (itResp it) = PQueued e) \<and> itData it = recordBytes (False, fst (job (itResp it))))"

lemma answer_other: "w \<notin> fst ` set rs \<Longrightarrow> answer rs ph w = ph w"
  by (simp add: answer_def map_of_eq_None_iff [THEN iffD2])

lemma answer_in:
  assumes "(w, ok) \<in> set rs" "distinct (map fst rs)" "ph w = PQueued e"
  shows "answer rs ph w = PLogged e ok"
  using assms by (simp add: answer_def)

lemma queueInv_step:
  assumes "lstep d n v job s s'" "queueInv job s"
  shows "queueInv job s'"
proof -
  let ?q = "walBatch (lsWal s) @ appendCh (lsWal s)"
  note q = assms(2) [unfolded queueInv_def]
  have keep: "queueInv job s1"
    if "legacyText (lsWal s1) = legacyText (lsWal s)" "dropTTL (lsWal s1) = dropTTL (lsWal s)"
      "walBatch (lsWal s1) = walBatch (lsWal s)" "appendCh (lsWal s1) = appendCh (lsWal s)"
      "\<And>w e. lsPhase s w = PQueued e \<Longrightarrow> lsPhase s1 w = PQueued e" for s1
    using q that by (simp add: queueInv_def) blast
  show ?thesis
    using assms(1)
  proof cases
    case (w_enqueue w e)
    moreover have "w \<notin> itResp ` set ?q" using q w_enqueue by force
    ultimately show ?thesis
      using q by (auto simp: queueInv_def setPhase_def beginAppend_def serialize_def appendWALRecordEnc_bytes)
  next
    case (f_write m o' rs wal)
    define a b where "a = take m (appendCh (lsWal s))" and "b = drop m (appendCh (lsWal s))"
    have ab: "appendCh (lsWal s) = a @ b" by (simp add: a_def b_def)
    have wal: "legacyText wal = legacyText (lsWal s)" "dropTTL wal = dropTTL (lsWal s)" "appendCh wal = b"
      "walBatch wal = (if o' = WriteOk then a else [])"
      "rs = (if o' = WriteOk then [] else map (\<lambda>it. (itResp it, False)) a)"
      using flush_write_fields(1-5) [OF f_write(3)] f_write(2) by (simp_all add: a_def b_def)
    have dis: "distinct (map itResp (a @ b))" using q ab f_write(2) by simp
    have ans: "answer rs (lsPhase s) (itResp it) = lsPhase s (itResp it)" if "it \<in> set (walBatch wal @ b)" for it
    proof (rule answer_other, cases "o' = WriteOk")
      case False
      then have "it \<in> set b" "fst ` set rs = itResp ` set a" using that by (simp_all add: wal image_image)
      then show "itResp it \<notin> fst ` set rs" using dis by (auto simp: disjoint_iff)
    qed (simp add: wal)
    have "set (walBatch wal @ b) \<subseteq> set (walBatch (lsWal s) @ appendCh (lsWal s))" by (auto simp: wal ab)
    moreover have "distinct (map itResp (walBatch wal @ b))" using dis by (auto simp: wal)
    ultimately show ?thesis
      using q ans f_write(1) by (simp add: queueInv_def wal(1-3)) blast
  next
    case (f_sync ok rs wal)
    have wal: "legacyText wal = legacyText (lsWal s)" "dropTTL wal = dropTTL (lsWal s)"
      "appendCh wal = appendCh (lsWal s)" "walBatch wal = []"
      "fst ` set rs = itResp ` set (walBatch (lsWal s))"
      using flush_sync_fields(1-5) [OF f_sync(2)] by (simp_all add: image_image)
    have "answer rs (lsPhase s) (itResp it) = lsPhase s (itResp it)" if "it \<in> set (appendCh (lsWal s))" for it
      using that q by (intro answer_other) (simp add: wal(5), blast)
    then show ?thesis
      using q f_sync(1) by (simp add: queueInv_def wal)
  next
    case (c_fence off e wal)
    then show ?thesis by (intro keep) (auto simp: ckpt_fence_def)
  next
    case (w_check w e ok wal)
    then show ?thesis
      by (intro keep) (auto simp: enterWrite_check_def exitWrite_def setPhase_def split: if_splits)
  qed (auto intro!: keep simp: setPhase_def enterWrite_add_def exitWrite_def ckpt_swap_def Let_def)
qed

section \<open>One write of a key at a time\<close>

definition serialInv :: "nat \<Rightarrow> nat \<Rightarrow> (nat \<Rightarrow> write_job) \<Rightarrow> liveSys \<Rightarrow> bool" where
  "serialInv d n job s \<longleftrightarrow> (\<forall>w. inFlight (lsPhase s w) \<longrightarrow> diskForShard (shardFor (jobKey (job w))) n = d \<and>
     (\<forall>w'. inFlight (lsPhase s w') \<longrightarrow> jobKey (job w') = jobKey (job w) \<longrightarrow> w' = w))"

lemma inFlight_answer [simp]: "inFlight (answer rs ph w) = inFlight (ph w)"
  by (cases "ph w") (auto simp: answer_def inFlight_def split: option.splits)

lemma inFlight_simps [simp]: "\<not> inFlight PIdle" "\<not> inFlight (PDone ok)" "inFlight (PLoaded e)" "inFlight (PAdded e)"
  "inFlight (PEntered e)" "inFlight (PQueued e)" "inFlight (PLogged e ok)" "inFlight (PIndexed e)"
  by (auto simp: inFlight_def)

lemma serialInv_step:
  assumes "lstep d n v job s s'" "serialInv d n job s" "\<not> lsRaced s'"
  shows "serialInv d n job s'"
proof -
  have keep: "serialInv d n job s1" if "\<And>w. inFlight (lsPhase s1 w) \<Longrightarrow> inFlight (lsPhase s w)" for s1
    using assms(2) that unfolding serialInv_def by blast
  show ?thesis
    using assms(1)
  proof cases
    case (w_load w)
    have ph: "inFlight (lsPhase s' w') \<longleftrightarrow> w' = w \<or> inFlight (lsPhase s w')" for w'
      using w_load(1,2) by (simp add: setPhase_def)
    have no: "\<not> inFlight (lsPhase s w')" if "w' \<noteq> w" "jobKey (job w') = jobKey (job w)" for w'
      using assms(3) w_load(1) that by (auto simp: setPhase_def)
    have "w1 = w2" if "inFlight (lsPhase s' w1)" "inFlight (lsPhase s' w2)" "jobKey (job w1) = jobKey (job w2)" for w1 w2
      using that ph no assms(2) unfolding serialInv_def by metis
    moreover have "diskForShard (shardFor (jobKey (job w1))) n = d" if "inFlight (lsPhase s' w1)" for w1
      using that ph w_load(3) assms(2) unfolding serialInv_def by metis
    ultimately show ?thesis unfolding serialInv_def by blast
  qed (auto intro!: keep simp: setPhase_def split: if_splits)
qed

end
