(* ===== verification/CheckpointSafety.thy ===== *)
theory CheckpointSafety
  imports WalLive
begin

text \<open>
  No write that was acknowledged is lost by a crash while the log is checkpointed under load
  (\<open>WalLive\<close>), and what happens when a drain of the writers times out.
\<close>

section \<open>What a restart shows of a key\<close>

definition recTs :: "WALEntry \<Rightarrow> int" where
  "recTs w = goQuot (wTimestamp w) 1000"

lemma recTs_job [simp]: "recTs (fst j) = jobTs j"
  by (simp add: recTs_def jobTs_def)

lemma recordTs_recTs [simp]: "recordTs (replayedEntry w) = recTs w"
  by (simp add: recordTs_def recTs_def replayedEntry_def)

definition goodRec :: "WALEntry \<Rightarrow> bool" where
  "goodRec w \<longleftrightarrow> walOk w \<and> direct True True (replayedEntry w) \<and> wTTLExpiryUs w = 0"

text \<open>
  The writes considered: a delete, or a put without deadline whose record and entry are the ones
  the engine builds together.
\<close>

definition jobOk :: "nat \<Rightarrow> write_job \<Rightarrow> bool" where
  "jobOk d j \<longleftrightarrow> goodRec (fst j) \<and>
     (\<not> wIsTombstone (fst j) \<longrightarrow> installedEntry d True (replayedEntry (fst j)) = snd j \<and> \<not> IsTombstone (snd j) \<and>
        entryFits (jobKey j) (snd j) \<and> CacheExpiryUs (snd j) = 0)"

text \<open>The writes of the engine are such: puts with key-value separation, and deletes.\<close>

inductive engineJob :: "nat \<Rightarrow> write_job \<Rightarrow> bool" for d where
  put: "putFits key v stampUs 0 origin version writeBytes xflags off \<Longrightarrow>
    engineJob d (sepWAL writeBytes xflags origin off (putWAL key v stampUs 0 origin version),
      sepEntry writeBytes xflags off d (putEntry key v stampUs 0 origin))"
| delete: "walOk pooled \<Longrightarrow> length key \<le> walMaxRecordField \<Longrightarrow> 0 < stampUs \<Longrightarrow> stampUs * 1000 < 2 ^ 63 \<Longrightarrow>
    version < 2 ^ 64 \<Longrightarrow> engineJob d (delWAL pooled key stampUs 0 version, zeroEntry)"

lemma engineJob_ok: "engineJob d j \<Longrightarrow> d < 2 ^ 32 \<Longrightarrow> jobOk d j"
proof (induction rule: engineJob.induct)
  case (put key v stampUs origin version writeBytes xflags off)
  then show ?case
    using put_record_ok [OF put.hyps put.prems] by (simp add: jobOk_def goodRec_def jobKey_def sepWAL_def putWAL_def)
next
  case (delete pooled key stampUs version)
  then show ?case
    by (auto simp: jobOk_def goodRec_def delWAL_def walOk_def inlineValue_def inInt64_def direct_def replayedEntry_def)
qed

lemma engineJob_ts: "engineJob d j \<Longrightarrow> 0 < jobTs j"
  by (induction rule: engineJob.induct) (auto simp: jobTs_def sepWAL_def putWAL_def delWAL_def putFits_def goQuot_def)

definition last1 :: "bytes \<Rightarrow> WALEntry list \<Rightarrow> WALEntry option" where
  "last1 k ws = (if filter (\<lambda>r. wKey r = k) ws = [] then None else Some (last (filter (\<lambda>r. wKey r = k) ws)))"

lemma last1_Nil [simp]: "last1 k [] = None"
  by (simp add: last1_def)

lemma last1_append: "last1 k (xs @ ys) = (case last1 k ys of None \<Rightarrow> last1 k xs | Some r \<Rightarrow> Some r)"
  by (simp add: last1_def)

lemma last1_None: "last1 k ws = None \<longleftrightarrow> (\<forall>r \<in> set ws. wKey r \<noteq> k)"
  by (auto simp: last1_def filter_empty_conv)

lemma last1_Some: "last1 k ws = Some r \<Longrightarrow> r \<in> set ws \<and> wKey r = k"
proof -
  assume "last1 k ws = Some r"
  then have "filter (\<lambda>r. wKey r = k) ws \<noteq> []" "r = last (filter (\<lambda>r. wKey r = k) ws)"
    by (auto simp: last1_def split: if_splits)
  then have "r \<in> set (filter (\<lambda>r. wKey r = k) ws)" using last_in_set by blast
  then show ?thesis by simp
qed

lemma last1_one: "filter (\<lambda>r. wKey r = k) ws = [r] \<Longrightarrow> last1 k ws = Some r"
  by (simp add: last1_def)

text \<open>What a log whose last record of the key is \<open>x\<close>, or an index entry \<open>y\<close>, say of a write \<open>c\<close>.\<close>

definition tells :: "nat \<Rightarrow> write_job option \<Rightarrow> WALEntry option \<Rightarrow> bool" where
  "tells d c x = (case c of
     None \<Rightarrow> x = None
   | Some j \<Rightarrow> if wIsTombstone (fst j) then (\<forall>r. x = Some r \<longrightarrow> wIsTombstone r)
       else (\<exists>r. x = Some r \<and> \<not> wIsTombstone r \<and> sameRecord (snd j) (installedEntry d True (replayedEntry r))))"

definition indexedAs :: "write_job option \<Rightarrow> IndexEntry option \<Rightarrow> bool" where
  "indexedAs c y = (case c of
     None \<Rightarrow> y = None
   | Some j \<Rightarrow> if wIsTombstone (fst j) then (\<forall>e. y = Some e \<longrightarrow> IsTombstone e) else y = Some (snd j) \<and> \<not> IsTombstone (snd j))"

definition shown :: "write_job option \<Rightarrow> IndexEntry option \<Rightarrow> bool" where
  "shown c y = (case c of
     None \<Rightarrow> (\<forall>e. y = Some e \<longrightarrow> IsTombstone e)
   | Some j \<Rightarrow> if wIsTombstone (fst j) then (\<forall>e. y = Some e \<longrightarrow> IsTombstone e)
       else (\<exists>e. y = Some e \<and> \<not> IsTombstone e \<and> sameRecord (snd j) e))"

lemma sameRecord_refl [simp]: "sameRecord e e"
  by (simp add: sameRecord_def)

lemma tells_own: "jobOk d j \<Longrightarrow> tells d (Some j) (Some (fst j))"
  by (simp add: tells_def jobOk_def)

lemma installed_ts: "ieWriteTimestampUs (installedEntry d True (replayedEntry r)) = recTs r"
  by (simp add: installedEntry_def replayIndexEntry_def recTs_def replayedEntry_def)

lemma jobOk_ts: "jobOk d j \<Longrightarrow> \<not> wIsTombstone (fst j) \<Longrightarrow> ieWriteTimestampUs (snd j) = jobTs j"
  using installed_ts [of d "fst j"] by (auto simp: jobOk_def)

lemma jobOk_hash: "jobOk d j \<Longrightarrow> \<not> wIsTombstone (fst j) \<Longrightarrow> (snd j)\<lparr>ieKeyHash := fnv64a (jobKey j)\<rparr> = snd j"
proof -
  assume "jobOk d j" "\<not> wIsTombstone (fst j)"
  then have "snd j = installedEntry d True (replayedEntry (fst j))" by (simp add: jobOk_def)
  then show ?thesis by (simp add: installedEntry_def replayIndexEntry_def jobKey_def replayedEntry_def)
qed

text \<open>Replay of a log shows what its last record of the key says, when no record is newer.\<close>

lemma replay_shows:
  assumes "\<forall>r \<in> set ws. goodRec r" "diskForShard (shardFor k) n = d" "lookup si k = None"
    and "tells d c (last1 k ws)" "\<And>r r'. r \<in> set ws \<Longrightarrow> wKey r = k \<Longrightarrow> last1 k ws = Some r' \<Longrightarrow> recTs r \<le> recTs r'"
  shows "shown c (lookup (snd (applyWALReplay io d n True True now (map replayedEntry ws) si)) k)"
proof -
  have dir: "\<forall>e \<in> set (map replayedEntry ws). rKey e = k \<longrightarrow> direct True True e" using assms(1) by (auto simp: goodRec_def)
  have f: "filter (\<lambda>e. rKey e = k) (map replayedEntry ws) = map replayedEntry (filter (\<lambda>r. wKey r = k) ws)"
    by (simp add: filter_map comp_def replayedEntry_def)
  note lk = applyWALReplay_lookup [OF dir assms(2), of io now si, unfolded f assms(3)]
  show ?thesis
  proof (cases "last1 k ws")
    case None
    then have "filter (\<lambda>r. wKey r = k) ws = []" by (simp add: last1_def split: if_splits)
    then show ?thesis using lk assms(4) None by (auto simp: shown_def tells_def split: option.splits if_splits)
  next
    case (Some r)
    then obtain xs where xs: "filter (\<lambda>r. wKey r = k) ws = xs @ [r]"
      by (auto simp: last1_def split: if_splits) (metis append_butlast_last_id)
    have "r' \<in> set ws \<and> wKey r' = k" if "r' \<in> set xs" for r'
    proof -
      have "r' \<in> set (filter (\<lambda>r. wKey r = k) ws)" unfolding xs using that by simp
      then show ?thesis by simp
    qed
    then have "\<forall>e \<in> set (map replayedEntry xs). recordTs e \<le> recordTs (replayedEntry r)"
      using assms(5) Some by auto
    note ks = keySteps_last [OF disjI2, OF this, of d True "replayNowUs now si" "replayInOrder si"]
    have ex: "\<not> expiredAt t (replayedEntry r)" for t
      using last1_Some [OF Some] assms(1) by (simp add: expiredAt_def goodRec_def replayedEntry_def)
    have "lookup (snd (applyWALReplay io d n True True now (map replayedEntry ws) si)) k =
      (if wIsTombstone r then Some (tombstoneFor (rKey (replayedEntry r)) (recTs r)
            (of_nat (rXflags (replayedEntry r)) AND FlagReplicaApplied)
            (fold (keyStep d True (replayNowUs now si) (replayInOrder si)) (map replayedEntry xs) None))
       else Some (installedEntry d True (replayedEntry r)))"
      using lk ks ex by (simp add: xs) (simp add: replayedEntry_def)
    moreover have "\<not> IsTombstone (installedEntry d True (replayedEntry r))"
      using replayIndexEntry_live(1) [of "replayedEntry r"]
      by (simp add: installedEntry_def IsTombstone_def hasFlag_def)
    ultimately show ?thesis
      using assms(4) Some tombstoneFor_fields by (auto simp: shown_def tells_def split: option.splits if_splits)
  qed
qed

section \<open>The invariant\<close>

definition recsOf :: "(nat \<Rightarrow> write_job) \<Rightarrow> walItem list \<Rightarrow> WALEntry list" where
  "recsOf job its = map (\<lambda>it. fst (job (itResp it))) its"

text \<open>\<open>recs\<close> are the records of the synced part of the log.\<close>

definition fileInv :: "(nat \<Rightarrow> write_job) \<Rightarrow> liveSys \<Rightarrow> WALEntry list \<Rightarrow> bool" where
  "fileInv job s recs \<longleftrightarrow> walFile (lsWal s) = encs (recs @ recsOf job (walBatch (lsWal s))) \<and>
     walSynced (lsWal s) = length (encs recs) \<and> durableBytes (lsWal s) = length (encs recs) \<and>
     (\<forall>r \<in> set recs. goodRec r)"

definition onDisk :: "nat \<Rightarrow> nat \<Rightarrow> bytes \<Rightarrow> bool" where
  "onDisk d n k \<longleftrightarrow> diskForShard (shardFor k) n = d"

definition keyInv :: "nat \<Rightarrow> liveSys \<Rightarrow> WALEntry list \<Rightarrow> bytes \<Rightarrow> bool" where
  "keyInv d s recs k \<longleftrightarrow>
     (\<exists>c \<in> lsCands s k. tells d c (last1 k recs)) \<and>
     (\<forall>r \<in> set recs. wKey r = k \<longrightarrow> recTs r \<le> lsTs s k \<and> (\<forall>r'. last1 k recs = Some r' \<longrightarrow> recTs r \<le> recTs r')) \<and>
     (\<exists>c \<in> lsCands s k. indexedAs c (lookup (lsIndex s) k)) \<and>
     (\<forall>e. lookup (lsIndex s) k = Some e \<longrightarrow> \<not> IsTombstone e \<longrightarrow> entryFits k e \<and> CacheExpiryUs e = 0 \<and>
        (\<exists>r. last1 k recs = Some r \<and> ieWriteTimestampUs e \<le> recTs r))"

fun writerInv :: "nat \<Rightarrow> liveSys \<Rightarrow> WALEntry list \<Rightarrow> write_job \<Rightarrow> phase \<Rightarrow> bool" where
  "writerInv d s recs j (PQueued e) \<longleftrightarrow> Some j \<in> lsCands s (jobKey j) \<and> lsTs s (jobKey j) = jobTs j"
| "writerInv d s recs j (PLogged e True) \<longleftrightarrow> Some j \<in> lsCands s (jobKey j) \<and>
     tells d (Some j) (last1 (jobKey j) recs)"
| "writerInv d s recs j (PIndexed e) \<longleftrightarrow> Some j \<in> lsCands s (jobKey j) \<and>
     tells d (Some j) (last1 (jobKey j) recs) \<and> indexedAs (Some j) (lookup (lsIndex s) (jobKey j))"
| "writerInv d s recs j p \<longleftrightarrow> True"

text \<open>The writes logged in the current epoch have their record behind the fence.\<close>

definition logged :: "phase \<Rightarrow> nat \<Rightarrow> bool" where
  "logged p e \<longleftrightarrow> p = PLogged e True \<or> p = PIndexed e"

definition tailSeen :: "(nat \<Rightarrow> write_job) \<Rightarrow> liveSys \<Rightarrow> WALEntry list \<Rightarrow> bool" where
  "tailSeen job s tail \<longleftrightarrow>
     (\<forall>w. logged (lsPhase s w) (wepoch (lsWal s)) \<longrightarrow> last1 (jobKey (job w)) tail \<noteq> None)"

text \<open>What a checkpoint writes for the index entry of a key.\<close>

definition isImage :: "nat \<Rightarrow> bytes \<Rightarrow> IndexEntry option \<Rightarrow> WALEntry list \<Rightarrow> bool" where
  "isImage d k y ws = (case y of
     None \<Rightarrow> ws = []
   | Some e \<Rightarrow> if IsTombstone e then ws = []
       else (\<exists>w. ws = [w] \<and> \<not> wIsTombstone w \<and> sameRecord e (installedEntry d True (replayedEntry w)) \<and>
               recTs w = ieWriteTimestampUs e))"

definition imageInv :: "nat \<Rightarrow> liveSys \<Rightarrow> WALEntry list \<Rightarrow> nat set \<Rightarrow> WALEntry list \<Rightarrow> bool" where
  "imageInv d s tail built acc \<longleftrightarrow> (\<forall>r \<in> set acc. goodRec r \<and> shardFor (wKey r) \<in> built) \<and>
     (\<forall>k. shardFor k \<in> built \<longrightarrow>
        (last1 k tail = None \<longrightarrow> isImage d k (lookup (lsIndex s) k) (filter (\<lambda>r. wKey r = k) acc)) \<and>
        (\<forall>r \<in> set acc. wKey r = k \<longrightarrow> recTs r \<le> lsTs s k \<and> (\<forall>r'. last1 k tail = Some r' \<longrightarrow> recTs r \<le> recTs r')))"

fun ckInv :: "nat \<Rightarrow> nat \<Rightarrow> (nat \<Rightarrow> write_job) \<Rightarrow> liveSys \<Rightarrow> WALEntry list \<Rightarrow> ckpt_state \<Rightarrow> bool" where
  "ckInv d n job s recs CkIdle \<longleftrightarrow> True"
| "ckInv d n job s recs (CkFenced off old) \<longleftrightarrow>
     (\<exists>pre tail. recs = pre @ tail \<and> off = length (encs pre) \<and> tailSeen job s tail)"
| "ckInv d n job s recs (CkBuilding off left buf) \<longleftrightarrow>
     (\<exists>pre tail acc. recs = pre @ tail \<and> off = length (encs pre) \<and> tailSeen job s tail \<and> buf = encs acc \<and>
        distinct left \<and> set left \<subseteq> set (shardsFrom d n) \<and>
        imageInv d s tail (set (shardsFrom d n) - set left) acc)"
| "ckInv d n job s recs (CkCopying off copied buf) \<longleftrightarrow>
     (\<exists>pre t1 t2 acc. recs = pre @ t1 @ t2 \<and> off = length (encs pre) \<and> copied = length (encs (pre @ t1)) \<and>
        tailSeen job s (t1 @ t2) \<and> buf = encs (acc @ t1) \<and> imageInv d s (t1 @ t2) (set (shardsFrom d n)) acc)"

definition mainInv :: "nat \<Rightarrow> nat \<Rightarrow> (nat \<Rightarrow> write_job) \<Rightarrow> liveSys \<Rightarrow> bool" where
  "mainInv d n job s \<longleftrightarrow> indexOk (lsIndex s) \<and>
     (\<exists>recs. fileInv job s recs \<and> (\<forall>k. onDisk d n k \<longrightarrow> keyInv d s recs k) \<and> (\<forall>w. writerInv d s recs (job w) (lsPhase s w)) \<and>
        ckInv d n job s recs (lsCk s))"

section \<open>Steps that only move a writer\<close>

text \<open>A phase that says nothing of the log or the index.\<close>

fun silent :: "phase \<Rightarrow> bool" where
  "silent (PQueued e) = False"
| "silent (PLogged e ok) = (\<not> ok)"
| "silent (PIndexed e) = False"
| "silent p = True"

lemma silent_writerInv: "silent p \<Longrightarrow> writerInv d s recs j p"
  by (cases p) auto

lemma silent_logged: "silent p \<Longrightarrow> \<not> logged p e"
  by (auto simp: logged_def)

definition sameData :: "liveSys \<Rightarrow> liveSys \<Rightarrow> bool" where
  "sameData s s' \<longleftrightarrow> lsIndex s' = lsIndex s \<and> lsCands s' = lsCands s \<and> lsTs s' = lsTs s \<and>
     wepoch (lsWal s') = wepoch (lsWal s) \<and> (\<forall>w. lsPhase s' w = lsPhase s w \<or> silent (lsPhase s' w))"

lemma sameData_keyInv: "sameData s s' \<Longrightarrow> keyInv d s' = keyInv d s"
  by (simp add: sameData_def keyInv_def fun_eq_iff)

lemma writerInv_cong:
  "lsIndex s' = lsIndex s \<Longrightarrow> lsCands s' = lsCands s \<Longrightarrow> lsTs s' = lsTs s \<Longrightarrow>
    writerInv d s' recs j p = writerInv d s recs j p"
  by (cases "(d, s, recs, j, p)" rule: writerInv.cases) auto

lemma sameData_writerInv:
  assumes "sameData s s'" "\<forall>w. writerInv d s recs (job w) (lsPhase s w)"
  shows "\<forall>w. writerInv d s' recs (job w) (lsPhase s' w)"
  using assms silent_writerInv unfolding sameData_def by (metis writerInv_cong)

lemma sameData_tailSeen: "sameData s s' \<Longrightarrow> tailSeen job s tail \<Longrightarrow> tailSeen job s' tail"
  unfolding sameData_def tailSeen_def by (metis silent_logged)

lemma sameData_imageInv: "sameData s s' \<Longrightarrow> imageInv d s' = imageInv d s"
  by (simp add: sameData_def imageInv_def fun_eq_iff)

lemma sameData_ckInv:
  assumes "sameData s s'" "ckInv d n job s recs ck"
  shows "ckInv d n job s' recs ck"
  using assms(2) sameData_tailSeen [OF assms(1)] sameData_imageInv [OF assms(1)]
  by (cases ck) (simp_all, blast+)

lemma main_sameData:
  assumes "mainInv d n job s" "sameData s s'" "lsCk s' = lsCk s \<or> lsCk s' = CkIdle"
    and "walFile (lsWal s') = walFile (lsWal s)" "walSynced (lsWal s') = walSynced (lsWal s)"
      "durableBytes (lsWal s') = durableBytes (lsWal s)" "walBatch (lsWal s') = walBatch (lsWal s)"
  shows "mainInv d n job s'"
proof -
  obtain recs where r: "fileInv job s recs" "\<forall>k. onDisk d n k \<longrightarrow> keyInv d s recs k" "\<forall>w. writerInv d s recs (job w) (lsPhase s w)"
    "ckInv d n job s recs (lsCk s)"
    using assms(1) by (auto simp: mainInv_def)
  have "fileInv job s' recs" using r(1) assms(4-7) by (simp add: fileInv_def)
  moreover have "ckInv d n job s' recs (lsCk s')"
    using assms(3) sameData_ckInv [OF assms(2) r(4)] by auto
  ultimately show ?thesis
    using assms(1,2) r(2) sameData_keyInv [OF assms(2)] sameData_writerInv [OF assms(2) r(3)]
    by (auto simp: mainInv_def sameData_def)
qed

section \<open>Writers\<close>

lemma silent_idle: "\<not> inFlight p \<Longrightarrow> silent p"
  by (cases p) auto

lemma ckInv_mono:
  assumes "ckInv d n job s recs ck" "lsIndex s' = lsIndex s" "\<forall>k. lsTs s k \<le> lsTs s' k"
    and "\<forall>w. logged (lsPhase s' w) (wepoch (lsWal s')) \<longrightarrow> logged (lsPhase s w) (wepoch (lsWal s))"
  shows "ckInv d n job s' recs ck"
proof -
  have t: "tailSeen job s' tail" if "tailSeen job s tail" for tail
    using that assms(4) unfolding tailSeen_def by blast
  have i: "imageInv d s' tail built acc" if "imageInv d s tail built acc" for tail built acc
    using that assms(2,3) unfolding imageInv_def by (simp, meson order_trans)
  show ?thesis
    using assms(1) t i by (cases ck) (simp_all, blast+)
qed

lemma keyInv_mono:
  assumes "keyInv d s recs k" "lsIndex s' = lsIndex s" "lsCands s k \<subseteq> lsCands s' k" "lsTs s k \<le> lsTs s' k"
  shows "keyInv d s' recs k"
proof -
  have "recTs r \<le> lsTs s' k" if "r \<in> set recs" "wKey r = k" for r
  proof -
    have "recTs r \<le> lsTs s k" using assms(1) that unfolding keyInv_def by blast
    with assms(4) show ?thesis by simp
  qed
  then show ?thesis
    using assms(1-3) unfolding keyInv_def by (simp, blast)
qed

lemma writerInv_other:
  assumes "writerInv d s recs j p" "lsCands s' (jobKey j) = lsCands s (jobKey j)" "lsTs s' (jobKey j) = lsTs s (jobKey j)"
    and "lookup (lsIndex s') (jobKey j) = lookup (lsIndex s) (jobKey j)" "last1 (jobKey j) recs' = last1 (jobKey j) recs"
  shows "writerInv d s' recs' j p"
  using assms by (cases "(d, s, recs, j, p)" rule: writerInv.cases) auto

text \<open>While a write of a key is in flight the other writes of the key are silent.\<close>

lemma other_writer:
  assumes "serialInv d n job s" "inFlight (lsPhase s w)" "w' \<noteq> w"
  shows "jobKey (job w') \<noteq> jobKey (job w) \<or> silent (lsPhase s w')"
  using assms silent_idle unfolding serialInv_def by metis

lemma main_enqueue:
  assumes "mainInv d n job s" "serialInv d n job s" "lsPhase s w = PEntered e"
    and "lsTs s (jobKey (job w)) \<le> jobTs (job w)"
  shows "mainInv d n job (setPhase w (PQueued e) (s\<lparr>lsWal := beginAppend w (fst (job w)) (lsWal s),
      lsCands := (lsCands s)(jobKey (job w) := insert (Some (job w)) (lsCands s (jobKey (job w)))),
      lsTs := (lsTs s)(jobKey (job w) := jobTs (job w)), lsRaced := q\<rparr>))" (is "mainInv d n job ?s")
proof -
  obtain recs where r: "fileInv job s recs" "\<forall>k. onDisk d n k \<longrightarrow> keyInv d s recs k" "\<forall>w. writerInv d s recs (job w) (lsPhase s w)"
    "ckInv d n job s recs (lsCk s)" "indexOk (lsIndex s)"
    using assms(1) by (auto simp: mainInv_def)
  have f: "lsIndex ?s = lsIndex s" "lsCk ?s = lsCk s" "lsPhase ?s = (lsPhase s)(w := PQueued e)"
    "wepoch (lsWal ?s) = wepoch (lsWal s)" "\<forall>k. lsTs s k \<le> lsTs ?s k" "\<forall>k. lsCands s k \<subseteq> lsCands ?s k"
    using assms(4) by (auto simp: setPhase_def)
  have "fileInv job ?s recs" using r(1) by (simp add: fileInv_def setPhase_def beginAppend_def)
  moreover have "\<forall>k. onDisk d n k \<longrightarrow> keyInv d ?s recs k" using r(2) f by (blast intro: keyInv_mono)
  moreover have "ckInv d n job ?s recs (lsCk ?s)"
    using ckInv_mono [OF r(4) f(1,5)] f(2-4) by (simp add: logged_def)
  moreover have "writerInv d ?s recs (job w') (lsPhase ?s w')" for w'
  proof (cases "w' = w")
    case True
    then show ?thesis by (simp add: setPhase_def)
  next
    case False
    then consider "jobKey (job w') \<noteq> jobKey (job w)" | "silent (lsPhase s w')"
      using other_writer [OF assms(2), of w w'] assms(3) by auto
    then show ?thesis
    proof cases
      case 1
      then show ?thesis
        using r(3) False by - (rule writerInv_other [of d s recs], simp_all add: setPhase_def)
    qed (use False in \<open>simp add: f silent_writerInv\<close>)
  qed
  ultimately show ?thesis using r(5) by (auto simp: mainInv_def f(1))
qed

lemma main_ack:
  assumes "mainInv d n job s" "serialInv d n job s" "lsPhase s w = PIndexed e"
  shows "mainInv d n job (setPhase w (PDone True) (s\<lparr>lsWal := exitWrite e (lsWal s),
      lsCands := (lsCands s)(jobKey (job w) := {Some (job w)})\<rparr>))" (is "mainInv d n job ?s")
proof -
  obtain recs where r: "fileInv job s recs" "\<forall>k. onDisk d n k \<longrightarrow> keyInv d s recs k" "\<forall>w. writerInv d s recs (job w) (lsPhase s w)"
    "ckInv d n job s recs (lsCk s)" "indexOk (lsIndex s)"
    using assms(1) by (auto simp: mainInv_def)
  have f: "lsIndex ?s = lsIndex s" "lsCk ?s = lsCk s" "lsPhase ?s = (lsPhase s)(w := PDone True)"
    "wepoch (lsWal ?s) = wepoch (lsWal s)" "lsTs ?s = lsTs s"
    by (auto simp: setPhase_def)
  have w: "tells d (Some (job w)) (last1 (jobKey (job w)) recs)"
    "indexedAs (Some (job w)) (lookup (lsIndex s) (jobKey (job w)))"
    using r(3) [rule_format, of w] assms(3) by simp_all
  have "fileInv job ?s recs" using r(1) by (simp add: fileInv_def setPhase_def exitWrite_def)
  moreover have "keyInv d ?s recs k" if "onDisk d n k" for k
    using r(2) [rule_format, OF that] w
    by (cases "k = jobKey (job w)") (simp_all add: keyInv_def setPhase_def)
  moreover have "ckInv d n job ?s recs (lsCk ?s)"
    using ckInv_mono [OF r(4) f(1)] f(2-5) by (simp add: logged_def)
  moreover have "writerInv d ?s recs (job w') (lsPhase ?s w')" for w'
  proof (cases "w' = w")
    case True
    then show ?thesis by (simp add: setPhase_def)
  next
    case False
    then consider "jobKey (job w') \<noteq> jobKey (job w)" | "silent (lsPhase s w')"
      using other_writer [OF assms(2), of w w'] assms(3) by auto
    then show ?thesis
    proof cases
      case 1
      then show ?thesis
        using r(3) False by - (rule writerInv_other [of d s recs], simp_all add: setPhase_def)
    qed (use False in \<open>simp add: f silent_writerInv\<close>)
  qed
  ultimately show ?thesis using r(5) by (auto simp: mainInv_def f(1))
qed

text \<open>The index update: the record of the write is the last of its key in the log.\<close>

lemma lookup_indexWrite: "k \<noteq> jobKey j \<Longrightarrow> lookup (indexWrite j si) k = lookup si k"
  by (simp add: indexWrite_def lookup_markTombstone split: option.splits)

lemma indexWrite_as: "jobOk d j \<Longrightarrow> indexedAs (Some j) (lookup (indexWrite j si) (jobKey j))"
  using jobOk_hash [of d j]
  by (auto simp: indexedAs_def indexWrite_def jobOk_def lookup_markTombstone split: option.splits if_splits)

lemma indexWrite_ok: "jobOk d j \<Longrightarrow> indexOk si \<Longrightarrow> indexOk (indexWrite j si)"
  by (simp add: indexWrite_def markTombstone_ok put_ok jobOk_def)

lemma main_index:
  assumes "mainInv d n job s" "serialInv d n job s" "epochInv s" "\<forall>w. jobOk d (job w)"
    and "lsPhase s w = PLogged e True"
  shows "mainInv d n job (setPhase w (PIndexed e) (s\<lparr>lsIndex := indexWrite (job w) (lsIndex s)\<rparr>))"
    (is "mainInv d n job ?s")
proof -
  let ?k = "jobKey (job w)"
  obtain recs where r: "fileInv job s recs" "\<forall>k. onDisk d n k \<longrightarrow> keyInv d s recs k" "\<forall>w. writerInv d s recs (job w) (lsPhase s w)"
    "ckInv d n job s recs (lsCk s)" "indexOk (lsIndex s)"
    using assms(1) by (auto simp: mainInv_def)
  have j: "jobOk d (job w)" using assms(4) by blast
  have w: "Some (job w) \<in> lsCands s ?k" "tells d (Some (job w)) (last1 ?k recs)"
    using r(3) [rule_format, of w] assms(5) by simp_all
  have as: "indexedAs (Some (job w)) (lookup (lsIndex ?s) ?k)"
    using indexWrite_as [OF j] by (simp add: setPhase_def)
  have other: "lookup (lsIndex ?s) k = lookup (lsIndex s) k" if "k \<noteq> ?k" for k
    using lookup_indexWrite [OF that] by (simp add: setPhase_def)
  have f: "lsCk ?s = lsCk s" "lsPhase ?s = (lsPhase s)(w := PIndexed e)" "wepoch (lsWal ?s) = wepoch (lsWal s)"
    "lsTs ?s = lsTs s" "lsCands ?s = lsCands s" "lsWal ?s = lsWal s"
    by (auto simp: setPhase_def)
  have "keyInv d ?s recs k" if disk: "onDisk d n k" for k
  proof (cases "k = ?k")
    case True
    have "entryFits ?k e' \<and> CacheExpiryUs e' = 0 \<and> (\<exists>r. last1 ?k recs = Some r \<and> ieWriteTimestampUs e' \<le> recTs r)"
      if "lookup (lsIndex ?s) ?k = Some e'" "\<not> IsTombstone e'" for e'
    proof -
      have p: "\<not> wIsTombstone (fst (job w))" "e' = snd (job w)"
        using as that by (auto simp: indexedAs_def split: if_splits)
      then obtain r where "last1 ?k recs = Some r" "sameRecord e' (installedEntry d True (replayedEntry r))"
        using w(2) by (auto simp: tells_def)
      then show ?thesis
        using j p installed_ts [of d r] by (auto simp: jobOk_def sameRecord_def)
    qed
    then show ?thesis
      using True r(2) [rule_format, OF disk] as w(1) by (auto simp: keyInv_def f)
  next
    case False
    with r(2) [rule_format, OF disk] other [OF False] show ?thesis by (simp add: keyInv_def f)
  qed
  moreover have "writerInv d ?s recs (job w') (lsPhase ?s w')" for w'
  proof (cases "w' = w")
    case True
    then show ?thesis using w as by (simp add: f)
  next
    case False
    then consider "jobKey (job w') \<noteq> ?k" | "silent (lsPhase s w')"
      using other_writer [OF assms(2), of w w'] assms(5) by auto
    then show ?thesis
    proof cases
      case 1
      then show ?thesis
        using r(3) False other by - (rule writerInv_other [of d s recs], simp_all add: f)
    qed (use False in \<open>simp add: f silent_writerInv\<close>)
  qed
  moreover have "ckInv d n job ?s recs (lsCk ?s)"
  proof -
    have "logged (lsPhase ?s w') x = logged (lsPhase s w') x" for w' x
      using assms(5) by (cases "w' = w") (auto simp: f logged_def)
    then have t: "tailSeen job ?s tail" if "tailSeen job s tail" for tail
      using that by (simp add: tailSeen_def f(3))
    have i: "imageInv d ?s tail built acc"
      if "imageInv d s tail built acc" "tailSeen job s tail" "\<forall>off old. lsCk s \<noteq> CkFenced off old" for tail built acc
    proof -
      have "entered (lsPhase s w) = Some e" using assms(5) by simp
      then have "e = wepoch (lsWal s)"
        using assms(3) that(3) by (auto simp: epochInv_def split: ckpt_state.splits)
      then have "last1 ?k tail \<noteq> None"
        using that(2) assms(5) by (auto simp: tailSeen_def logged_def)
      then have "lookup (lsIndex ?s) k = lookup (lsIndex s) k" if "last1 k tail = None" for k
        using that other by (cases "k = ?k") auto
      then show ?thesis
        using that(1) by (simp add: imageInv_def f(4))
    qed
    show ?thesis
      using r(4) t i by (cases "lsCk s") (simp_all add: f, blast+)
  qed
  moreover have "fileInv job ?s recs" using r(1) by (simp add: fileInv_def f)
  moreover have "indexOk (lsIndex ?s)" using indexWrite_ok [OF j r(5)] by (simp add: setPhase_def)
  ultimately show ?thesis unfolding mainInv_def by blast
qed

section \<open>The flusher\<close>

lemma answer_Nil [simp]: "answer [] ph = ph"
  by (simp add: answer_def fun_eq_iff)

lemma data_encs:
  "\<forall>it \<in> set its. itData it = recordBytes (False, fst (job (itResp it))) \<Longrightarrow>
    concat (map itData its) = encs (recsOf job its)"
  by (induction its) (simp_all add: recsOf_def)

lemma main_write:
  assumes "mainInv d n job s" "queueInv job s" "walBatch (lsWal s) = []" "flush_write m out (lsWal s) = (rs, wal)"
    and "out = WriteOk \<or> out = WriteErr 0" "s' = s\<lparr>lsWal := wal, lsPhase := answer rs (lsPhase s), lsFault := f\<rparr>"
  shows "mainInv d n job s'"
proof (cases "out = WriteOk")
  case False
  note ff = flush_write_fields [OF assms(4)]
  have "answer rs (lsPhase s) w = lsPhase s w \<or> silent (answer rs (lsPhase s) w)" for w
    using ff(5) False by (auto simp: answer_def map_of_map_restrict split: option.splits phase.splits dest!: map_of_SomeD)
  then have "sameData s s'" using ff(10) assms(6) by (simp add: sameData_def)
  then show ?thesis
    using assms False ff by (intro main_sameData [OF assms(1)]) auto
next
  case True
  note ff = flush_write_fields [OF assms(4)]
  obtain recs where r: "fileInv job s recs" "\<forall>k. onDisk d n k \<longrightarrow> keyInv d s recs k" "\<forall>w. writerInv d s recs (job w) (lsPhase s w)"
    "ckInv d n job s recs (lsCk s)" "indexOk (lsIndex s)"
    using assms(1) by (auto simp: mainInv_def)
  let ?its = "take m (appendCh (lsWal s))"
  have same: "sameData s s'" using ff(5,10) True assms(6) by (simp add: sameData_def)
  have "concat (map itData ?its) = encs (recsOf job ?its)"
    using assms(2) in_set_takeD by (intro data_encs) (fastforce simp: queueInv_def)
  then have "fileInv job s' recs"
    using r(1) ff True assms(3,6) by (simp add: fileInv_def recsOf_def)
  then show ?thesis
    using r same sameData_keyInv [OF same] sameData_writerInv [OF same r(3)] sameData_ckInv [OF same r(4)] assms(6)
    by (auto simp: mainInv_def)
qed

text \<open>The records of a batch belong to different keys.\<close>

lemma batch_keys:
  assumes "serialInv d n job s" "queueInv job s" "it \<in> set (walBatch (lsWal s))"
  shows "filter (\<lambda>r. wKey r = jobKey (job (itResp it))) (recsOf job (walBatch (lsWal s))) = [fst (job (itResp it))]"
proof -
  have "filter (\<lambda>r. wKey r = jobKey (job (itResp it))) (recsOf job its) = [fst (job (itResp it))]"
    if "it \<in> set its" "set its \<subseteq> set (walBatch (lsWal s))" "distinct (map itResp its)" for its
    using that
  proof (induction its)
    case (Cons a its)
    have fl: "inFlight (lsPhase s (itResp x))" if "x \<in> set (a # its)" for x
      using that Cons.prems(2) assms(2) by (force simp: queueInv_def)
    have eq: "itResp x = itResp y" if "x \<in> set (a # its)" "y \<in> set (a # its)" "jobKey (job (itResp x)) = jobKey (job (itResp y))" for x y
      using fl that assms(1) unfolding serialInv_def by metis
    have "itResp a \<notin> itResp ` set its" using Cons.prems(3) by simp
    then have na: "itResp x \<noteq> itResp a" if "x \<in> set its" for x using that by (metis imageI)
    show ?case
    proof (cases "it = a")
      case True
      have "jobKey (job (itResp x)) \<noteq> jobKey (job (itResp it))" if "x \<in> set its" for x
        using eq [of x a] na that True by auto
      then have "filter (\<lambda>r. wKey r = jobKey (job (itResp it))) (recsOf job its) = []"
        by (auto simp: recsOf_def filter_empty_conv jobKey_def)
      then show ?thesis using True by (simp add: recsOf_def jobKey_def)
    next
      case False
      then have "it \<in> set its" using Cons.prems(1) by simp
      moreover from this have "jobKey (job (itResp a)) \<noteq> jobKey (job (itResp it))"
        using eq [of a it] na [of it] by auto
      ultimately show ?thesis
        using Cons.IH Cons.prems(2,3) by (simp add: recsOf_def jobKey_def)
    qed
  qed simp
  then show ?thesis using assms(2,3) by (simp add: queueInv_def)
qed

lemma batch_last:
  assumes "serialInv d n job s" "queueInv job s"
  shows "last1 k (recsOf job (walBatch (lsWal s))) = Some r \<longleftrightarrow>
    (\<exists>it \<in> set (walBatch (lsWal s)). jobKey (job (itResp it)) = k \<and> r = fst (job (itResp it)))"
proof
  assume "last1 k (recsOf job (walBatch (lsWal s))) = Some r"
  from last1_Some [OF this] show "\<exists>it \<in> set (walBatch (lsWal s)). jobKey (job (itResp it)) = k \<and> r = fst (job (itResp it))"
    by (auto simp: recsOf_def jobKey_def)
next
  assume "\<exists>it \<in> set (walBatch (lsWal s)). jobKey (job (itResp it)) = k \<and> r = fst (job (itResp it))"
  then show "last1 k (recsOf job (walBatch (lsWal s))) = Some r"
    using batch_keys [OF assms] last1_one by blast
qed

text \<open>The part of the log behind the fence grows.\<close>

lemma imageInv_grow:
  assumes "imageInv d s tail built acc" "\<And>k x. last1 k new = Some x \<Longrightarrow> recTs x = lsTs s k"
    and "lsIndex s' = lsIndex s" "lsTs s' = lsTs s"
  shows "imageInv d s' (tail @ new) built acc"
  using assms by (auto simp: imageInv_def last1_append split: option.splits)

lemma ckInv_grow:
  assumes "ckInv d n job s recs (lsCk s)" "lsIndex s' = lsIndex s" "lsTs s' = lsTs s" "lsCk s' = lsCk s"
    and "wepoch (lsWal s') = wepoch (lsWal s)" "\<And>k x. last1 k new = Some x \<Longrightarrow> recTs x = lsTs s k"
    and "\<And>w. lsPhase s' w = lsPhase s w \<or> last1 (jobKey (job w)) new \<noteq> None"
  shows "ckInv d n job s' (recs @ new) (lsCk s')"
proof -
  note im = imageInv_grow [where new = new and s = s and s' = s', OF _ assms(6,2,3)]
  have t: "tailSeen job s' (tail @ new)" if "tailSeen job s tail" for tail
    unfolding tailSeen_def
  proof (intro allI impI)
    fix w assume "logged (lsPhase s' w) (wepoch (lsWal s'))"
    then have "logged (lsPhase s w) (wepoch (lsWal s)) \<or> last1 (jobKey (job w)) new \<noteq> None"
      using assms(7) [of w] assms(5) by auto
    then show "last1 (jobKey (job w)) (tail @ new) \<noteq> None"
      using that by (auto simp: tailSeen_def last1_append split: option.splits)
  qed
  show ?thesis
  proof (cases "lsCk s")
    case (CkFenced off old)
    then obtain pre tail where "recs = pre @ tail" "off = length (encs pre)" "tailSeen job s tail"
      using assms(1) by auto
    then have "recs @ new = pre @ (tail @ new) \<and> off = length (encs pre) \<and> tailSeen job s' (tail @ new)"
      using t by simp
    then show ?thesis unfolding CkFenced assms(4) ckInv.simps by blast
  next
    case (CkBuilding off left buf)
    then obtain pre tail acc where r: "recs = pre @ tail" "off = length (encs pre)" "tailSeen job s tail" "buf = encs acc"
      "distinct left" "set left \<subseteq> set (shardsFrom d n)" "imageInv d s tail (set (shardsFrom d n) - set left) acc"
      using assms(1) by auto
    have "recs @ new = pre @ (tail @ new) \<and> off = length (encs pre) \<and> tailSeen job s' (tail @ new) \<and> buf = encs acc \<and>
      distinct left \<and> set left \<subseteq> set (shardsFrom d n) \<and>
      imageInv d s' (tail @ new) (set (shardsFrom d n) - set left) acc"
      using r t im by simp
    then show ?thesis unfolding CkBuilding assms(4) ckInv.simps by blast
  next
    case (CkCopying off copied buf)
    then obtain pre t1 t2 acc where r: "recs = pre @ t1 @ t2" "off = length (encs pre)" "copied = length (encs (pre @ t1))"
      "tailSeen job s (t1 @ t2)" "buf = encs (acc @ t1)" "imageInv d s (t1 @ t2) (set (shardsFrom d n)) acc"
      using assms(1) by auto
    have "recs @ new = pre @ t1 @ (t2 @ new) \<and> off = length (encs pre) \<and> copied = length (encs (pre @ t1)) \<and>
      tailSeen job s' (t1 @ (t2 @ new)) \<and> buf = encs (acc @ t1) \<and>
      imageInv d s' (t1 @ (t2 @ new)) (set (shardsFrom d n)) acc"
      using r t [OF r(4)] im [OF r(6)] by simp
    then show ?thesis unfolding CkCopying assms(4) ckInv.simps by blast
  qed (simp add: assms(4))
qed

text \<open>What the writers of a batch guarantee of its records.\<close>

lemma batch_cands:
  assumes "serialInv d n job s" "queueInv job s" "\<forall>w. writerInv d s recs (job w) (lsPhase s w)"
    and "last1 k (recsOf job (walBatch (lsWal s))) = Some x"
  obtains it where "it \<in> set (walBatch (lsWal s))" "jobKey (job (itResp it)) = k" "x = fst (job (itResp it))"
    "Some (job (itResp it)) \<in> lsCands s k" "lsTs s k = recTs x"
proof -
  obtain it where it: "it \<in> set (walBatch (lsWal s))" "jobKey (job (itResp it)) = k" "x = fst (job (itResp it))"
    using assms(4) batch_last [OF assms(1,2)] by auto
  then obtain e where "lsPhase s (itResp it) = PQueued e" using assms(2) unfolding queueInv_def by (metis UnCI set_append)
  with assms(3) [rule_format, of "itResp it"] it show ?thesis by (auto intro: that)
qed

lemma keyInv_grow:
  assumes "keyInv d s recs k" "lsIndex s' = lsIndex s" "lsTs s' = lsTs s" "lsCands s' = lsCands s"
    and "\<forall>x \<in> set new. wKey x = k \<longrightarrow> last1 k new = Some x"
    and "\<And>x. last1 k new = Some x \<Longrightarrow> lsTs s k = recTs x \<and> (\<exists>c \<in> lsCands s k. tells d c (Some x))"
  shows "keyInv d s' (recs @ new) k"
proof (cases "last1 k new")
  case None
  then have "\<forall>x \<in> set new. wKey x \<noteq> k" by (simp add: last1_None)
  then show ?thesis
    using assms(1) unfolding keyInv_def last1_append None assms(2-4) by auto
next
  case (Some x)
  have x: "lsTs s k = recTs x" "\<exists>c \<in> lsCands s k. tells d c (Some x)" using assms(6) [OF Some] by auto
  have "recTs y \<le> recTs x" if "y \<in> set (recs @ new)" "wKey y = k" for y
    using that assms(1,5) x(1) Some by (auto simp: keyInv_def)
  moreover have "ieWriteTimestampUs e \<le> recTs x" if e: "lookup (lsIndex s) k = Some e" "\<not> IsTombstone e" for e
  proof -
    obtain y where y: "last1 k recs = Some y" "ieWriteTimestampUs e \<le> recTs y"
      using assms(1) e unfolding keyInv_def by blast
    moreover have "recTs y \<le> lsTs s k" using assms(1) last1_Some [OF y(1)] unfolding keyInv_def by blast
    ultimately show ?thesis using x(1) by simp
  qed
  ultimately show ?thesis
    using assms(1) x unfolding keyInv_def last1_append Some assms(2-4) by simp
qed

lemma main_sync:
  assumes "mainInv d n job s" "queueInv job s" "serialInv d n job s" "\<forall>w. jobOk d (job w)"
    and "flush_sync True (lsWal s) = (rs, wal)" "s' = s\<lparr>lsWal := wal, lsPhase := answer rs (lsPhase s), lsFault := f\<rparr>"
  shows "mainInv d n job s'"
proof -
  note ff = flush_sync_fields [OF assms(5)]
  obtain recs where r: "fileInv job s recs" "\<forall>k. onDisk d n k \<longrightarrow> keyInv d s recs k" "\<forall>w. writerInv d s recs (job w) (lsPhase s w)"
    "ckInv d n job s recs (lsCk s)" "indexOk (lsIndex s)"
    using assms(1) by (auto simp: mainInv_def)
  define new where "new = recsOf job (walBatch (lsWal s))"
  note cands = batch_cands [OF assms(3,2) r(3), folded new_def]
  have f: "lsIndex s' = lsIndex s" "lsTs s' = lsTs s" "lsCk s' = lsCk s" "lsCands s' = lsCands s"
    "wepoch (lsWal s') = wepoch (lsWal s)" "lsPhase s' = answer rs (lsPhase s)" "lsWal s' = wal"
    using ff(9) assms(6) by simp_all
  have "concat (map itData (walBatch (lsWal s))) = encs new"
    unfolding new_def using assms(2) by (intro data_encs) (simp add: queueInv_def)
  then have "fileInv job s' (recs @ new)"
    using r(1) ff assms(4) by (auto simp: fileInv_def new_def recsOf_def jobOk_def f)
  moreover have "keyInv d s' (recs @ new) k" if disk: "onDisk d n k" for k
  proof (rule keyInv_grow [OF r(2) [rule_format, OF disk] f(1,2,4)])
    show "\<forall>x \<in> set new. wKey x = k \<longrightarrow> last1 k new = Some x"
    proof (intro ballI impI)
      fix x assume "x \<in> set new" "wKey x = k"
      then obtain it where "it \<in> set (walBatch (lsWal s))" "x = fst (job (itResp it))" "jobKey (job (itResp it)) = k"
        by (auto simp: new_def recsOf_def jobKey_def)
      then show "last1 k new = Some x" using batch_last [OF assms(3,2)] unfolding new_def by blast
    qed
  next
    fix x assume "last1 k new = Some x"
    then show "lsTs s k = recTs x \<and> (\<exists>c \<in> lsCands s k. tells d c (Some x))"
      by (rule cands) (use tells_own assms(4) in \<open>blast intro: sym\<close>)
  qed
  moreover have ph: "lsPhase s' w = lsPhase s w \<and> (silent (lsPhase s w) \<or> last1 (jobKey (job w)) new = None) \<or>
      (\<exists>e. lsPhase s' w = PLogged e True) \<and> last1 (jobKey (job w)) new = Some (fst (job w)) \<and>
        Some (job w) \<in> lsCands s (jobKey (job w))" for w
  proof (cases "w \<in> itResp ` set (walBatch (lsWal s))")
    case True
    then obtain it where it': "it \<in> set (walBatch (lsWal s))" "w = itResp it" by blast
    moreover obtain e where "lsPhase s w = PQueued e"
      using assms(2) it' unfolding queueInv_def by (metis UnCI set_append)
    ultimately have it: "it \<in> set (walBatch (lsWal s))" "w = itResp it" "lsPhase s w = PQueued e" by blast+
    have "distinct (map fst rs)" "(w, True) \<in> set rs"
      using ff(5) assms(2) it(1,2) by (auto simp: queueInv_def comp_def)
    then have "lsPhase s' w = PLogged e True" using answer_in it(3) f(6) by simp
    moreover have "last1 (jobKey (job w)) new = Some (fst (job w))"
      using batch_last [OF assms(3,2)] it(1,2) by (auto simp: new_def)
    ultimately show ?thesis
      using r(3) [rule_format, of w] it(3) by simp
  next
    case False
    then have "w \<notin> fst ` set rs" using ff(5) by (auto simp: image_image)
    moreover have "last1 (jobKey (job w)) new = None" if "inFlight (lsPhase s w)"
    proof (rule ccontr)
      assume "last1 (jobKey (job w)) new \<noteq> None"
      then obtain it where it: "it \<in> set (walBatch (lsWal s))" "jobKey (job (itResp it)) = jobKey (job w)"
        using cands by (metis option.exhaust)
      then have "inFlight (lsPhase s (itResp it))"
        using assms(2) unfolding queueInv_def by (metis UnCI inFlight_simps(6) set_append)
      then have "itResp it = w" using that it(2) assms(3) unfolding serialInv_def by metis
      with False it(1) show False by blast
    qed
    ultimately show ?thesis using silent_idle [of "lsPhase s w"]
      by (cases "inFlight (lsPhase s w)") (simp_all add: answer_other f(6))
  qed
  moreover have "writerInv d s' (recs @ new) (job w) (lsPhase s' w)" for w
  proof -
    consider "lsPhase s' w = lsPhase s w" "last1 (jobKey (job w)) new = None"
      | "lsPhase s' w = lsPhase s w" "silent (lsPhase s w)"
      | e where "lsPhase s' w = PLogged e True" "last1 (jobKey (job w)) new = Some (fst (job w))"
          "Some (job w) \<in> lsCands s (jobKey (job w))"
      using ph [of w] by metis
    then show ?thesis
    proof cases
      case 1
      then show ?thesis
        using r(3) [rule_format, of w] f by - (rule writerInv_other [of d s recs], simp_all add: last1_append)
    next
      case 3
      then show ?thesis using tells_own assms(4) f by (simp add: last1_append)
    qed (simp add: silent_writerInv)
  qed
  moreover have "ckInv d n job s' (recs @ new) (lsCk s')"
  proof (rule ckInv_grow [OF r(4) f(1,2,3,5)])
    show "recTs x = lsTs s k" if "last1 k new = Some x" for k x using cands [OF that] by metis
    show "lsPhase s' w = lsPhase s w \<or> last1 (jobKey (job w)) new \<noteq> None" for w using ph [of w] by auto
  qed
  ultimately show ?thesis using r(5) f(1) unfolding mainInv_def by metis
qed

section \<open>The checkpoint\<close>

lemma entered_logged: "logged p e \<Longrightarrow> entered p = Some e"
  by (auto simp: logged_def)

lemma main_ck:
  assumes "fileInv job s recs" "\<forall>k. onDisk d n k \<longrightarrow> keyInv d s recs k" "\<forall>w. writerInv d s recs (job w) (lsPhase s w)"
    "indexOk (lsIndex s)" "ckInv d n job s' recs (lsCk s')"
    and "lsIndex s' = lsIndex s" "lsCands s' = lsCands s" "lsTs s' = lsTs s" "lsPhase s' = lsPhase s"
      "walFile (lsWal s') = walFile (lsWal s)" "walSynced (lsWal s') = walSynced (lsWal s)"
      "durableBytes (lsWal s') = durableBytes (lsWal s)" "walBatch (lsWal s') = walBatch (lsWal s)"
  shows "mainInv d n job s'"
proof -
  have "fileInv job s' recs" using assms(1,10-13) by (simp add: fileInv_def)
  moreover have "keyInv d s' = keyInv d s" using assms(6-8) by (simp add: keyInv_def fun_eq_iff)
  moreover have "writerInv d s' recs (job w) (lsPhase s' w)" for w
    using assms(3,9) writerInv_cong [OF assms(6-8)] by simp
  ultimately show ?thesis unfolding mainInv_def using assms(2,4-6) by metis
qed

lemma main_fence:
  assumes "mainInv d n job s" "epochInv s" "lsCk s = CkIdle" "walBatch (lsWal s) = []"
    and "ckpt_fence (lsWal s) = ((off, e), wal)" "s' = s\<lparr>lsWal := wal, lsCk := CkFenced off e\<rparr>"
  shows "mainInv d n job s'"
proof -
  obtain recs where r: "fileInv job s recs" "\<forall>k. onDisk d n k \<longrightarrow> keyInv d s recs k" "\<forall>w. writerInv d s recs (job w) (lsPhase s w)"
    "indexOk (lsIndex s)"
    using assms(1) by (auto simp: mainInv_def)
  have w: "off = length (encs recs)" "wepoch wal = Suc (wepoch (lsWal s))"
    using r(1) assms(4,5) by (auto simp: ckpt_fence_def fileInv_def recsOf_def)
  have "\<not> logged (lsPhase s w) (wepoch wal)" for w
    using assms(2,3) entered_logged w(2) by (fastforce simp: epochInv_def)
  then have "tailSeen job s' []" using assms(6) by (simp add: tailSeen_def)
  then have "ckInv d n job s' recs (lsCk s')"
    using w(1) assms(6) by (simp add: exI [of _ recs])
  then show ?thesis
    using assms(5,6) by (intro main_ck [OF r(1-4)]) (auto simp: ckpt_fence_def)
qed

lemma main_drained:
  assumes "mainInv d n job s" "lsCk s = CkFenced off e" "s' = s\<lparr>lsCk := CkBuilding off (shardsFrom d n) []\<rparr>"
  shows "mainInv d n job s'"
proof -
  obtain recs where r: "fileInv job s recs" "\<forall>k. onDisk d n k \<longrightarrow> keyInv d s recs k" "\<forall>w. writerInv d s recs (job w) (lsPhase s w)"
    "indexOk (lsIndex s)" "ckInv d n job s recs (lsCk s)"
    using assms(1) by (auto simp: mainInv_def)
  then obtain pre tail where t: "recs = pre @ tail" "off = length (encs pre)" "tailSeen job s tail"
    using assms(2) by auto
  have "tailSeen job s' tail" using t(3) assms(3) by (simp add: tailSeen_def)
  moreover have "imageInv d s' tail (set (shardsFrom d n) - set (shardsFrom d n)) []" by (simp add: imageInv_def)
  ultimately have "ckInv d n job s' recs (CkBuilding off (shardsFrom d n) [])"
    unfolding ckInv.simps using t distinct_shardsFrom by (metis encs_simps(1) subset_refl)
  then show ?thesis using assms(3) by (intro main_ck [OF r(1-4)]) simp_all
qed

text \<open>The record of a live entry without deadline, and the records of a shard.\<close>

lemma checkpointEntry_live:
  assumes "\<not> IsTombstone e" "entryFits k e" "CacheExpiryUs e = 0" "v < 2 ^ 64"
  obtains w where "checkpointEntry True v False None now k e dirty = Some w" "\<not> wIsTombstone w" "goodRec w"
    "sameRecord e (installedEntry d True (replayedEntry w))" "recTs w = ieWriteTimestampUs e"
proof -
  have "\<not> IsExpired t e" for t using assms(3) by (auto simp: IsExpired_def CacheExpiryUs_def split: if_splits)
  then obtain w where w: "checkpointEntry True v False None now k e dirty = Some w" "\<not> wIsTombstone w" "wTTLExpiryUs w = 0"
    using assms(1-3) by (auto simp: checkpointEntry_def Let_def entryFits_def zeroWAL_def CacheExpiryUs_def)
  have same: "sameRecord e (installedEntry d True (replayedEntry w))"
    by (rule checkpointEntry_same [OF w(1) assms(2,1)])
  moreover have "goodRec w"
    using w(3) checkpointEntry_ok [OF w(1) _ assms(4)] checkpointEntry_direct [OF w(1)] assms(2)
    by (simp add: goodRec_def storedFits_def entryFits_def assms(1))
  moreover have "recTs w = ieWriteTimestampUs e" using same installed_ts [of d w] by (simp add: sameRecord_def)
  ultimately show ?thesis using w(1,2) that by blast
qed

definition shardRecs :: "nat \<Rightarrow> int \<Rightarrow> shardedIndex \<Rightarrow> nat \<Rightarrow> WALEntry list" where
  "shardRecs v now si i =
     List.map_filter (\<lambda>(k, e). checkpointEntry True v False None now k e (dirtyOf si k)) (scanEntries [i] si)"

lemma ckpt_shard_encs:
  "\<not> legacyText wal \<Longrightarrow> \<not> dropTTL wal \<Longrightarrow> ckpt_shard True v None now wal si i (encs acc) = encs (acc @ shardRecs v now si i)"
  by (simp add: ckpt_shard_def shardRecs_def appendWALRecordEnc_bytes concat_encs)

lemma shardRecs_image:
  assumes "shapeOk si" "v < 2 ^ 64" "shardFor k = i"
    and "\<forall>e. lookup si k = Some e \<longrightarrow> \<not> IsTombstone e \<longrightarrow> entryFits k e \<and> CacheExpiryUs e = 0"
  shows "isImage d k (lookup si k) (filter (\<lambda>r. wKey r = k) (shardRecs v now si i))"
    "r \<in> set (shardRecs v now si i) \<Longrightarrow> wKey r = k \<Longrightarrow>
      goodRec r \<and> (\<exists>e. lookup si k = Some e \<and> \<not> IsTombstone e \<and> recTs r = ieWriteTimestampUs e)"
proof -
  have "map_of (scanEntries [i] si) k = Some e \<longleftrightarrow> lookup si k = Some e" for e
    using assms(1,3) distinct_scan [OF assms(1), of "[i]"] by (simp add: map_of_eq_Some_iff scanEntries_iff)
  then have "map_of (scanEntries [i] si) k = lookup si k" by (metis not_None_eq)
  then have f: "filter (\<lambda>r. wKey r = k) (shardRecs v now si i) = (case lookup si k of None \<Rightarrow> []
      | Some e \<Rightarrow> (case checkpointEntry True v False None now k e (dirtyOf si k) of None \<Rightarrow> [] | Some w \<Rightarrow> [w]))"
    unfolding shardRecs_def
    by (subst map_filter_key [OF distinct_scan [OF assms(1)]]) (simp_all add: checkpointEntry_key)
  have tomb: "checkpointEntry True v False None now k e (dirtyOf si k) = None" if "IsTombstone e" for e
    using that by (simp add: checkpointEntry_def Let_def)
  show "isImage d k (lookup si k) (filter (\<lambda>r. wKey r = k) (shardRecs v now si i))"
  proof (cases "lookup si k")
    case (Some e)
    show ?thesis
    proof (cases "IsTombstone e")
      case False
      obtain w where w: "checkpointEntry True v False None now k e (dirtyOf si k) = Some w" "\<not> wIsTombstone w"
        "sameRecord e (installedEntry d True (replayedEntry w))" "recTs w = ieWriteTimestampUs e"
        using checkpointEntry_live [of e k v now "dirtyOf si k" d] False Some assms(2,4) by metis
      then show ?thesis using Some False unfolding f isImage_def by simp
    qed (use Some tomb f in \<open>simp add: isImage_def\<close>)
  qed (use f in \<open>simp add: isImage_def\<close>)
  assume "r \<in> set (shardRecs v now si i)" "wKey r = k"
  then have "r \<in> set (filter (\<lambda>r. wKey r = k) (shardRecs v now si i))" by simp
  then obtain e where e: "lookup si k = Some e" "checkpointEntry True v False None now k e (dirtyOf si k) = Some r"
    unfolding f by (cases "lookup si k") (simp_all split: option.splits)
  then have "\<not> IsTombstone e" using tomb by auto
  then obtain w where "checkpointEntry True v False None now k e (dirtyOf si k) = Some w" "goodRec w"
      "recTs w = ieWriteTimestampUs e"
    using checkpointEntry_live [of e k v now "dirtyOf si k" d] e(1) assms(2,4) by metis
  with e \<open>\<not> IsTombstone e\<close>
  show "goodRec r \<and> (\<exists>e. lookup si k = Some e \<and> \<not> IsTombstone e \<and> recTs r = ieWriteTimestampUs e)"
    by simp
qed

lemma shardRecs_shard:
  assumes "shapeOk si" "r \<in> set (shardRecs v now si i)"
  shows "shardFor (wKey r) = i"
  using assms by (auto simp: shardRecs_def in_map_filter scanEntries_iff dest: checkpointEntry_key)

lemma imageInv_build:
  assumes "imageInv d s tail built acc" "i \<notin> built" "shapeOk (lsIndex s)" "v < 2 ^ 64"
    and "\<forall>k. shardFor k = i \<longrightarrow> keyInv d s (pre @ tail) k"
  shows "imageInv d s tail (insert i built) (acc @ shardRecs v now (lsIndex s) i)"
proof -
  let ?ws = "shardRecs v now (lsIndex s) i"
  note old = assms(1) [unfolded imageInv_def]
  have sh: "shardFor (wKey r) = i" if "r \<in> set ?ws" for r using shardRecs_shard [OF assms(3) that] .
  have fits: "\<forall>e. lookup (lsIndex s) k = Some e \<longrightarrow> \<not> IsTombstone e \<longrightarrow> entryFits k e \<and> CacheExpiryUs e = 0"
    if "shardFor k = i" for k using assms(5) that unfolding keyInv_def by blast
  note image = shardRecs_image [OF assms(3,4) _ fits]
  have good: "goodRec r" if "r \<in> set ?ws" for r using image(2) [OF sh [OF that] sh [OF that] that refl] by blast
  have own: "recTs r \<le> lsTs s k \<and> (\<forall>r'. last1 k tail = Some r' \<longrightarrow> recTs r \<le> recTs r')"
    if r: "r \<in> set ?ws" "wKey r = k" for r k
  proof -
    have k: "shardFor k = i" using sh r by blast
    obtain e where "lookup (lsIndex s) k = Some e" "\<not> IsTombstone e" "recTs r = ieWriteTimestampUs e"
      using image(2) [OF k k r] by blast
    then obtain x where x: "last1 k (pre @ tail) = Some x" "recTs r \<le> recTs x"
      using assms(5) k unfolding keyInv_def by metis
    moreover have "recTs x \<le> lsTs s k"
      using last1_Some [OF x(1)] assms(5) k unfolding keyInv_def by blast
    ultimately show ?thesis by (auto simp: last1_append)
  qed
  have none: "filter (\<lambda>r. wKey r = k) ?ws = []" if "shardFor k \<noteq> i" for k using sh that by (auto simp: filter_empty_conv)
  have none': "filter (\<lambda>r. wKey r = k) acc = []" if "shardFor k = i" for k
    using old assms(2) that by (auto simp: filter_empty_conv)
  have "isImage d k (lookup (lsIndex s) k) (filter (\<lambda>r. wKey r = k) (acc @ ?ws))"
    if "shardFor k \<in> insert i built" "last1 k tail = None" for k
  proof (cases "shardFor k = i")
    case True
    then show ?thesis using image(1) [OF True True] none' by simp
  next
    case False
    then show ?thesis using that old none by simp
  qed
  moreover have "goodRec r \<and> shardFor (wKey r) \<in> insert i built" if "r \<in> set (acc @ ?ws)" for r
    using that old good sh by auto
  moreover have "recTs r \<le> lsTs s k \<and> (\<forall>r'. last1 k tail = Some r' \<longrightarrow> recTs r \<le> recTs r')"
    if "r \<in> set (acc @ ?ws)" "wKey r = k" for r k
    using that old own by auto
  ultimately show ?thesis unfolding imageInv_def by blast
qed

lemma main_build:
  assumes "mainInv d n job s" "queueInv job s" "d < n" "v < 2 ^ 64" "lsCk s = CkBuilding off (i # left) buf"
    and "s' = s\<lparr>lsCk := CkBuilding off left (ckpt_shard True v None now (lsWal s) (lsIndex s) i buf)\<rparr>"
  shows "mainInv d n job s'"
proof -
  obtain recs where r: "fileInv job s recs" "\<forall>k. onDisk d n k \<longrightarrow> keyInv d s recs k" "\<forall>w. writerInv d s recs (job w) (lsPhase s w)"
    "indexOk (lsIndex s)" "ckInv d n job s recs (lsCk s)"
    using assms(1) by (auto simp: mainInv_def)
  obtain pre tail acc where t: "recs = pre @ tail" "off = length (encs pre)" "tailSeen job s tail" "buf = encs acc"
      "distinct (i # left)" "set (i # left) \<subseteq> set (shardsFrom d n)"
      "imageInv d s tail (set (shardsFrom d n) - set (i # left)) acc"
    using r(5) unfolding assms(5) ckInv.simps by blast
  have i: "onDisk d n k" if "shardFor k = i" for k
    using t(6) that shardsFrom_disk [OF assms(3)] by (simp add: onDisk_def)
  have "insert i (set (shardsFrom d n) - set (i # left)) = set (shardsFrom d n) - set left"
    using t(5,6) by auto
  then have "imageInv d s tail (set (shardsFrom d n) - set left) (acc @ shardRecs v now (lsIndex s) i)"
    using imageInv_build [OF t(7) _ _ assms(4), where i = i and pre = pre and now = now] r(2,4) i t(1)
    by (simp add: indexOk_def)
  moreover have "tailSeen job s' tail" "imageInv d s' = imageInv d s"
    using t(3) assms(6) by (simp_all add: tailSeen_def imageInv_def fun_eq_iff)
  moreover have "ckpt_shard True v None now (lsWal s) (lsIndex s) i buf = encs (acc @ shardRecs v now (lsIndex s) i)"
    unfolding t(4) using assms(2) by (intro ckpt_shard_encs) (simp_all add: queueInv_def)
  moreover have "distinct left" "set left \<subseteq> set (shardsFrom d n)" using t(5,6) by simp_all
  ultimately have "ckInv d n job s' recs (CkBuilding off left (ckpt_shard True v None now (lsWal s) (lsIndex s) i buf))"
    unfolding ckInv.simps using t(1,2) by metis
  then show ?thesis using assms(6) by (intro main_ck [OF r(1-4)]) simp_all
qed

lemma main_built:
  assumes "mainInv d n job s" "lsCk s = CkBuilding off [] buf" "s' = s\<lparr>lsCk := CkCopying off off buf\<rparr>"
  shows "mainInv d n job s'"
proof -
  obtain recs where r: "fileInv job s recs" "\<forall>k. onDisk d n k \<longrightarrow> keyInv d s recs k" "\<forall>w. writerInv d s recs (job w) (lsPhase s w)"
    "indexOk (lsIndex s)" "ckInv d n job s recs (lsCk s)"
    using assms(1) by (auto simp: mainInv_def)
  obtain pre tail acc where t: "recs = pre @ tail" "off = length (encs pre)" "tailSeen job s tail" "buf = encs acc"
      "imageInv d s tail (set (shardsFrom d n)) acc"
    using r(5) unfolding assms(2) ckInv.simps by auto
  have "recs = pre @ [] @ tail \<and> off = length (encs pre) \<and> off = length (encs (pre @ [])) \<and> tailSeen job s' ([] @ tail) \<and>
      buf = encs (acc @ []) \<and> imageInv d s' ([] @ tail) (set (shardsFrom d n)) acc"
    using t assms(3) by (simp add: tailSeen_def imageInv_def)
  then have "ckInv d n job s' recs (CkCopying off off buf)" unfolding ckInv.simps by blast
  then show ?thesis using assms(3) by (intro main_ck [OF r(1-4)]) simp_all
qed

lemma main_copy:
  assumes "mainInv d n job s" "lsCk s = CkCopying off copied buf" "ckpt_tail copied buf (lsWal s) = (copied', buf')"
    and "s' = s\<lparr>lsCk := CkCopying off copied' buf'\<rparr>"
  shows "mainInv d n job s'"
proof -
  obtain recs where r: "fileInv job s recs" "\<forall>k. onDisk d n k \<longrightarrow> keyInv d s recs k" "\<forall>w. writerInv d s recs (job w) (lsPhase s w)"
    "indexOk (lsIndex s)" "ckInv d n job s recs (lsCk s)"
    using assms(1) by (auto simp: mainInv_def)
  obtain pre t1 t2 acc where t: "recs = pre @ t1 @ t2" "off = length (encs pre)" "copied = length (encs (pre @ t1))"
      "tailSeen job s (t1 @ t2)" "buf = encs (acc @ t1)" "imageInv d s (t1 @ t2) (set (shardsFrom d n)) acc"
    using r(5) unfolding assms(2) ckInv.simps by blast
  have keep: "tailSeen job s' = tailSeen job s" "imageInv d s' = imageInv d s"
    using assms(4) by (simp_all add: tailSeen_def imageInv_def fun_eq_iff)
  consider "copied' = copied" "buf' = buf" | "copied' = length (encs recs)" "buf' = encs (acc @ t1 @ t2)"
    using assms(3) r(1) t(1,3,5)
    by (auto simp: ckpt_tail_def durableOffset_def fileInv_def copyWALRange_def split: if_splits)
  then have "ckInv d n job s' recs (CkCopying off copied' buf')"
  proof cases
    case 1
    then show ?thesis unfolding ckInv.simps keep using t by blast
  next
    case 2
    then have "recs = pre @ (t1 @ t2) @ [] \<and> off = length (encs pre) \<and> copied' = length (encs (pre @ t1 @ t2)) \<and>
      tailSeen job s' ((t1 @ t2) @ []) \<and> buf' = encs (acc @ t1 @ t2) \<and>
      imageInv d s' ((t1 @ t2) @ []) (set (shardsFrom d n)) acc"
      using t by (simp add: keep)
    then show ?thesis unfolding ckInv.simps by blast
  qed
  then show ?thesis using assms(4) by (intro main_ck [OF r(1-4)]) simp_all
qed

text \<open>The new log says of every key what the old one or the index said.\<close>

lemma swap_keyInv:
  assumes "keyInv d s (pre @ tail) k" "imageInv d s tail built acc" "shardFor k \<in> built"
    and "lsIndex s' = lsIndex s" "lsCands s' = lsCands s" "lsTs s' = lsTs s"
  shows "keyInv d s' (acc @ tail) k"
proof (cases "last1 k tail")
  case (Some x)
  have "recTs r \<le> lsTs s k \<and> recTs r \<le> recTs x" if "r \<in> set (acc @ tail)" "wKey r = k" for r
    using that assms(1-3) Some unfolding keyInv_def imageInv_def by (auto simp: last1_append)
  then show ?thesis
    using assms(1) Some unfolding keyInv_def assms(4-6) by (simp add: last1_append)
next
  case None
  have im: "isImage d k (lookup (lsIndex s) k) (filter (\<lambda>r. wKey r = k) acc)"
    using assms(2,3) None unfolding imageInv_def by blast
  obtain c where c: "c \<in> lsCands s k" "indexedAs c (lookup (lsIndex s) k)"
    using assms(1) unfolding keyInv_def by blast
  have l: "last1 k (acc @ tail) = last1 k acc" by (simp add: last1_append None)
  have "tells d c (last1 k acc)"
    using im c(2) by (auto simp: tells_def indexedAs_def isImage_def last1_def split: option.splits if_splits)
  moreover have "\<exists>r. last1 k acc = Some r \<and> ieWriteTimestampUs e \<le> recTs r"
    if "lookup (lsIndex s) k = Some e" "\<not> IsTombstone e" for e
    using im that by (auto simp: isImage_def last1_def)
  moreover have "recTs r \<le> lsTs s k \<and> (\<forall>r'. last1 k acc = Some r' \<longrightarrow> recTs r \<le> recTs r')"
    if "r \<in> set (acc @ tail)" "wKey r = k" for r
  proof -
    have r: "r \<in> set acc" using that None by (auto simp: last1_None)
    define own where "own = filter (\<lambda>r. wKey r = k) acc"
    have "r \<in> set own" using r that(2) by (simp add: own_def)
    then have "own = [r]"
      using im [folded own_def] by (auto simp: isImage_def split: option.splits if_splits)
    then show ?thesis using assms(2,3) r that(2) by (simp add: imageInv_def last1_def own_def)
  qed
  ultimately show ?thesis
    using assms(1) c unfolding keyInv_def assms(4-6) l by blast
qed

lemma swap_file:
  assumes "fileInv job s (pre @ t1 @ t2)" "walBatch (lsWal s) = []" "copied = length (encs (pre @ t1))"
    and "wal = ckpt_swap opened copied (encs (acc @ t1)) (lsWal s)"
  shows "walFile wal = encs (acc @ t1 @ t2)" "walSynced wal = length (walFile wal)" "durableBytes wal = length (walFile wal)"
    "walBatch wal = []" "wepoch wal = wepoch (lsWal s)"
proof -
  have f: "walFile (lsWal s) = encs (pre @ t1) @ encs t2" using assms(1,2) by (simp add: fileInv_def recsOf_def)
  have nf: "(if length (walFile (lsWal s)) > copied then copyWALRange (encs (acc @ t1)) (walFile (lsWal s)) copied
      (length (walFile (lsWal s))) else encs (acc @ t1)) = encs (acc @ t1 @ t2)"
    unfolding f assms(3) by (simp add: copyWALRange_def)
  show "walFile wal = encs (acc @ t1 @ t2)" "walSynced wal = length (walFile wal)"
    "durableBytes wal = length (walFile wal)" "walBatch wal = []" "wepoch wal = wepoch (lsWal s)"
    using assms(2) unfolding assms(4) ckpt_swap_def Let_def nf by simp_all
qed

lemma main_swap:
  assumes "mainInv d n job s" "epochInv s" "d < n" "lsCk s = CkCopying off copied buf" "walBatch (lsWal s) = []"
    and "s' = s\<lparr>lsWal := ckpt_swap opened copied buf (lsWal s), lsCk := CkIdle, lsFault := f\<rparr>"
  shows "mainInv d n job s'"
proof -
  obtain recs where r: "fileInv job s recs" "\<forall>k. onDisk d n k \<longrightarrow> keyInv d s recs k" "\<forall>w. writerInv d s recs (job w) (lsPhase s w)"
    "indexOk (lsIndex s)" "ckInv d n job s recs (lsCk s)"
    using assms(1) by (auto simp: mainInv_def)
  obtain pre t1 t2 acc where t: "recs = pre @ t1 @ t2" "copied = length (encs (pre @ t1))"
      "tailSeen job s (t1 @ t2)" "buf = encs (acc @ t1)" "imageInv d s (t1 @ t2) (set (shardsFrom d n)) acc"
    using r(5) unfolding assms(4) ckInv.simps by blast
  have same: "lsIndex s' = lsIndex s" "lsCands s' = lsCands s" "lsTs s' = lsTs s" "lsPhase s' = lsPhase s" "lsCk s' = CkIdle"
    and wal: "lsWal s' = ckpt_swap opened copied (encs (acc @ t1)) (lsWal s)"
    using assms(6) t(4) by simp_all
  note fl = swap_file [OF r(1) [unfolded t(1)] assms(5) t(2) wal]
  have "fileInv job s' (acc @ t1 @ t2)"
    using fl t(1,5) r(1) by (auto simp: fileInv_def recsOf_def imageInv_def)
  moreover have "keyInv d s' (acc @ t1 @ t2) k" if k: "onDisk d n k" for k
  proof (rule swap_keyInv [OF _ t(5) _ same(1-3)])
    show "keyInv d s (pre @ t1 @ t2) k" using r(2) k t(1) by blast
    show "shardFor k \<in> set (shardsFrom d n)"
      using k shardsFrom_disk [OF assms(3)] shardFor_less by (simp add: onDisk_def)
  qed
  moreover have "writerInv d s' (acc @ t1 @ t2) (job w) (lsPhase s' w)" for w
  proof (cases "logged (lsPhase s w) (wepoch (lsWal s))")
    case True
    then have "last1 (jobKey (job w)) (t1 @ t2) \<noteq> None" using t(3) by (simp add: tailSeen_def)
    then have "last1 (jobKey (job w)) (acc @ t1 @ t2) = last1 (jobKey (job w)) recs"
      by (auto simp: t(1) last1_append split: option.splits)
    then show ?thesis
      using r(3) same by - (rule writerInv_other [of d s recs], simp_all)
  next
    case False
    moreover have "e = wepoch (lsWal s)" if "entered (lsPhase s w) = Some e" for e
      using assms(2,4) that by (simp add: epochInv_def)
    ultimately have "silent (lsPhase s w) \<or> (\<exists>e. lsPhase s w = PQueued e)"
      by (cases "lsPhase s w") (auto simp: logged_def)
    then show ?thesis
    proof
      assume "silent (lsPhase s w)"
      then show ?thesis by (simp add: same silent_writerInv)
    next
      assume "\<exists>e. lsPhase s w = PQueued e"
      then show ?thesis using r(3) [rule_format, of w] same by auto
    qed
  qed
  ultimately show ?thesis unfolding mainInv_def using r(4) same(1,5) by (metis ckInv.simps(1))
qed

section \<open>All steps\<close>

definition liveInv :: "nat \<Rightarrow> nat \<Rightarrow> (nat \<Rightarrow> write_job) \<Rightarrow> liveSys \<Rightarrow> bool" where
  "liveInv d n job s \<longleftrightarrow> countInv s \<and> epochInv s \<and> queueInv job s \<and> serialInv d n job s \<and> mainInv d n job s"

lemma mainInv_step:
  assumes "lstep d n v job s s'" "liveInv d n job s" "\<not> lsFault s'" "\<forall>w. jobOk d (job w)" "d < n" "v < 2 ^ 64"
    and "\<not> lsRaced s'"
  shows "mainInv d n job s'"
proof -
  have i: "epochInv s" "queueInv job s" "serialInv d n job s" "mainInv d n job s"
    using assms(2) by (simp_all add: liveInv_def)
  show ?thesis
    using assms(1)
  proof cases
    case (w_load w)
    then show ?thesis
      by (intro main_sameData [OF i(4)]) (auto simp: sameData_def setPhase_def)
  next
    case (w_add w e)
    then show ?thesis
      by (intro main_sameData [OF i(4)]) (auto simp: sameData_def setPhase_def enterWrite_add_def)
  next
    case (w_check w e ok wal)
    then show ?thesis
      by (intro main_sameData [OF i(4)])
        (auto simp: setPhase_def enterWrite_check_def exitWrite_def sameData_def split: if_splits)
  next
    case (w_enqueue w e)
    have le: "lsTs s (jobKey (job w)) \<le> jobTs (job w)"
      using assms(7) w_enqueue(1) by (simp add: setPhase_def)
    show ?thesis
      unfolding w_enqueue(1) max_absorb2 [OF le] by (rule main_enqueue [OF i(4,3) w_enqueue(2) le])
  next
    case (f_write m out rs wal)
    moreover have "out = WriteOk \<or> out = WriteErr 0" using f_write(1) assms(3) by (cases out) auto
    ultimately show ?thesis using main_write [OF i(4,2)] by blast
  next
    case (f_sync ok rs wal)
    then show ?thesis using main_sync [OF i(4,2,3) assms(4)] assms(3) by auto
  next
    case (w_index w e)
    then show ?thesis using main_index [OF i(4,3,1) assms(4)] by blast
  next
    case (w_fail w e ok)
    then show ?thesis
      by (intro main_sameData [OF i(4)]) (auto simp: setPhase_def exitWrite_def sameData_def)
  next
    case (w_ack w e)
    then show ?thesis using main_ack [OF i(4,3)] by blast
  next
    case (c_fence off e wal)
    then show ?thesis using main_fence [OF i(4,1)] by blast
  next
    case (c_drained off e)
    then show ?thesis using main_drained [OF i(4)] by blast
  next
    case (c_timeout off e)
    then show ?thesis using assms(3) by simp
  next
    case (c_build off i' left buf now)
    then show ?thesis using main_build [OF i(4,2) assms(5,6)] by blast
  next
    case (c_built off buf)
    then show ?thesis using main_built [OF i(4)] by blast
  next
    case (c_copy off copied buf copied' buf')
    then show ?thesis using main_copy [OF i(4)] by blast
  next
    case (c_swap off copied buf opened dirOk)
    then show ?thesis using main_swap [OF i(4,1) assms(5)] by blast
  next
    case c_abort
    then show ?thesis by (intro main_sameData [OF i(4)]) (auto simp: sameData_def)
  qed
qed

lemma lsFault_step: "lstep d n v job s s' \<Longrightarrow> lsFault s \<Longrightarrow> lsFault s'"
  by (induction rule: lstep.induct) (auto simp: setPhase_def)

lemma lsRaced_step: "lstep d n v job s s' \<Longrightarrow> lsRaced s \<Longrightarrow> lsRaced s'"
  by (induction rule: lstep.induct) (auto simp: setPhase_def)

lemma liveInv_init: "liveInv d n job initSys"
proof -
  have "lookup newShardedIndex k = None" for k
    by (simp add: newShardedIndex_def lookup_def newIndexShard_def)
  then have "mainInv d n job initSys"
    using newShardedIndex_ok unfolding mainInv_def initSys_def
    by (simp add: newWriteAheadLog_def fileInv_def recsOf_def keyInv_def tells_def indexedAs_def exI [of _ "[]"])
  moreover have "countInv initSys"
    by (simp add: countInv_def initSys_def newWriteAheadLog_def inSlot_def comp_def)
  ultimately show ?thesis
    by (simp add: liveInv_def epochInv_def queueInv_def serialInv_def initSys_def newWriteAheadLog_def)
qed

lemma liveInv_reach:
  assumes "lreach d n v job s" "\<not> lsFault s" "\<not> lsRaced s" "\<forall>w. jobOk d (job w)" "d < n" "v < 2 ^ 64"
  shows "liveInv d n job s"
  using assms(1-3)
proof induction
  case init
  show ?case by (rule liveInv_init)
next
  case (step s s')
  then have i: "liveInv d n job s" using lsFault_step lsRaced_step by blast
  then show ?case
    using mainInv_step [OF step.hyps(2) i step.prems(1) assms(4-6) step.prems(2)] step.prems step.hyps(2)
      countInv_step epochInv_step queueInv_step serialInv_step unfolding liveInv_def by metis
qed

section \<open>A crash at any moment\<close>

lemma crash_keyInv:
  assumes "liveInv d n job s" "\<forall>w. jobOk d (job w)" "onDisk d n k" "walSynced (lsWal s) \<le> m"
  obtains ws where "replayWAL (take m (walFile (lsWal s))) = map replayedEntry ws" "\<forall>r \<in> set ws. goodRec r"
    "keyInv d s ws k"
proof -
  have inv: "queueInv job s" "serialInv d n job s" "mainInv d n job s" using assms(1) by (simp_all add: liveInv_def)
  obtain recs where r: "fileInv job s recs" "keyInv d s recs k" "\<forall>w. writerInv d s recs (job w) (lsPhase s w)"
    using inv(3) assms(3) by (auto simp: mainInv_def)
  define new where "new = recsOf job (walBatch (lsWal s))"
  have f: "walFile (lsWal s) = encs (recs @ new)" "length (encs recs) \<le> m" and good: "\<forall>r \<in> set (recs @ new). goodRec r"
    using r(1) assms(2,4) by (auto simp: fileInv_def new_def recsOf_def jobOk_def)
  then obtain j where j: "replayWAL (take m (encs (recs @ new))) = map replayedEntry (recs @ take j new)"
    using replay_crash [of recs new m] by (auto simp: goodRec_def)
  have part: "last1 k (take j new) = Some x" "last1 k new = Some x" if x: "x \<in> set (take j new)" "wKey x = k" for x
  proof -
    obtain it where it: "it \<in> set (walBatch (lsWal s))" "x = fst (job (itResp it))"
      using in_set_takeD [OF x(1)] by (auto simp: new_def recsOf_def)
    have one: "filter (\<lambda>r. wKey r = k) new = [x]"
      using batch_keys [OF inv(2,1) it(1)] it(2) x(2) by (simp add: new_def jobKey_def)
    then have "filter (\<lambda>r. wKey r = k) (take j new) @ filter (\<lambda>r. wKey r = k) (drop j new) = [x]"
      by (metis append_take_drop_id filter_append)
    moreover have "filter (\<lambda>r. wKey r = k) (take j new) \<noteq> []" using x by (auto simp: filter_empty_conv)
    ultimately have "filter (\<lambda>r. wKey r = k) (take j new) = [x]" by (auto simp: append_eq_Cons_conv)
    with one show "last1 k (take j new) = Some x" "last1 k new = Some x" by (simp_all add: last1_one)
  qed
  have "keyInv d s (recs @ take j new) k"
  proof (rule keyInv_grow [OF r(2) refl refl refl])
    show "\<forall>x \<in> set (take j new). wKey x = k \<longrightarrow> last1 k (take j new) = Some x" using part by blast
    fix x assume "last1 k (take j new) = Some x"
    then have "last1 k new = Some x" using part last1_Some by blast
    then show "lsTs s k = recTs x \<and> (\<exists>c \<in> lsCands s k. tells d c (Some x))"
      by (rule batch_cands [OF inv(2,1) r(3), folded new_def]) (use tells_own assms(2) in \<open>blast intro: sym\<close>)
  qed
  then show ?thesis
    using j f(1) good in_set_takeD [of _ j new] by (intro that [of "recs @ take j new"]) auto
qed

section \<open>Runs\<close>

text \<open>A write up to the answer of the flusher, and a checkpoint without writes.\<close>

lemma run_logged:
  assumes "diskForShard (shardFor (jobKey (job w))) n = d" "0 \<le> jobTs (job w)"
  obtains s where "lreach d n v job s" "lsPhase s = (\<lambda>_. PIdle)(w := PLogged 0 True)" "lsIndex s = newShardedIndex"
    "lsCk s = CkIdle" "\<not> lsFault s" "\<not> lsRaced s" "appendCh (lsWal s) = []" "walBatch (lsWal s) = []" "wepoch (lsWal s) = 0"
    "wactive (lsWal s) = (\<lambda>_. 0)(0 := 1)" "durableBytes (lsWal s) = length (walFile (lsWal s))"
    "walSynced (lsWal s) = length (walFile (lsWal s))"
    "lsCands s (jobKey (job w)) = {None, Some (job w)}"
proof -
  let ?s1 = "setPhase w (PLoaded 0) (initSys\<lparr>lsRaced := False\<rparr>)"
  have 1: "lreach d n v job ?s1"
    using lreach.step [OF lreach.init w_load [of initSys w]] assms(1) by (simp add: initSys_def newWriteAheadLog_def)
  let ?s2 = "setPhase w (PAdded 0) (?s1\<lparr>lsWal := enterWrite_add 0 (lsWal ?s1)\<rparr>)"
  have 2: "lreach d n v job ?s2"
    by (rule lreach.step [OF 1 w_add]) (simp add: setPhase_def)
  let ?s3 = "setPhase w (PEntered 0) ?s2"
  have 3: "lreach d n v job ?s3"
    using lreach.step [OF 2 w_check [of ?s2 w 0 True "lsWal ?s2"]]
    by (simp add: setPhase_def enterWrite_check_def initSys_def newWriteAheadLog_def)
  let ?s4 = "setPhase w (PQueued 0) (?s3\<lparr>lsWal := beginAppend w (fst (job w)) (lsWal ?s3),
      lsCands := (lsCands ?s3)(jobKey (job w) := insert (Some (job w)) (lsCands ?s3 (jobKey (job w)))),
      lsTs := (lsTs ?s3)(jobKey (job w) := max (lsTs ?s3 (jobKey (job w))) (jobTs (job w))),
      lsRaced := lsRaced ?s3 \<or> jobTs (job w) < lsTs ?s3 (jobKey (job w))\<rparr>)"
  have 4: "lreach d n v job ?s4"
    by (rule lreach.step [OF 3 w_enqueue]) (simp add: setPhase_def)
  let ?fw = "flush_write 1 WriteOk (lsWal ?s4)"
  let ?s5 = "?s4\<lparr>lsWal := snd ?fw, lsPhase := answer (fst ?fw) (lsPhase ?s4), lsFault := lsFault ?s4 \<or> False\<rparr>"
  have 5: "lreach d n v job ?s5"
    using lreach.step [OF 4 f_write [of ?s4 1 WriteOk "fst ?fw" "snd ?fw"]]
    by (simp add: setPhase_def initSys_def newWriteAheadLog_def beginAppend_def enterWrite_add_def)
  let ?fs = "flush_sync True (lsWal ?s5)"
  let ?s6 = "?s5\<lparr>lsWal := snd ?fs, lsPhase := answer (fst ?fs) (lsPhase ?s5), lsFault := lsFault ?s5 \<or> \<not> True\<rparr>"
  have 6: "lreach d n v job ?s6"
    by (rule lreach.step [OF 5 f_sync]) simp
  show ?thesis
    by (rule that [OF 6])
      (use assms(2) in \<open>auto simp: setPhase_def initSys_def newWriteAheadLog_def beginAppend_def enterWrite_add_def
        flush_write_def flush_sync_def Let_def answer_def fun_eq_iff\<close>)
qed

lemma run_build:
  "lreach d n v job s \<Longrightarrow> lsCk s = CkBuilding off left buf \<Longrightarrow>
    \<exists>buf'. lreach d n v job (s\<lparr>lsCk := CkBuilding off [] buf'\<rparr>) \<and>
      ((\<forall>i. entries (shards (lsIndex s) i) = []) \<longrightarrow> buf' = buf)"
proof (induction left arbitrary: s buf)
  case Nil
  then have "s\<lparr>lsCk := CkBuilding off [] buf\<rparr> = s" by simp
  with Nil show ?case by metis
next
  case (Cons i left)
  let ?b = "ckpt_shard True v None 0 (lsWal s) (lsIndex s) i buf"
  have "lreach d n v job (s\<lparr>lsCk := CkBuilding off left ?b\<rparr>)"
    by (rule lreach.step [OF Cons.prems(1) c_build]) (rule Cons.prems(2))
  from Cons.IH [OF this] obtain buf' where "lreach d n v job (s\<lparr>lsCk := CkBuilding off [] buf'\<rparr>)"
    "(\<forall>i. entries (shards (lsIndex s) i) = []) \<longrightarrow> buf' = ?b" by auto
  moreover have "(\<forall>i. entries (shards (lsIndex s) i) = []) \<longrightarrow> ?b = buf"
    by (simp add: ckpt_shard_def scanEntries_def List.map_filter_simps)
  ultimately show ?case by metis
qed

lemma run_checkpoint:
  assumes "lreach d n v job s" "lsCk s = CkIdle" "walBatch (lsWal s) = []" "wactive (lsWal s) (wepoch (lsWal s) mod 2) \<le> 0"
    and "durableBytes (lsWal s) = length (walFile (lsWal s))"
  obtains wal where "lreach d n v job (s\<lparr>lsWal := wal, lsCk := CkIdle\<rparr>)" "wepoch wal = wepoch (lsWal s) + 1"
    "walSynced wal = length (walFile wal)"
    "(\<forall>i. entries (shards (lsIndex s) i) = []) \<longrightarrow> walFile wal = []"
proof -
  let ?off = "length (walFile (lsWal s))"
  let ?s1 = "s\<lparr>lsWal := (lsWal s)\<lparr>wepoch := wepoch (lsWal s) + 1\<rparr>, lsCk := CkFenced ?off (wepoch (lsWal s))\<rparr>"
  have 1: "lreach d n v job ?s1"
    by (rule lreach.step [OF assms(1) c_fence]) (use assms(2,3) in \<open>simp_all add: ckpt_fence_def\<close>)
  let ?s2 = "?s1\<lparr>lsCk := CkBuilding ?off (shardsFrom d n) []\<rparr>"
  have 2: "lreach d n v job ?s2"
    by (rule lreach.step [OF 1 c_drained]) (use assms(4) in \<open>simp_all add: waitWriters_done_def\<close>)
  obtain buf where 3: "lreach d n v job (?s2\<lparr>lsCk := CkBuilding ?off [] buf\<rparr>)"
    and e: "(\<forall>i. entries (shards (lsIndex s) i) = []) \<longrightarrow> buf = []"
    using run_build [OF 2] by auto
  let ?s4 = "?s2\<lparr>lsCk := CkCopying ?off ?off buf\<rparr>"
  have 4: "lreach d n v job ?s4"
    using lreach.step [OF 3 c_built [of _ ?off buf]] by simp
  have 5: "lreach d n v job (?s4\<lparr>lsWal := ckpt_swap True ?off buf (lsWal ?s4), lsCk := CkIdle, lsFault := lsFault ?s4 \<or> \<not> True\<rparr>)"
    by (rule lreach.step [OF 4 c_swap]) (use assms(3) in simp_all)
  show ?thesis
    by (rule that [of "ckpt_swap True ?off buf (lsWal ?s4)"]) (use 5 e in \<open>simp_all add: ckpt_swap_def Let_def\<close>)
qed

text \<open>
  C10: writers, the flusher and checkpoints of a log run in any
  interleaving, and the machine stops at any moment, keeping any part of the log from the synced
  one on. The writes are deletes and puts with key-value separation and without a deadline. If no
  write or fdatasync of the log broke off, no drain timed out, no directory fsync failed, no two
  writes of one key were in flight together and the timestamps of a key never stepped back, the
  replay of what is left shows for every key of the disk the last acknowledged write or one
  begun after it. So no acknowledged put is lost, and no acknowledged delete undone, by the
  replacement of the log under load.
\<close>

theorem live_checkpoint_keeps:
  assumes "lreach d n v job s" "\<not> lsFault s" "\<not> lsRaced s" "\<forall>w. engineJob d (job w)" "d < n" "n < 2 ^ 32" "v < 2 ^ 64"
    and "diskForShard (shardFor k) n = d" "lookup si0 k = None" "walSynced (lsWal s) \<le> m"
  shows "\<exists>c \<in> lsCands s k. shown c (lookup (snd (applyWALReplay io d n True True now
    (replayWAL (take m (walFile (lsWal s)))) si0)) k)"
proof -
  have ok: "\<forall>w. jobOk d (job w)" using assms(4-6) engineJob_ok by (metis order_less_trans)
  have inv: "liveInv d n job s" by (rule liveInv_reach [OF assms(1-3) ok assms(5,7)])
  obtain ws where ws: "replayWAL (take m (walFile (lsWal s))) = map replayedEntry ws" "\<forall>r \<in> set ws. goodRec r" "keyInv d s ws k"
    using crash_keyInv [OF inv ok _ assms(10), of k] assms(8) by (auto simp: onDisk_def)
  then obtain c where "c \<in> lsCands s k" "tells d c (last1 k ws)" unfolding keyInv_def by blast
  then show ?thesis
    using replay_shows [OF ws(2) assms(8,9), of c] ws(3) unfolding ws(1) keyInv_def by blast
qed

definition exampleJob :: write_job where
  "exampleJob = (sepWAL [9] 0 0 4096 (putWAL [1] [7, 7] 5 0 0 3), sepEntry [9] 0 4096 0 (putEntry [1] [7, 7] 5 0 0))"

lemma exampleJob_engine: "engineJob 0 exampleJob"
  unfolding exampleJob_def by (rule engineJob.put) (simp add: putFits_def walMaxRecordField_def)

lemma exampleJob_simps: "jobKey exampleJob = [1]" "jobTs exampleJob = 5" "\<not> wIsTombstone (fst exampleJob)"
  by (simp_all add: exampleJob_def jobKey_def jobTs_def sepWAL_def putWAL_def goQuot_def)

lemma lookup_newShardedIndex: "lookup newShardedIndex k = None"
  by (simp add: newShardedIndex_def lookup_def newIndexShard_def)

theorem live_checkpoint_keeps_witness:
  "\<exists>s. lreach 0 1 7 (\<lambda>_. exampleJob) s \<and> lsPhase s 0 = PDone True \<and> \<not> lsFault s \<and> \<not> lsRaced s \<and> wepoch (lsWal s) = 1 \<and>
     lsCk s = CkIdle \<and> shown (Some exampleJob) (lookup (snd (applyWALReplay noIO 0 1 True True 9
       (replayWAL (take (length (walFile (lsWal s))) (walFile (lsWal s)))) newShardedIndex)) [1])"
proof -
  let ?job = "\<lambda>_ :: nat. exampleJob"
  obtain s where s: "lreach 0 1 7 ?job s" "lsPhase s = (\<lambda>_. PIdle)(0 := PLogged 0 True)" "lsCk s = CkIdle" "\<not> lsFault s" "\<not> lsRaced s"
    "walBatch (lsWal s) = []" "wepoch (lsWal s) = 0" "wactive (lsWal s) = (\<lambda>_. 0)(0 := 1)"
    "durableBytes (lsWal s) = length (walFile (lsWal s))"
    using run_logged [of ?job 0 1 0 7] exampleJob_simps by (auto simp: diskForShard_def)
  let ?s1 = "setPhase 0 (PIndexed 0) (s\<lparr>lsIndex := indexWrite exampleJob (lsIndex s)\<rparr>)"
  have 1: "lreach 0 1 7 ?job ?s1" by (rule lreach.step [OF s(1) w_index]) (simp add: s(2))
  let ?s2 = "setPhase 0 (PDone True) (?s1\<lparr>lsWal := exitWrite 0 (lsWal ?s1),
      lsCands := (lsCands ?s1)(jobKey exampleJob := {Some exampleJob})\<rparr>)"
  have 2: "lreach 0 1 7 ?job ?s2" by (rule lreach.step [OF 1 w_ack]) (simp add: setPhase_def)
  obtain wal where 3: "lreach 0 1 7 ?job (?s2\<lparr>lsWal := wal, lsCk := CkIdle\<rparr>)" (is "lreach 0 1 7 ?job ?s3")
    and wal: "wepoch wal = wepoch (lsWal ?s2) + 1" "walSynced wal = length (walFile wal)"
    by (rule run_checkpoint [OF 2]) (use s in \<open>simp_all add: setPhase_def exitWrite_def\<close>)
  have "\<exists>c \<in> lsCands ?s3 [1]. shown c (lookup (snd (applyWALReplay noIO 0 1 True True 9
      (replayWAL (take (length (walFile (lsWal ?s3))) (walFile (lsWal ?s3)))) newShardedIndex)) [1])"
    by (rule live_checkpoint_keeps [OF 3])
      (use s wal exampleJob_engine in \<open>simp_all add: setPhase_def diskForShard_def lookup_newShardedIndex\<close>)
  then show ?thesis
    using 3 s wal exampleJob_simps by (intro exI [of _ ?s3]) (simp add: setPhase_def exitWrite_def)
qed

text \<open>
  C39: a checkpoint that waits too long for the writes below its fence fails
  and leaves the log as it is, but the epoch stays advanced. The next checkpoint waits only for
  the writes of the new epoch. A put that was in flight all the time, its record below both
  fences, is then not in the index when the second checkpoint reads it and not behind its fence:
  the new log does not have it. The put is acknowledged, and a crash loses it.
\<close>

theorem drain_timeout_loses:
  assumes "engineJob d (job w)" "diskForShard (shardFor (jobKey (job w))) n = d" "\<not> wIsTombstone (fst (job w))"
  shows "\<exists>s. lreach d n v job s \<and> lsPhase s w = PDone True \<and> \<not> lsRaced s \<and>
    lsCands s (jobKey (job w)) = {Some (job w)} \<and> replayWAL (walFile (lsWal s)) = [] \<and>
    \<not> shown (Some (job w)) (lookup (snd (applyWALReplay io d n True True now (replayWAL (walFile (lsWal s)))
        newShardedIndex)) (jobKey (job w)))"
proof -
  obtain s where s: "lreach d n v job s" "lsPhase s = (\<lambda>_. PIdle)(w := PLogged 0 True)" "lsIndex s = newShardedIndex"
    "lsCk s = CkIdle" "\<not> lsRaced s" "walBatch (lsWal s) = []" "wepoch (lsWal s) = 0" "wactive (lsWal s) = (\<lambda>_. 0)(0 := 1)"
    "durableBytes (lsWal s) = length (walFile (lsWal s))"
    using run_logged [where job = job and w = w and n = n and d = d and v = v] assms(2) engineJob_ts [OF assms(1)] by auto
  let ?s1 = "s\<lparr>lsWal := (lsWal s)\<lparr>wepoch := 1\<rparr>, lsCk := CkFenced (length (walFile (lsWal s))) 0\<rparr>"
  have 1: "lreach d n v job ?s1"
    by (rule lreach.step [OF s(1) c_fence]) (use s in \<open>simp_all add: ckpt_fence_def\<close>)
  let ?s2 = "?s1\<lparr>lsCk := CkIdle, lsFault := True\<rparr>"
  have 2: "lreach d n v job ?s2" by (rule lreach.step [OF 1 c_timeout]) simp
  obtain wal where 3: "lreach d n v job (?s2\<lparr>lsWal := wal, lsCk := CkIdle\<rparr>)" (is "lreach d n v job ?s3")
    and buf: "walFile wal = []"
    by (rule run_checkpoint [OF 2]) (use s in \<open>simp_all add: newShardedIndex_def newIndexShard_def\<close>)
  let ?s4 = "setPhase w (PIndexed 0) (?s3\<lparr>lsIndex := indexWrite (job w) (lsIndex ?s3)\<rparr>)"
  have 4: "lreach d n v job ?s4" by (rule lreach.step [OF 3 w_index]) (simp add: s(2))
  let ?s5 = "setPhase w (PDone True) (?s4\<lparr>lsWal := exitWrite 0 (lsWal ?s4),
      lsCands := (lsCands ?s4)(jobKey (job w) := {Some (job w)})\<rparr>)"
  have 5: "lreach d n v job ?s5" by (rule lreach.step [OF 4 w_ack]) (simp add: setPhase_def)
  have "replayWAL [] = []" using replay_encs [of "[]"] by simp
  then show ?thesis
    using 5 assms(3) buf s(5) by (intro exI [of _ ?s5])
      (simp add: setPhase_def exitWrite_def shown_def applyWALReplay_lookup [where es = "[]"] assms(2) lookup_newShardedIndex)
qed

theorem drain_timeout_loses_witness:
  "\<exists>s. lreach 0 1 7 (\<lambda>_. exampleJob) s \<and> lsPhase s 0 = PDone True \<and> replayWAL (walFile (lsWal s)) = []"
  using drain_timeout_loses [of 0 "\<lambda>_. exampleJob" 0 1 7 noIO 9] exampleJob_engine exampleJob_simps
  by (auto simp: diskForShard_def)

end
