(* ===== verification/Spec2Isabelle.thy ===== *)
theory Spec2Isabelle
  imports RaftCluster RaftDurability RaftCommit RaftChange RaftTransfer LirsCache CheckpointSafety
begin

text \<open>
  Verification of the consensus layer and the storage core of VeltrixDB.

  VeltrixDB is a distributed key-value store in Go. A cluster replicates commands with Raft
  (package \<open>consensus\<close>); every node keeps its log and its term and vote on disk, replicates
  the log through a pipelined leader, applies committed entries to the storage engine and
  changes its membership online. The storage engine (package \<open>storage\<close>) keeps an in-memory
  sharded index over an append-only value log and makes writes durable with a write-ahead log
  per disk, from which a restart rebuilds the index.

  \<open>Prelude\<close>: bytes, little-endian integers, CRC-32C, FNV-1a, list lemmas, and the collections
  \<open>frame\<close> and \<open>logframe\<close> of facts saying what an operation leaves alone.

  Consensus, the node.

  \<open>RaftTypes\<close>: roles, log entries, configurations, messages, error values (\<open>raft.go\<close>,
  \<open>membership.go\<close>).

  \<open>RaftStorage\<close>: \<open>raft_storage.go\<close>. The record format and its replay, the term/vote file, the
  write queue, flush and rewrite, with the outcome of every system call as an argument. It
  shows that replay inverts the encoder up to a torn tail, that a flushed append survives
  every crash, and what a failed directory fsync does. The interface the node uses is the
  locale \<open>durable_log\<close>, interpreted on these functions.

  \<open>RaftNode\<close>: the node's state, log helpers, effective configuration, replicator table and
  role changes (\<open>raft.go\<close>, \<open>membership.go\<close>, \<open>pipeline.go\<close>). \<open>RaftReplication\<close>: group commit,
  syncer, AppendEntries on both sides, commit rule. \<open>RaftElection\<close>: RequestVote, pre-vote,
  election and the election timer. \<open>RaftApply\<close>: the applier and the read fence.
  \<open>RaftMembership\<close>: learners, promotion, adding and removing members. \<open>SnapshotFile\<close> and
  \<open>RaftSnapshot\<close>: the snapshot file, capture, compaction, chunked transfer and restore
  (\<open>snapshot_file.go\<close>, \<open>snapshot.go\<close>). \<open>RaftStartup\<close>: \<open>openLogStore\<close>, \<open>loadState\<close> and
  \<open>NewRaftNodeWithOptions\<close>.

  Consensus, what is proved.

  \<open>RaftFrame\<close>, \<open>RaftVotes\<close>, \<open>RaftOps\<close> and \<open>RaftElectionSafety\<close> follow the term and the vote
  through every operation; \<open>RaftCluster\<close> is a cluster of nodes with messages that are lost,
  repeated and delayed, failing disks and restarts, and shows election safety by rule
  induction. \<open>RaftLog\<close>: the log of a node stays a contiguous run behind its snapshot with the
  durable index never past its end. \<open>RaftDurability\<close>: from a start on what a crash left, through
  requests, group commits and passes of the syncer with failing writes and fsyncs (\<open>durStep\<close>),
  what a follower acknowledges is on its disk, unless the end of the log that the syncer captured
  was replaced and put back during its flush; a run shows that such an entry can be lost.
  \<open>RaftCommit\<close>: the commit rule is the greatest index a strict majority holds in the current
  term, and the applier hands over exactly the committed entries, in order. \<open>RaftChange\<close>:
  consecutive configurations have overlapping majorities. \<open>RaftTransfer\<close>: the chunked transfer
  installs only whole files, and completes on an undisturbed connection.

  Storage.

  \<open>GoText\<close>: the number formatting and splitting the text log format uses. \<open>WalFormat\<close>: both
  record formats of the write-ahead log, their decoder and the replay of a file
  (\<open>wal_format.go\<close>, \<open>wal.go\<close>, \<open>wal_replay.go\<close>); a log with a torn tail replays to what was
  written. \<open>Bloom\<close>: the filter of \<open>bloom_shard.go\<close> has no false negatives. \<open>OrderedIndex\<close>: the
  skip list of \<open>ordered_index.go\<close>, run one operation at a time, is a set of keys, and its scans
  visit the keys of the interval. \<open>ShardIndex\<close>: \<open>shard.go\<close>, \<open>index_table.go\<close> and
  \<open>tombstone_checkpoint.go\<close>; every operation of the index keeps counters, ordered view and
  filters in line with the table and is the map update it promises. \<open>WalReplay\<close>: the index
  rebuilt from the log, and the log written anew from the index, with the round trip between
  them.

  \<open>LirsCache\<close>: the value cache (\<open>cache.go\<close>, \<open>cache_sharded.go\<close>) is a part of the map of what was
  put, within its budget; the locale \<open>value_cache\<close> is what the engine relies on, interpreted on
  the cache and on its split over shards. \<open>EngineClock\<close>: the time of raft commands
  (\<open>raft_clock.go\<close>), the same on every node. \<open>EngineWrite\<close>: the log record and the index entry a
  put or a delete builds (\<open>engine.go\<close>). \<open>WalLive\<close>: the append queue, the flusher, the write epochs
  and the checkpoint under load (\<open>wal.go\<close>, \<open>wal_checkpoint_live.go\<close>) as a step relation of any
  number of writers, the flusher and a checkpoint. \<open>CheckpointSafety\<close>: no interleaving loses an
  acknowledged write at a crash, provided that no drain timed out, no flush broke off half way,
  no directory fsync failed, no two writes of a key overlapped and the timestamps of a key did
  not step back (history fields of the state say so, no step is guarded by them); and what a
  drain that timed out does.

  Concurrency: every section the code runs under a lock is one function on the state it guards;
  goroutines are the interleavings of these functions. Where a call releases the lock in the
  middle, the model has one function per section. The skip list is lock-free in its reads and
  locks single nodes in its writes; its operations are modelled one after the other.

  Terms, indices, offsets and sizes are \<open>nat\<close>; the encoders write them modulo their width, and
  the end of a record in the value log and the nanoseconds of a checkpoint record wrap as in the
  code. Flags and hashes are words. Clocks are arguments, of less than \<open>2^63\<close> microseconds. Loops recurse on the data they consume; the
  ones without a structural bound, \<open>applyCommitted\<close> and the scans of the skip list with their
  callback, are \<open>partial_function (option)\<close>.

  Not modelled: the network transport, metrics counters and log output, the random choice of
  the election timeout, \<open>encoding/gob\<close> (a parameter), the cgo index table, search indexes,
  backup and tiering, the server and its tools, and the compression and encryption libraries.
\<close>

end
